theory Spec2Isabelle
  imports Main "HOL-Library.Monad_Syntax" "HOL-Library.Signed_Division"
begin

section \<open>Item container primitives\<close>

text \<open>
  The item type \<open>'a\<close> is opaque (\<open>pair.Pair\<close> in the source).  The engine uses it through the
  injected comparator \<open>less\<close> (the parameter \<open>lt\<close> below), the distinguished absent value
  \<open>nilPair\<close> (a parameter as well) and equality against that value.

  A Go slice is modelled by the list of its elements up to its length.  Every operation that
  indexes out of range aborts the Go program with a run-time panic; in the model such an
  operation returns \<open>None\<close>.  \<open>None\<close> therefore always means "the call does not return
  normally".
\<close>

definition nth_opt :: "'a list \<Rightarrow> nat \<Rightarrow> 'a option" where
  "nth_opt xs i = (if i < length xs then Some (xs ! i) else None)"

text \<open>\<open>insertAt\<close>: append one slot, shift the tail, store at \<open>index\<close>.\<close>

definition insertAt :: "nat \<Rightarrow> 'a \<Rightarrow> 'a list \<Rightarrow> 'a list option" where
  "insertAt index item s =
     (if index \<le> length s then Some (take index s @ item # drop index s) else None)"

text \<open>\<open>removeAt\<close>: read \<open>s[index]\<close>, pull the tail back, shrink by one.\<close>

definition removeAt :: "nat \<Rightarrow> 'a list \<Rightarrow> ('a \<times> 'a list) option" where
  "removeAt index s =
     (if index < length s then Some (s ! index, take index s @ drop (Suc index) s) else None)"

text \<open>\<open>pop\<close>: remove and return the last element.\<close>

definition pop :: "'a list \<Rightarrow> ('a \<times> 'a list) option" where
  "pop s = (if s = [] then None else Some (last s, butlast s))"

text \<open>
  \<open>truncate\<close> (named \<open>truncate_slice\<close> here): keep the first \<open>index\<close> elements.  The source's callers only truncate below the
  length; re-slicing beyond the length (which Go allows up to the capacity) is not modelled and
  is an abort here.
\<close>

definition truncate_slice :: "nat \<Rightarrow> 'a list \<Rightarrow> 'a list option" where
  "truncate_slice index s = (if index \<le> length s then Some (take index s) else None)"

text \<open>
  \<open>find\<close>: the binary search of \<open>items.find\<close>.  \<open>find_loop\<close> is its \<open>for i < j\<close> loop; the
  probe \<open>s[h]\<close> is always in range because \<open>h < j \<le> len(s)\<close>.
\<close>

function find_loop :: "('a \<Rightarrow> 'a \<Rightarrow> bool) \<Rightarrow> 'a \<Rightarrow> 'a list \<Rightarrow> nat \<Rightarrow> nat \<Rightarrow> nat" where
  "find_loop lt item s i j =
     (if i < j then
        (let h = i + (j - i) div 2 in
         if \<not> lt item (s ! h) then find_loop lt item s (h + 1) j
         else find_loop lt item s i h)
      else i)"
  by pat_completeness auto
termination
  by (relation "measure (\<lambda>(lt, item, s, i, j). j - i)") auto

declare find_loop.simps [simp del]

definition find_items :: "('a \<Rightarrow> 'a \<Rightarrow> bool) \<Rightarrow> 'a \<Rightarrow> 'a list \<Rightarrow> nat \<times> bool" where
  "find_items lt item s =
     (let i = find_loop lt item s 0 (length s) in
      if i > 0 \<and> \<not> lt (s ! (i - 1)) item then (i - 1, True) else (i, False))"

section \<open>Nodes\<close>

text \<open>
  A node owns its item sequence and its child sequence.  In this value model a node is the
  tree below it; the copy-on-write stamp of the source's \<open>node\<close> struct decides only whether
  a node is written in place or copied first, and both give a node with the same items and
  children.
\<close>

datatype 'a node = Node (items: "'a list") (children: "'a node list")

text \<open>
  \<open>mutableFor\<close> returns the node itself or a copy of it with the same items and children;
  as values the two are equal.  \<open>mutableChild i\<close> reads \<open>children[i]\<close>, takes the mutable copy
  and stores it back in slot \<open>i\<close>.
\<close>

definition mutableFor :: "'a node \<Rightarrow> 'a node" where
  "mutableFor n = Node (items n) (children n)"

definition mutableChild :: "nat \<Rightarrow> 'a node \<Rightarrow> ('a node \<times> 'a node) option" where
  "mutableChild i n =
     do { c \<leftarrow> nth_opt (children n) i;
          let c' = mutableFor c;
          Some (c', Node (items n) ((children n)[i := c'])) }"

text \<open>
  \<open>split i\<close>: returns the item at index \<open>i\<close>, the shrunk node and the new sibling holding
  everything after index \<open>i\<close>.
\<close>

definition split :: "nat \<Rightarrow> 'a node \<Rightarrow> ('a \<times> 'a node \<times> 'a node) option" where
  "split i n =
     do { item \<leftarrow> nth_opt (items n) i;
          let next_items = drop (i + 1) (items n);
          its \<leftarrow> truncate_slice i (items n);
          if length (children n) > 0 then
            (if i + 1 \<le> length (children n) then
               do { cs \<leftarrow> truncate_slice (i + 1) (children n);
                    Some (item, Node its cs, Node next_items (drop (i + 1) (children n))) }
             else None)
          else Some (item, Node its (children n), Node next_items []) }"

text \<open>\<open>maybeSplitChild\<close>: returns whether a split occurred, and the node afterwards.\<close>

definition maybeSplitChild :: "nat \<Rightarrow> nat \<Rightarrow> 'a node \<Rightarrow> (bool \<times> 'a node) option" where
  "maybeSplitChild i maxPairs n =
     do { c \<leftarrow> nth_opt (children n) i;
          if length (items c) < maxPairs then Some (False, n)
          else
            do { (first, n1) \<leftarrow> mutableChild i n;
                 (item, first', second) \<leftarrow> split (maxPairs div 2) first;
                 its \<leftarrow> insertAt i item (items n1);
                 cs \<leftarrow> insertAt (i + 1) second ((children n1)[i := first']);
                 Some (True, Node its cs) } }"

text \<open>The number of nodes of a subtree; the measure for the recursion through children.\<close>

fun nodes :: "'a node \<Rightarrow> nat" where
  "nodes (Node xs cs) = Suc (sum_list (map nodes cs))"

lemma nodes_nth_opt:
  "nth_opt cs i = Some c \<Longrightarrow> nodes c < nodes (Node xs cs)"
  by (auto simp: nth_opt_def less_Suc_eq_le member_le_sum_list split: if_splits)

lemma nodes_child_less:
  "c \<in> set (children n) \<Longrightarrow> nodes c < nodes n"
  by (cases n) (auto simp: less_Suc_eq_le member_le_sum_list)

lemma sum_list_take_le: "sum_list (map f (take k xs)) \<le> (sum_list (map f xs) :: nat)"
proof -
  have "sum_list (map f xs) = sum_list (map f (take k xs @ drop k xs))" by simp
  also have "\<dots> = sum_list (map f (take k xs)) + sum_list (map f (drop k xs))"
    by (simp only: map_append sum_list_append)
  finally show ?thesis by simp
qed

lemma sum_list_drop_le: "sum_list (map f (drop k xs)) \<le> (sum_list (map f xs) :: nat)"
proof -
  have "sum_list (map f xs) = sum_list (map f (take k xs @ drop k xs))" by simp
  also have "\<dots> = sum_list (map f (take k xs)) + sum_list (map f (drop k xs))"
    by (simp only: map_append sum_list_append)
  finally show ?thesis by simp
qed

lemma split_nodes_le:
  assumes "split k c = Some (x, c1, c2)"
  shows "nodes c1 \<le> nodes c \<and> nodes c2 \<le> nodes c"
  using assms
  by (cases c)
     (auto simp: split_def truncate_slice_def nth_opt_def Let_def sum_list_take_le sum_list_drop_le
              le_SucI
           split: if_splits bind_splits)

lemma mutableChild_nodes:
  "mutableChild i n = Some (c, n') \<Longrightarrow> c \<in> set (children n) \<and> nodes n' = nodes n"
  by (cases n)
     (auto simp: mutableChild_def mutableFor_def nth_opt_def Let_def list_update_same_conv
           split: if_splits)

lemma maybeSplitChild_nodes:
  assumes "maybeSplitChild i m n = Some (b, n1)" and "c \<in> set (children n1)"
  shows "\<exists>c0 \<in> set (children n). nodes c \<le> nodes c0"
proof (cases b)
  case False
  with assms have "n1 = n"
    by (auto simp: maybeSplitChild_def nth_opt_def split: if_splits bind_splits)
  with assms show ?thesis by auto
next
  case True
  with assms obtain c0 x f s where c0: "i < length (children n)" "c0 = children n ! i"
    and sp: "split (m div 2) c0 = Some (x, f, s)"
    and cs: "children n1 = take (i + 1) ((children n)[i := f]) @ s # drop (i + 1) ((children n)[i := f])"
    by (auto simp: maybeSplitChild_def mutableChild_def mutableFor_def nth_opt_def insertAt_def
             Let_def split: if_splits bind_splits)
  from sp have le: "nodes f \<le> nodes c0" "nodes s \<le> nodes c0"
    using split_nodes_le [OF sp] by simp_all
  have c0in: "c0 \<in> set (children n)" using c0 by simp
  from assms(2) cs have "c = s \<or> c \<in> set ((children n)[i := f]) \<or> c \<in> set (children n)"
    by (auto dest: in_set_takeD in_set_dropD)
  then have "c = s \<or> c = f \<or> c \<in> set (children n)"
    using set_update_subset_insert [of "children n" i f] by auto
  with le c0in show ?thesis by auto
qed

text \<open>
  \<open>insert\<close>: the result is the returned previous item (\<open>nilPair\<close> when none) and the node
  after the in-place update.
\<close>

function insert_node ::
  "('a \<Rightarrow> 'a \<Rightarrow> bool) \<Rightarrow> 'a \<Rightarrow> 'a \<Rightarrow> nat \<Rightarrow> 'a node \<Rightarrow> ('a \<times> 'a node) option" where
  "insert_node lt nilPair item maxPairs n =
     (let (i, found) = find_items lt item (items n) in
      if found then Some (items n ! i, Node ((items n)[i := item]) (children n))
      else if length (children n) = 0 then
        do { its \<leftarrow> insertAt i item (items n);
             Some (nilPair, Node its (children n)) }
      else
        do { (was_split, n1) \<leftarrow> maybeSplitChild i maxPairs n;
             route \<leftarrow>
               (if was_split then
                  do { inTree \<leftarrow> nth_opt (items n1) i;
                       Some (if lt item inTree then Inr i
                             else if lt inTree item then Inr (i + 1)
                             else Inl inTree) }
                else Some (Inr i));
             case route of
               Inl out \<Rightarrow> Some (out, Node ((items n1)[i := item]) (children n1))
             | Inr i' \<Rightarrow>
                 do { (c, n2) \<leftarrow> mutableChild i' n1;
                      (out, c') \<leftarrow> insert_node lt nilPair item maxPairs c;
                      Some (out, Node (items n2) ((children n2)[i' := c'])) } })"
  by pat_completeness auto
termination
proof (relation "measure (\<lambda>(lt, nilPair, item, maxPairs, n). nodes n)", goal_cases)
  case 1
  show ?case by simp
next
  case (2 lt nilPair item maxPairs n x i found x2 was_split n1 route i' x3 c n2)
  from 2 have "c \<in> set (children n1)" using mutableChild_nodes by metis
  with 2 obtain c0 where "c0 \<in> set (children n)" "nodes c \<le> nodes c0"
    using maybeSplitChild_nodes by metis
  then show ?case using nodes_child_less [of c0 n] by simp
qed

declare insert_node.simps [simp del]

text \<open>\<open>get\<close>: recursive point lookup.\<close>

function get :: "('a \<Rightarrow> 'a \<Rightarrow> bool) \<Rightarrow> 'a \<Rightarrow> 'a \<Rightarrow> 'a node \<Rightarrow> 'a option" where
  "get lt nilPair key n =
     (let (i, found) = find_items lt key (items n) in
      if found then Some (items n ! i)
      else if length (children n) > 0 then
        do { c \<leftarrow> nth_opt (children n) i; get lt nilPair key c }
      else Some nilPair)"
  by pat_completeness auto
termination
proof (relation "measure (\<lambda>(lt, nilPair, key, n). nodes n)", goal_cases)
  case 1
  show ?case by simp
next
  case (2 lt nilPair key n x i found c)
  then show ?case using nodes_nth_opt [of "children n" i c "items n"] by simp
qed

declare get.simps [simp del]

text \<open>
  \<open>min\<close> and \<open>max\<close> take a possibly nil node pointer; their loops walk down the first
  (last) child.
\<close>

function min_loop :: "'a node \<Rightarrow> 'a node" where
  "min_loop n = (if length (children n) > 0 then min_loop (children n ! 0) else n)"
  by pat_completeness auto
termination
  by (relation "measure nodes") (auto intro: nodes_child_less)

function max_loop :: "'a node \<Rightarrow> 'a node" where
  "max_loop n =
     (if length (children n) > 0 then max_loop (children n ! (length (children n) - 1)) else n)"
  by pat_completeness auto
termination
  by (relation "measure nodes") (auto intro: nodes_child_less)

declare min_loop.simps [simp del] max_loop.simps [simp del]

definition min_node :: "'a \<Rightarrow> 'a node option \<Rightarrow> 'a" where
  "min_node nilPair n =
     (case n of None \<Rightarrow> nilPair
      | Some n \<Rightarrow> (let m = min_loop n in if length (items m) = 0 then nilPair else items m ! 0))"

definition max_node :: "'a \<Rightarrow> 'a node option \<Rightarrow> 'a" where
  "max_node nilPair n =
     (case n of None \<Rightarrow> nilPair
      | Some n \<Rightarrow> (let m = max_loop n in
                  if length (items m) = 0 then nilPair else items m ! (length (items m) - 1)))"

section \<open>Removal\<close>

datatype toRemove = removePair | removeMin | removeMax

text \<open>
  \<open>growChild\<close> is the restructuring part of \<open>growChildAndRemove\<close>: steal from the left
  sibling, else steal from the right sibling, else merge with the right sibling (after
  \<open>i--\<close> when \<open>i\<close> is the last index).  The index computations of the source are on machine
  integers; \<open>i--\<close> at \<open>i = 0\<close> gives \<open>-1\<close> and the following \<open>children[-1]\<close> panics.
\<close>

definition growChild :: "nat \<Rightarrow> nat \<Rightarrow> 'a node \<Rightarrow> 'a node option" where
  "growChild i minPairs n =
     do { left_spare \<leftarrow>
            (if i > 0 then
               do { l \<leftarrow> nth_opt (children n) (i - 1); Some (length (items l) > minPairs) }
             else Some False);
          if left_spare then
            do { (child, n1) \<leftarrow> mutableChild i n;
                 (stealFrom, n2) \<leftarrow> mutableChild (i - 1) n1;
                 (stolenPair, sf_items) \<leftarrow> pop (items stealFrom);
                 sep \<leftarrow> nth_opt (items n2) (i - 1);
                 child_items \<leftarrow> insertAt 0 sep (items child);
                 let n_items = (items n2)[i - 1 := stolenPair];
                 (sf_children, child_children) \<leftarrow>
                   (if length (children stealFrom) > 0 then
                      do { (c, sfc) \<leftarrow> pop (children stealFrom);
                           cc \<leftarrow> insertAt 0 c (children child);
                           Some (sfc, cc) }
                    else Some (children stealFrom, children child));
                 Some (Node n_items
                         ((children n2)[i := Node child_items child_children,
                                        i - 1 := Node sf_items sf_children])) }
          else
            do { right_spare \<leftarrow>
                   (if i < length (items n) then
                      do { r \<leftarrow> nth_opt (children n) (i + 1);
                           Some (length (items r) > minPairs) }
                    else Some False);
                 if right_spare then
                   do { (child, n1) \<leftarrow> mutableChild i n;
                        (stealFrom, n2) \<leftarrow> mutableChild (i + 1) n1;
                        (stolenPair, sf_items) \<leftarrow> removeAt 0 (items stealFrom);
                        sep \<leftarrow> nth_opt (items n2) i;
                        let child_items = items child @ [sep];
                        let n_items = (items n2)[i := stolenPair];
                        (sf_children, child_children) \<leftarrow>
                          (if length (children stealFrom) > 0 then
                             do { (c, sfc) \<leftarrow> removeAt 0 (children stealFrom);
                                  Some (sfc, children child @ [c]) }
                           else Some (children stealFrom, children child));
                        Some (Node n_items
                                ((children n2)[i := Node child_items child_children,
                                               i + 1 := Node sf_items sf_children])) }
                 else
                   do { i \<leftarrow> (if i \<ge> length (items n)
                              then (if i = 0 then None else Some (i - 1)) else Some i);
                        (child, n1) \<leftarrow> mutableChild i n;
                        (mergePair, n_items) \<leftarrow> removeAt i (items n1);
                        (mergeChild, n_children) \<leftarrow> removeAt (i + 1) (children n1);
                        let child' = Node (items child @ [mergePair] @ items mergeChild)
                                          (children child @ children mergeChild);
                        Some (Node n_items (n_children[i := child'])) } } }"

text \<open>
  \<open>remove\<close> and \<open>growChildAndRemove\<close> call each other; after the restructuring the source
  runs \<open>n.remove\<close> on the same node again, so the recursion is not bounded by the shape of
  the argument alone.  It is defined as a partial function: \<open>None\<close> is a run-time panic or a
  recursion that never returns.  The body of \<open>growChildAndRemove\<close> appears inline in the
  branch that calls it; \<open>growChildAndRemove\<close> itself is defined right after.
\<close>

partial_function (option) remove_node ::
  "('a \<Rightarrow> 'a \<Rightarrow> bool) \<Rightarrow> 'a \<Rightarrow> 'a \<Rightarrow> nat \<Rightarrow> toRemove \<Rightarrow> 'a node \<Rightarrow> ('a \<times> 'a node) option"
where
  "remove_node lt nilPair item minPairs typ n =
     (case (case typ of
              removeMax \<Rightarrow>
                if length (children n) = 0
                then Inl (do { (out, its) \<leftarrow> pop (items n); Some (out, Node its (children n)) })
                else Inr (length (items n), False)
            | removeMin \<Rightarrow>
                if length (children n) = 0
                then Inl (do { (out, its) \<leftarrow> removeAt 0 (items n);
                               Some (out, Node its (children n)) })
                else Inr (0, False)
            | removePair \<Rightarrow>
                (let (i, found) = find_items lt item (items n) in
                 if length (children n) = 0
                 then Inl (if found
                           then do { (out, its) \<leftarrow> removeAt i (items n);
                                     Some (out, Node its (children n)) }
                           else Some (nilPair, n))
                 else Inr (i, found)))
      of
        Inl r \<Rightarrow> r
      | Inr (i, found) \<Rightarrow>
          do { ci \<leftarrow> nth_opt (children n) i;
               if length (items ci) \<le> minPairs then
                 do { n' \<leftarrow> growChild i minPairs n;
                      remove_node lt nilPair item minPairs typ n' }
               else
                 do { (child, n1) \<leftarrow> mutableChild i n;
                      if found then
                        do { out \<leftarrow> nth_opt (items n1) i;
                             (pred, child') \<leftarrow>
                               remove_node lt nilPair nilPair minPairs removeMax child;
                             Some (out, Node ((items n1)[i := pred]) ((children n1)[i := child'])) }
                      else
                        do { (out, child') \<leftarrow> remove_node lt nilPair item minPairs typ child;
                             Some (out, Node (items n1) ((children n1)[i := child'])) } } })"

definition growChildAndRemove ::
  "('a \<Rightarrow> 'a \<Rightarrow> bool) \<Rightarrow> 'a \<Rightarrow> nat \<Rightarrow> 'a \<Rightarrow> nat \<Rightarrow> toRemove \<Rightarrow> 'a node \<Rightarrow> ('a \<times> 'a node) option"
where
  "growChildAndRemove lt nilPair i item minPairs typ n =
     do { n' \<leftarrow> growChild i minPairs n;
          remove_node lt nilPair item minPairs typ n' }"

section \<open>Range iteration\<close>

datatype direction = descend | ascend

text \<open>
  The consumer callback of the source is a closure; it is modelled as a function from the
  item and the consumer's state to the continue flag and the new state.  \<open>ascend_from\<close> is
  the \<open>ascend\<close> case of \<open>iterate\<close> from loop index \<open>i\<close> on, \<open>descend_from\<close> the
  \<open>descend\<close> case; the direction is passed down unchanged, so the recursive call on a child
  is the same case at the child's first loop index.  The result is \<open>(hit, ok)\<close> and the
  consumer's state.
\<close>

function ascend_from ::
  "('a \<Rightarrow> 'a \<Rightarrow> bool) \<Rightarrow> 'a \<Rightarrow> 'a \<Rightarrow> 'a \<Rightarrow> bool \<Rightarrow> ('a \<Rightarrow> 's \<Rightarrow> bool \<times> 's) \<Rightarrow>
   'a node \<Rightarrow> nat \<Rightarrow> bool \<Rightarrow> 's \<Rightarrow> (bool \<times> bool \<times> 's) option" where
  "ascend_from lt nilPair start stop includeStart iter n i hit s =
     (if i < length (items n) then
        (if start \<noteq> nilPair \<and> lt (items n ! i) start
         then ascend_from lt nilPair start stop includeStart iter n (i + 1) hit s
         else
           do { (hit1, ok, s1) \<leftarrow>
                  (if length (children n) > 0 then
                     do { c \<leftarrow> nth_opt (children n) i;
                          ascend_from lt nilPair start stop includeStart iter c 0 hit s }
                   else Some (hit, True, s));
                if \<not> ok then Some (hit1, False, s1)
                else if \<not> includeStart \<and> \<not> hit1 \<and> start \<noteq> nilPair \<and> \<not> lt start (items n ! i)
                then ascend_from lt nilPair start stop includeStart iter n (i + 1) True s1
                else if stop \<noteq> nilPair \<and> \<not> lt (items n ! i) stop then Some (True, False, s1)
                else (case iter (items n ! i) s1 of
                        (continue, s2) \<Rightarrow>
                          if \<not> continue then Some (True, False, s2)
                          else ascend_from lt nilPair start stop includeStart iter n (i + 1)
                                 True s2) })
      else if length (children n) > 0 then
        do { c \<leftarrow> nth_opt (children n) (length (children n) - 1);
             ascend_from lt nilPair start stop includeStart iter c 0 hit s }
      else Some (hit, True, s))"
  by pat_completeness auto
termination
  by (relation "measures [\<lambda>(lt, nilPair, start, stop, includeStart, iter, n, i, hit, s). nodes n,
                          \<lambda>(lt, nilPair, start, stop, includeStart, iter, n, i, hit, s).
                             length (items n) - i]")
     (auto dest: nodes_nth_opt [where xs = "[]"] simp: nth_opt_def nodes_child_less split: if_splits)

declare ascend_from.simps [simp del]

function descend_from ::
  "('a \<Rightarrow> 'a \<Rightarrow> bool) \<Rightarrow> 'a \<Rightarrow> 'a \<Rightarrow> 'a \<Rightarrow> bool \<Rightarrow> ('a \<Rightarrow> 's \<Rightarrow> bool \<times> 's) \<Rightarrow>
   'a node \<Rightarrow> int \<Rightarrow> bool \<Rightarrow> 's \<Rightarrow> (bool \<times> bool \<times> 's) option" where
  "descend_from lt nilPair start stop includeStart iter n i hit s =
     (if i \<ge> 0 then
        (if i \<ge> int (length (items n)) then None
         else if start \<noteq> nilPair \<and> \<not> lt (items n ! nat i) start \<and>
                 (\<not> includeStart \<or> hit \<or> lt start (items n ! nat i))
         then descend_from lt nilPair start stop includeStart iter n (i - 1) hit s
         else
           do { (hit1, ok, s1) \<leftarrow>
                  (if length (children n) > 0 then
                     do { c \<leftarrow> nth_opt (children n) (nat i + 1);
                          descend_from lt nilPair start stop includeStart iter c
                            (int (length (items c)) - 1) hit s }
                   else Some (hit, True, s));
                if \<not> ok then Some (hit1, False, s1)
                else if stop \<noteq> nilPair \<and> \<not> lt stop (items n ! nat i) then Some (hit1, False, s1)
                else (case iter (items n ! nat i) s1 of
                        (continue, s2) \<Rightarrow>
                          if \<not> continue then Some (True, False, s2)
                          else descend_from lt nilPair start stop includeStart iter n (i - 1)
                                 True s2) })
      else if length (children n) > 0 then
        do { c \<leftarrow> nth_opt (children n) 0;
             descend_from lt nilPair start stop includeStart iter c
               (int (length (items c)) - 1) hit s }
      else Some (hit, True, s))"
  by pat_completeness auto
termination
  by (relation "measures [\<lambda>(lt, nilPair, start, stop, includeStart, iter, n, i, hit, s). nodes n,
                          \<lambda>(lt, nilPair, start, stop, includeStart, iter, n, i, hit, s).
                             nat (i + 1)]")
     (auto simp: nth_opt_def nodes_child_less split: if_splits)

declare descend_from.simps [simp del]

definition iterate ::
  "('a \<Rightarrow> 'a \<Rightarrow> bool) \<Rightarrow> 'a \<Rightarrow> direction \<Rightarrow> 'a \<Rightarrow> 'a \<Rightarrow> bool \<Rightarrow> bool \<Rightarrow>
   ('a \<Rightarrow> 's \<Rightarrow> bool \<times> 's) \<Rightarrow> 'a node \<Rightarrow> 's \<Rightarrow> (bool \<times> bool \<times> 's) option" where
  "iterate lt nilPair dir start stop includeStart hit iter n s =
     (case dir of
        ascend \<Rightarrow> ascend_from lt nilPair start stop includeStart iter n 0 hit s
      | descend \<Rightarrow>
          descend_from lt nilPair start stop includeStart iter n (int (length (items n)) - 1) hit s)"

section \<open>The tree handle\<close>

text \<open>
  \<open>PairTree\<close>: the degree, the item counter and the nullable root.  The comparator field
  \<open>less\<close> is set once by \<open>New\<close> and never assigned again; it is the parameter \<open>lt\<close> of
  every operation.  The counter is a Go \<open>int\<close>; it is an integer here (overflow of a 64-bit
  counter of in-memory items is out of reach).  \<open>degree\<close> is a natural number: the only
  constructor sets it to \<open>defaultDegrees\<close>, and for \<open>degree \<ge> 1\<close> the expressions
  \<open>degree*2 - 1\<close> and \<open>degree - 1\<close> are the same over \<open>nat\<close> and over Go's \<open>int\<close>.
\<close>

record 'a PairTree =
  degree :: nat
  length_t :: int
  root :: "'a node option"

definition defaultDegrees :: nat where
  "defaultDegrees = 9"

definition New :: "'a PairTree" where
  "New = \<lparr>degree = defaultDegrees, length_t = 0, root = None\<rparr>"

definition maxPairs :: "'a PairTree \<Rightarrow> nat" where
  "maxPairs t = degree t * 2 - 1"

definition minPairs :: "'a PairTree \<Rightarrow> nat" where
  "minPairs t = degree t - 1"

text \<open>
  The outcome of a public operation: \<open>Inr\<close> carries the returned item and the handle after
  the call, \<open>Inl\<close> is a fatal abort.  The handle is a pointer in the source, so a caller that
  recovers from the explicit panic of \<open>ReplaceOrInsert\<close> still holds the tree:
  \<open>NilItemAdded t'\<close> is that panic, raised with the handle in state \<open>t'\<close>.
  \<open>RuntimePanic\<close> is a run-time panic inside a node operation (an index out of range); the
  state it leaves behind is not modelled.
\<close>

datatype 'a error = NilItemAdded "'a PairTree" | RuntimePanic

definition ReplaceOrInsert ::
  "('a \<Rightarrow> 'a \<Rightarrow> bool) \<Rightarrow> 'a \<Rightarrow> 'a \<Rightarrow> 'a PairTree \<Rightarrow> 'a error + ('a \<times> 'a PairTree)" where
  "ReplaceOrInsert lt nilPair item t =
     (if item = nilPair then Inl (NilItemAdded t)
      else
        (case root t of
           None \<Rightarrow> Inr (nilPair, t\<lparr>root := Some (Node [item] []), length_t := length_t t + 1\<rparr>)
         | Some r \<Rightarrow>
             (case (let r0 = mutableFor r in
                    if length (items r0) \<ge> maxPairs t then
                      do { (item2, oldroot, second) \<leftarrow> split (maxPairs t div 2) r0;
                           Some (Node [item2] [oldroot, second]) }
                    else Some r0)
              of
                None \<Rightarrow> Inl RuntimePanic
              | Some r1 \<Rightarrow>
                  (case insert_node lt nilPair item (maxPairs t) r1 of
                     None \<Rightarrow> Inl RuntimePanic
                   | Some (out, r2) \<Rightarrow>
                       Inr (out, t\<lparr>root := Some r2,
                                   length_t := (if out = nilPair then length_t t + 1
                                                else length_t t)\<rparr>)))))"

definition deletePair ::
  "('a \<Rightarrow> 'a \<Rightarrow> bool) \<Rightarrow> 'a \<Rightarrow> 'a \<Rightarrow> toRemove \<Rightarrow> 'a PairTree \<Rightarrow> 'a error + ('a \<times> 'a PairTree)" where
  "deletePair lt nilPair item typ t =
     (case root t of
        None \<Rightarrow> Inr (nilPair, t)
      | Some r \<Rightarrow>
          if length (items r) = 0 then Inr (nilPair, t)
          else
            (case remove_node lt nilPair item (minPairs t) typ (mutableFor r) of
               None \<Rightarrow> Inl RuntimePanic
             | Some (out, r1) \<Rightarrow>
                 (let r2 = (if length (items r1) = 0 \<and> length (children r1) > 0
                            then children r1 ! 0 else r1)
                  in Inr (out, t\<lparr>root := Some r2,
                                  length_t := (if out \<noteq> nilPair then length_t t - 1
                                               else length_t t)\<rparr>))))"

definition Delete ::
  "('a \<Rightarrow> 'a \<Rightarrow> bool) \<Rightarrow> 'a \<Rightarrow> 'a \<Rightarrow> 'a PairTree \<Rightarrow> 'a error + ('a \<times> 'a PairTree)" where
  "Delete lt nilPair item t = deletePair lt nilPair item removePair t"

definition DeleteMin ::
  "('a \<Rightarrow> 'a \<Rightarrow> bool) \<Rightarrow> 'a \<Rightarrow> 'a PairTree \<Rightarrow> 'a error + ('a \<times> 'a PairTree)" where
  "DeleteMin lt nilPair t = deletePair lt nilPair nilPair removeMin t"

definition DeleteMax ::
  "('a \<Rightarrow> 'a \<Rightarrow> bool) \<Rightarrow> 'a \<Rightarrow> 'a PairTree \<Rightarrow> 'a error + ('a \<times> 'a PairTree)" where
  "DeleteMax lt nilPair t = deletePair lt nilPair nilPair removeMax t"

definition Get :: "('a \<Rightarrow> 'a \<Rightarrow> bool) \<Rightarrow> 'a \<Rightarrow> 'a \<Rightarrow> 'a PairTree \<Rightarrow> 'a error + 'a" where
  "Get lt nilPair key t =
     (case root t of
        None \<Rightarrow> Inr nilPair
      | Some r \<Rightarrow> (case get lt nilPair key r of None \<Rightarrow> Inl RuntimePanic | Some x \<Rightarrow> Inr x))"

definition Min :: "'a \<Rightarrow> 'a PairTree \<Rightarrow> 'a" where
  "Min nilPair t = min_node nilPair (root t)"

definition Max :: "'a \<Rightarrow> 'a PairTree \<Rightarrow> 'a" where
  "Max nilPair t = max_node nilPair (root t)"

definition Has :: "('a \<Rightarrow> 'a \<Rightarrow> bool) \<Rightarrow> 'a \<Rightarrow> 'a \<Rightarrow> 'a PairTree \<Rightarrow> 'a error + bool" where
  "Has lt nilPair key t =
     (case Get lt nilPair key t of Inl e \<Rightarrow> Inl e | Inr x \<Rightarrow> Inr (x \<noteq> nilPair))"

definition Len :: "'a PairTree \<Rightarrow> int" where
  "Len t = length_t t"

text \<open>
  The range scans return the consumer's final state; \<open>None\<close> is an abort inside
  \<open>iterate\<close>.
\<close>

definition scan ::
  "('a \<Rightarrow> 'a \<Rightarrow> bool) \<Rightarrow> 'a \<Rightarrow> direction \<Rightarrow> 'a \<Rightarrow> 'a \<Rightarrow> bool \<Rightarrow>
   ('a \<Rightarrow> 's \<Rightarrow> bool \<times> 's) \<Rightarrow> 'a PairTree \<Rightarrow> 's \<Rightarrow> 's option" where
  "scan lt nilPair dir start stop includeStart iterator t s =
     (case root t of
        None \<Rightarrow> Some s
      | Some r \<Rightarrow>
          map_option (\<lambda>(hit, ok, s'). s')
            (iterate lt nilPair dir start stop includeStart False iterator r s))"

definition AscendRange ::
  "('a \<Rightarrow> 'a \<Rightarrow> bool) \<Rightarrow> 'a \<Rightarrow> 'a \<Rightarrow> 'a \<Rightarrow> ('a \<Rightarrow> 's \<Rightarrow> bool \<times> 's) \<Rightarrow> 'a PairTree \<Rightarrow> 's \<Rightarrow> 's option"
where
  "AscendRange lt nilPair greaterOrEqual lessThan_b iterator t s =
     scan lt nilPair ascend greaterOrEqual lessThan_b True iterator t s"

definition AscendLessThan ::
  "('a \<Rightarrow> 'a \<Rightarrow> bool) \<Rightarrow> 'a \<Rightarrow> 'a \<Rightarrow> ('a \<Rightarrow> 's \<Rightarrow> bool \<times> 's) \<Rightarrow> 'a PairTree \<Rightarrow> 's \<Rightarrow> 's option"
where
  "AscendLessThan lt nilPair pivot iterator t s =
     scan lt nilPair ascend nilPair pivot False iterator t s"

definition AscendGreaterOrEqual ::
  "('a \<Rightarrow> 'a \<Rightarrow> bool) \<Rightarrow> 'a \<Rightarrow> 'a \<Rightarrow> ('a \<Rightarrow> 's \<Rightarrow> bool \<times> 's) \<Rightarrow> 'a PairTree \<Rightarrow> 's \<Rightarrow> 's option"
where
  "AscendGreaterOrEqual lt nilPair pivot iterator t s =
     scan lt nilPair ascend pivot nilPair True iterator t s"

definition Ascend ::
  "('a \<Rightarrow> 'a \<Rightarrow> bool) \<Rightarrow> 'a \<Rightarrow> ('a \<Rightarrow> 's \<Rightarrow> bool \<times> 's) \<Rightarrow> 'a PairTree \<Rightarrow> 's \<Rightarrow> 's option"
where
  "Ascend lt nilPair iterator t s = scan lt nilPair ascend nilPair nilPair False iterator t s"

definition DescendRange ::
  "('a \<Rightarrow> 'a \<Rightarrow> bool) \<Rightarrow> 'a \<Rightarrow> 'a \<Rightarrow> 'a \<Rightarrow> ('a \<Rightarrow> 's \<Rightarrow> bool \<times> 's) \<Rightarrow> 'a PairTree \<Rightarrow> 's \<Rightarrow> 's option"
where
  "DescendRange lt nilPair lessOrEqual greaterThan_b iterator t s =
     scan lt nilPair descend lessOrEqual greaterThan_b True iterator t s"

definition DescendLessOrEqual ::
  "('a \<Rightarrow> 'a \<Rightarrow> bool) \<Rightarrow> 'a \<Rightarrow> 'a \<Rightarrow> ('a \<Rightarrow> 's \<Rightarrow> bool \<times> 's) \<Rightarrow> 'a PairTree \<Rightarrow> 's \<Rightarrow> 's option"
where
  "DescendLessOrEqual lt nilPair pivot iterator t s =
     scan lt nilPair descend pivot nilPair True iterator t s"

definition DescendGreaterThan ::
  "('a \<Rightarrow> 'a \<Rightarrow> bool) \<Rightarrow> 'a \<Rightarrow> 'a \<Rightarrow> ('a \<Rightarrow> 's \<Rightarrow> bool \<times> 's) \<Rightarrow> 'a PairTree \<Rightarrow> 's \<Rightarrow> 's option"
where
  "DescendGreaterThan lt nilPair pivot iterator t s =
     scan lt nilPair descend nilPair pivot False iterator t s"

definition Descend ::
  "('a \<Rightarrow> 'a \<Rightarrow> bool) \<Rightarrow> 'a \<Rightarrow> ('a \<Rightarrow> 's \<Rightarrow> bool \<times> 's) \<Rightarrow> 'a PairTree \<Rightarrow> 's \<Rightarrow> 's option"
where
  "Descend lt nilPair iterator t s = scan lt nilPair descend nilPair nilPair False iterator t s"

text \<open>The consumer that records every item it is given and never stops the scan.\<close>

definition record_all :: "'a \<Rightarrow> 'a list \<Rightarrow> bool \<times> 'a list" where
  "record_all x acc = (True, acc @ [x])"

section \<open>Cursor\<close>

text \<open>
  A cursor is its stack of frames \<open>(node, position)\<close>; the head of the list is the top of
  the stack (the last element of the source's slice).  The cursor's tree pointer is the tree
  argument of \<open>First\<close>, \<open>Last\<close> and \<open>Seek\<close>.  Positions are Go \<open>int\<close>s and may be
  \<open>-1\<close>; \<open>i%2\<close> and \<open>i/2\<close> round towards zero (\<open>smod\<close>, \<open>sdiv\<close>).
\<close>

type_synonym 'a Cursor = "('a node \<times> int) list"

text \<open>Indexing with a machine integer: a negative or too large index panics.\<close>

definition nth_int :: "'a list \<Rightarrow> int \<Rightarrow> 'a option" where
  "nth_int xs i = (if 0 \<le> i \<and> i < int (length xs) then Some (xs ! nat i) else None)"

text \<open>The termination measure of \<open>Next\<close>: the children still to be entered by each frame.\<close>

definition next_weight :: "'a node \<times> int \<Rightarrow> nat" where
  "next_weight f =
     (case f of (n, i) \<Rightarrow>
        1 + 2 * sum_list (map nodes (drop (nat ((i + 2) div 2)) (children n)))
          + (if i < -1 then 2 * nodes n else 0))"

lemma sdiv2_nonneg: "0 \<le> (i::int) \<Longrightarrow> i sdiv 2 = i div 2"
  by (simp add: signed_divide_int_def sgn_if)

lemma smod2_nonneg: "0 \<le> (i::int) \<Longrightarrow> i smod 2 = i mod 2"
  by (simp add: signed_modulo_int_def sgn_if)

lemma smod2_neg: "(i::int) < 0 \<Longrightarrow> i smod 2 \<noteq> 1"
  by (auto simp add: signed_modulo_int_def sgn_if)

lemma sdiv2_neg: "(i::int) < 0 \<Longrightarrow> 0 \<le> i sdiv 2 \<Longrightarrow> i = -1"
  by (auto simp add: signed_divide_int_def sgn_if split: if_splits)

lemma sdiv2_one: "(1::int) sdiv 2 = 0"
  by (simp add: signed_divide_int_def)

lemma sdiv2_m1: "(-1::int) sdiv 2 = 0"
  by (simp add: signed_divide_int_def)

lemma nodes_sum_children: "nodes n = Suc (sum_list (map nodes (children n)))"
  by (cases n) simp

lemma sum_drop_nth:
  "k < length cs \<Longrightarrow>
   sum_list (map f (drop k cs)) = f (cs ! k) + (sum_list (map f (drop (Suc k) cs)) :: nat)"
  by (simp flip: Cons_nth_drop_Suc)

lemma next_push_decreases:
  assumes "nth_int (children n) ((i0 + 1) sdiv 2) = Some c" and "(i0 + 1) smod 2 \<noteq> 1"
  shows "next_weight (c, -1) + next_weight (n, i0 + 1) < next_weight (n, i0)"
proof (cases "i0 + 1 < 0")
  case True
  with assms have "i0 + 1 = -1"
    using sdiv2_neg [of "i0 + 1"] by (auto simp: nth_int_def split: if_splits)
  then have i: "i0 = -2" by simp
  with assms have c: "c = children n ! 0" "0 < length (children n)"
    by (auto simp: nth_int_def sdiv2_m1 sdiv2_one split: if_splits)
  have "c \<in> set (children n)" using c by simp
  then have "nodes c < nodes n" by (rule nodes_child_less)
  then show ?thesis using i by (simp add: next_weight_def nodes_sum_children [of c])
next
  case False
  then have nn: "0 \<le> i0 + 1" by simp
  with assms have ev: "(i0 + 1) mod 2 = 0" by (auto simp add: smod2_nonneg)
  from assms nn have k: "nat ((i0 + 1) div 2) < length (children n)"
    and c: "c = children n ! nat ((i0 + 1) div 2)"
    by (auto simp: nth_int_def sdiv2_nonneg split: if_splits)
  have "(i0 + 2) div 2 = (i0 + 1) div 2" using ev by presburger
  then have e1: "nat ((i0 + 2) div 2) = nat ((i0 + 1) div 2)" by simp
  have "(3 + i0) div 2 = (i0 + 1) div 2 + 1" "0 \<le> (i0 + 1) div 2"
    using ev nn by presburger+
  then have e2: "nat ((3 + i0) div 2) = Suc (nat ((i0 + 1) div 2))" by simp
  show ?thesis using nn
    by (simp add: next_weight_def e1 e2 sum_drop_nth [OF k] c [symmetric]
        nodes_sum_children [of c])
qed

function Next :: "'a \<Rightarrow> 'a Cursor \<Rightarrow> ('a \<times> 'a Cursor) option" where
  "Next nilPair stack =
     (case stack of
        [] \<Rightarrow> Some (nilPair, [])
      | (n, i0) # rest \<Rightarrow>
          (let i = i0 + 1 in
           if i = int (length (children n)) + int (length (items n)) then Next nilPair rest
           else if length (children n) = 0 then
             (if i \<ge> int (length (items n)) then Next nilPair rest
              else map_option (\<lambda>x. (x, (n, i) # rest)) (nth_int (items n) i))
           else if i smod 2 = 1 then
             map_option (\<lambda>x. (x, (n, i) # rest)) (nth_int (items n) (i sdiv 2))
           else
             do { c \<leftarrow> nth_int (children n) (i sdiv 2);
                  Next nilPair ((c, -1) # (n, i) # rest) }))"
  by pat_completeness auto
termination
proof (relation "measure (\<lambda>(nilPair, stack). sum_list (map next_weight stack))", goal_cases)
  case 1
  show ?case by simp
next
  case (2 nilPair stack a rest n i0 i)
  then show ?case by (auto simp add: next_weight_def)
next
  case (3 nilPair stack a rest n i0 i)
  then show ?case by (auto simp add: next_weight_def)
next
  case (4 nilPair stack a rest n i0 i c)
  then show ?case using next_push_decreases [of n i0 c] by simp
qed

declare Next.simps [simp del]

definition prev_weight :: "'a node \<times> int \<Rightarrow> nat" where
  "prev_weight f =
     (case f of (n, i) \<Rightarrow> 1 + 2 * sum_list (map nodes (take (nat ((i + 1) div 2)) (children n))))"

lemma prev_push_decreases:
  assumes "nth_int (children n) ((i0 - 1) sdiv 2) = Some c" and "(i0 - 1) smod 2 \<noteq> 1"
    and "i0 - 1 \<noteq> -1"
  shows "prev_weight (c, j) + prev_weight (n, i0 - 1) < prev_weight (n, i0)"
proof -
  have nn: "0 \<le> i0 - 1"
  proof (rule ccontr)
    assume "\<not> 0 \<le> i0 - 1"
    then have "i0 - 1 < 0" by simp
    moreover from assms(1) have "0 \<le> (i0 - 1) sdiv 2"
      by (simp add: nth_int_def split: if_splits)
    ultimately have "i0 - 1 = -1" by (rule sdiv2_neg)
    with assms(3) show False by simp
  qed
  with assms have ev: "(i0 - 1) mod 2 = 0" by (auto simp add: smod2_nonneg)
  from assms nn have k: "nat ((i0 - 1) div 2) < length (children n)"
    and c: "c = children n ! nat ((i0 - 1) div 2)"
    by (auto simp: nth_int_def sdiv2_nonneg split: if_splits)
  have "(i0 + 1) div 2 = (i0 - 1) div 2 + 1" "0 \<le> (i0 - 1) div 2" "i0 div 2 = (i0 - 1) div 2"
    using ev nn by presburger+
  then have e1: "nat ((i0 + 1) div 2) = Suc (nat ((i0 - 1) div 2))"
    and e2: "nat (i0 div 2) = nat ((i0 - 1) div 2)" by simp_all
  have "sum_list (map nodes (take (nat ((j + 1) div 2)) (children c))) < nodes c"
    using sum_list_take_le [of nodes _ "children c"] by (simp add: nodes_sum_children [of c] less_Suc_eq_le)
  then show ?thesis
    by (simp add: prev_weight_def e1 e2 take_Suc_conv_app_nth [OF k] c [symmetric])
qed

function Prev :: "'a \<Rightarrow> 'a Cursor \<Rightarrow> ('a \<times> 'a Cursor) option" where
  "Prev nilPair stack =
     (case stack of
        [] \<Rightarrow> Some (nilPair, [])
      | (n, i0) # rest \<Rightarrow>
          (let i = i0 - 1 in
           if i = -1 then Prev nilPair rest
           else if length (children n) = 0 then
             map_option (\<lambda>x. (x, (n, i) # rest)) (nth_int (items n) i)
           else if i smod 2 = 1 then
             map_option (\<lambda>x. (x, (n, i) # rest)) (nth_int (items n) (i sdiv 2))
           else
             do { child \<leftarrow> nth_int (children n) (i sdiv 2);
                  Prev nilPair
                    ((child, int (length (children child)) + int (length (items child)))
                     # (n, i) # rest) }))"
  by pat_completeness auto
termination
proof (relation "measure (\<lambda>(nilPair, stack). sum_list (map prev_weight stack))", goal_cases)
  case 1
  show ?case by simp
next
  case (2 nilPair stack a rest n i0 i)
  then show ?case by (auto simp add: prev_weight_def)
next
  case (3 nilPair stack a rest n i0 i c)
  then show ?case
    using prev_push_decreases [of n i0 c "int (length (children c)) + int (length (items c))"]
    by simp
qed

declare Prev.simps [simp del]

function first_loop :: "'a node \<Rightarrow> 'a Cursor \<Rightarrow> 'a node \<times> 'a Cursor" where
  "first_loop n stack =
     (if length (children n) > 0
      then first_loop (children n ! 0) ((children n ! 0, 0) # stack)
      else (n, stack))"
  by pat_completeness auto
termination
  by (relation "measure (\<lambda>(n, stack). nodes n)") (auto intro: nodes_child_less)

declare first_loop.simps [simp del]

definition First :: "'a \<Rightarrow> 'a PairTree \<Rightarrow> 'a \<times> 'a Cursor" where
  "First nilPair t =
     (case root t of
        None \<Rightarrow> (nilPair, [])
      | Some r \<Rightarrow>
          (let (n, stack) = first_loop r [(r, 0)] in
           if length (items n) = 0 then (nilPair, stack) else (items n ! 0, stack)))"

function last_loop :: "'a node \<Rightarrow> 'a Cursor \<Rightarrow> 'a node \<times> 'a Cursor" where
  "last_loop n stack =
     (if length (children n) > 0
      then (let c = children n ! (length (children n) - 1) in
            last_loop c ((c, int (length (children c)) + int (length (items c)) - 1) # stack))
      else (n, stack))"
  by pat_completeness auto
termination
  by (relation "measure (\<lambda>(n, stack). nodes n)") (auto intro: nodes_child_less)

declare last_loop.simps [simp del]

definition Last :: "'a \<Rightarrow> 'a PairTree \<Rightarrow> 'a \<times> 'a Cursor" where
  "Last nilPair t =
     (case root t of
        None \<Rightarrow> (nilPair, [])
      | Some r \<Rightarrow>
          (let (n, stack) =
                 last_loop r [(r, int (length (children r)) + int (length (items r)) - 1)] in
           if length (items n) = 0 then (nilPair, stack)
           else (items n ! (length (items n) - 1), stack)))"




text \<open>
  The caller's loop "call \<open>Next\<close> until the absent value is returned", collecting the
  returned items, and the same for \<open>Prev\<close>.  \<open>x\<close> is the item returned by the previous
  call.
\<close>

partial_function (option) next_until_nil :: "'a \<Rightarrow> 'a \<Rightarrow> 'a Cursor \<Rightarrow> 'a list option" where
  "next_until_nil nilPair x stack =
     (if x = nilPair then Some []
      else do { (y, stack') \<leftarrow> Next nilPair stack;
                ys \<leftarrow> next_until_nil nilPair y stack';
                Some (x # ys) })"

partial_function (option) prev_until_nil :: "'a \<Rightarrow> 'a \<Rightarrow> 'a Cursor \<Rightarrow> 'a list option" where
  "prev_until_nil nilPair x stack =
     (if x = nilPair then Some []
      else do { (y, stack') \<leftarrow> Prev nilPair stack;
                ys \<leftarrow> prev_until_nil nilPair y stack';
                Some (x # ys) })"

declare remove_node.simps [code] next_until_nil.simps [code] prev_until_nil.simps [code]


section \<open>The comparator contract\<close>

definition strict_weak_order :: "('a \<Rightarrow> 'a \<Rightarrow> bool) \<Rightarrow> bool" where
  "strict_weak_order lt \<longleftrightarrow>
     (\<forall>a. \<not> lt a a) \<and> (\<forall>a b c. lt a b \<longrightarrow> lt b c \<longrightarrow> lt a c) \<and>
     (\<forall>a b c. lt a b \<longrightarrow> lt a c \<or> lt c b)"

definition equiv :: "('a \<Rightarrow> 'a \<Rightarrow> bool) \<Rightarrow> 'a \<Rightarrow> 'a \<Rightarrow> bool" where
  "equiv lt a b \<longleftrightarrow> \<not> lt a b \<and> \<not> lt b a"

lemma swo_irrefl: "strict_weak_order lt \<Longrightarrow> \<not> lt a a"
  by (simp add: strict_weak_order_def)

lemma swo_trans: "strict_weak_order lt \<Longrightarrow> lt a b \<Longrightarrow> lt b c \<Longrightarrow> lt a c"
  unfolding strict_weak_order_def by blast

lemma swo_asym: "strict_weak_order lt \<Longrightarrow> lt a b \<Longrightarrow> \<not> lt b a"
  unfolding strict_weak_order_def by blast

lemma swo_cotrans: "strict_weak_order lt \<Longrightarrow> lt a b \<Longrightarrow> lt a c \<or> lt c b"
  unfolding strict_weak_order_def by blast

lemma lt_equiv_trans: "strict_weak_order lt \<Longrightarrow> lt a b \<Longrightarrow> equiv lt b c \<Longrightarrow> lt a c"
  unfolding equiv_def using swo_cotrans by metis

lemma equiv_lt_trans: "strict_weak_order lt \<Longrightarrow> equiv lt a b \<Longrightarrow> lt b c \<Longrightarrow> lt a c"
  unfolding equiv_def using swo_cotrans by metis

lemma swo_transp: "strict_weak_order lt \<Longrightarrow> transp lt"
  unfolding transp_def using swo_trans by metis

section \<open>Ordered sequences: the abstract view of a tree\<close>

definition ups :: "('a \<Rightarrow> 'a \<Rightarrow> bool) \<Rightarrow> 'a \<Rightarrow> 'a list \<Rightarrow> 'a list" where
  "ups lt x xs = filter (\<lambda>y. lt y x) xs @ [x] @ filter (\<lambda>y. lt x y) xs"

definition del :: "('a \<Rightarrow> 'a \<Rightarrow> bool) \<Rightarrow> 'a \<Rightarrow> 'a list \<Rightarrow> 'a list" where
  "del lt x xs = filter (\<lambda>y. lt y x \<or> lt x y) xs"

definition lookup :: "('a \<Rightarrow> 'a \<Rightarrow> bool) \<Rightarrow> 'a \<Rightarrow> 'a \<Rightarrow> 'a list \<Rightarrow> 'a" where
  "lookup lt nilPair x xs =
     (case List.find (\<lambda>y. \<not> lt x y \<and> \<not> lt y x) xs of None \<Rightarrow> nilPair | Some y \<Rightarrow> y)"

lemma filter_all: "(\<forall>y \<in> set xs. P y) \<Longrightarrow> filter P xs = xs"
  by (induction xs) auto

lemma filter_none: "(\<forall>y \<in> set xs. \<not> P y) \<Longrightarrow> filter P xs = []"
  by (induction xs) auto

lemma find_append:
  "List.find P (xs @ ys) = (case List.find P xs of None \<Rightarrow> List.find P ys | Some y \<Rightarrow> Some y)"
  by (induction xs) auto

lemma find_none: "(\<forall>y \<in> set xs. \<not> P y) \<Longrightarrow> List.find P xs = None"
  by (induction xs) auto

lemma ups_sandwich:
  assumes "strict_weak_order lt" "\<forall>y \<in> set L. lt y x" "\<forall>y \<in> set R. lt x y"
  shows "ups lt x (L @ M @ R) = L @ ups lt x M @ R"
proof -
  have "filter (\<lambda>y. lt y x) L = L" "filter (\<lambda>y. lt x y) R = R"
    using assms by (simp_all add: filter_all)
  moreover have "filter (\<lambda>y. lt x y) L = []" "filter (\<lambda>y. lt y x) R = []"
    using assms swo_asym [OF assms(1)] by (auto intro!: filter_none)
  ultimately show ?thesis by (simp add: ups_def)
qed

lemma del_sandwich:
  assumes "\<forall>y \<in> set L. lt y x" "\<forall>y \<in> set R. lt x y"
  shows "del lt x (L @ M @ R) = L @ del lt x M @ R"
  using assms by (simp add: del_def filter_all)

lemma lookup_sandwich:
  assumes "\<forall>y \<in> set L. lt y x" "\<forall>y \<in> set R. lt x y"
  shows "lookup lt nilPair x (L @ M @ R) = lookup lt nilPair x M"
proof -
  have "List.find (\<lambda>y. \<not> lt x y \<and> \<not> lt y x) L = None"
    "List.find (\<lambda>y. \<not> lt x y \<and> \<not> lt y x) R = None"
    using assms by (auto intro!: find_none)
  then show ?thesis by (simp add: lookup_def find_append split: option.splits)
qed

lemma sorted_wrt_ups:
  assumes "strict_weak_order lt" "sorted_wrt lt xs"
  shows "sorted_wrt lt (ups lt x xs)"
  using assms swo_trans [OF assms(1)]
  by (auto simp: ups_def sorted_wrt_append sorted_wrt_filter)

lemma sorted_wrt_del: "sorted_wrt lt xs \<Longrightarrow> sorted_wrt lt (del lt x xs)"
  by (simp add: del_def sorted_wrt_filter)

text \<open>In a sorted sequence everything before an element is below it.\<close>

lemma sorted_wrt_before_last:
  assumes "strict_weak_order lt" "sorted_wrt lt (L @ R)" "L \<noteq> []" "lt (last L) x" "y \<in> set L"
  shows "lt y x"
proof -
  obtain L' where L: "L = L' @ [last L]" using assms(3) by (metis append_butlast_last_id)
  have "sorted_wrt lt L" using assms(2) by (simp add: sorted_wrt_append)
  with L have "\<forall>z \<in> set L'. lt z (last L)" by (metis sorted_wrt_append list.set_intros(1))
  with L assms(5) have "y = last L \<or> lt y (last L)" by (metis Un_iff empty_iff empty_set list.simps(15) insert_iff set_append)
  with assms show ?thesis using swo_trans by metis
qed

lemma sorted_wrt_after_head:
  assumes "strict_weak_order lt" "sorted_wrt lt (L @ r # R)" "lt x r" "y \<in> set (r # R)"
  shows "lt x y"
proof -
  have "sorted_wrt lt (r # R)" using assms(2) by (simp add: sorted_wrt_append)
  then have "\<forall>z \<in> set R. lt r z" by simp
  with assms show ?thesis using swo_trans by (metis set_ConsD)
qed

section \<open>Binary search\<close>

lemma find_loop_spec:
  assumes "strict_weak_order lt" "sorted_wrt lt s" "i \<le> j" "j \<le> length s"
    "\<forall>k < i. \<not> lt item (s ! k)" "\<forall>k. j \<le> k \<and> k < length s \<longrightarrow> lt item (s ! k)"
  shows "i \<le> find_loop lt item s i j \<and> find_loop lt item s i j \<le> j \<and>
         (\<forall>k < find_loop lt item s i j. \<not> lt item (s ! k)) \<and>
         (\<forall>k. find_loop lt item s i j \<le> k \<and> k < length s \<longrightarrow> lt item (s ! k))"
  using assms
proof (induction lt item s i j rule: find_loop.induct)
  case (1 lt item s i j)
  show ?case
  proof (cases "i < j")
    case False
    then have "find_loop lt item s i j = i" by (subst find_loop.simps) simp
    with "1.prems" False show ?thesis by auto
  next
    case True
    define h where "h = i + (j - i) div 2"
    have h: "i \<le> h" "h < j" using True by (auto simp: h_def)
    note tr = swo_trans [OF "1.prems"(1)]
    have srt: "\<And>a b. a < b \<Longrightarrow> b < length s \<Longrightarrow> lt (s ! a) (s ! b)"
      using "1.prems"(2) by (simp add: sorted_wrt_iff_nth_less)
    show ?thesis
    proof (cases "lt item (s ! h)")
      case False
      have "\<forall>k < h + 1. \<not> lt item (s ! k)"
      proof (intro allI impI)
        fix k assume "k < h + 1"
        show "\<not> lt item (s ! k)"
        proof (cases "k = h")
          case True then show ?thesis using False by simp
        next
          case F: False
          with \<open>k < h + 1\<close> have "k < h" by simp
          then have "lt (s ! k) (s ! h)" using srt h "1.prems"(4) by simp
          then show ?thesis using False tr by blast
        qed
      qed
      moreover have "h + 1 \<le> j" using h by simp
      ultimately have "h + 1 \<le> find_loop lt item s (h + 1) j \<and> find_loop lt item s (h + 1) j \<le> j \<and>
         (\<forall>k < find_loop lt item s (h + 1) j. \<not> lt item (s ! k)) \<and>
         (\<forall>k. find_loop lt item s (h + 1) j \<le> k \<and> k < length s \<longrightarrow> lt item (s ! k))"
        by (intro "1.IH"(1) [OF True h_def False] "1.prems"(1,2,4,6))
      moreover have "find_loop lt item s i j = find_loop lt item s (h + 1) j"
        using True False by (subst find_loop.simps) (simp add: h_def [symmetric] Let_def)
      ultimately show ?thesis using h by auto
    next
      case T: True
      have "\<forall>k. h \<le> k \<and> k < length s \<longrightarrow> lt item (s ! k)"
      proof (intro allI impI)
        fix k assume k: "h \<le> k \<and> k < length s"
        show "lt item (s ! k)"
        proof (cases "k = h")
          case True then show ?thesis using T by simp
        next
          case False
          with k have "lt (s ! h) (s ! k)" using srt by simp
          then show ?thesis using T tr by blast
        qed
      qed
      moreover have "h \<le> length s" "\<not> \<not> lt item (s ! h)" using h "1.prems"(4) T by simp_all
      ultimately have "i \<le> find_loop lt item s i h \<and> find_loop lt item s i h \<le> h \<and>
         (\<forall>k < find_loop lt item s i h. \<not> lt item (s ! k)) \<and>
         (\<forall>k. find_loop lt item s i h \<le> k \<and> k < length s \<longrightarrow> lt item (s ! k))"
        using h(1) by (intro "1.IH"(2) [OF True h_def] "1.prems"(1,2,5))
      moreover have "find_loop lt item s i j = find_loop lt item s i h"
        using True T by (subst find_loop.simps) (simp add: h_def [symmetric] Let_def)
      ultimately show ?thesis using h by auto
    qed
  qed
qed

text \<open>
  What \<open>find\<close> returns on a sorted item sequence: everything before index \<open>i\<close> is below the
  item; when found, slot \<open>i\<close> is equivalent to it; everything after is above it.
\<close>

lemma find_items_spec:
  assumes "strict_weak_order lt" "sorted_wrt lt s" "find_items lt item s = (i, found)"
  shows "i \<le> length s \<and> (\<forall>y \<in> set (take i s). lt y item) \<and>
         (if found then i < length s \<and> equiv lt item (s ! i) \<and> (\<forall>y \<in> set (drop (Suc i) s). lt item y)
          else (\<forall>y \<in> set (drop i s). lt item y))"
proof -
  define r where "r = find_loop lt item s 0 (length s)"
  have "0 \<le> r \<and> r \<le> length s \<and> (\<forall>k < r. \<not> lt item (s ! k)) \<and>
        (\<forall>k. r \<le> k \<and> k < length s \<longrightarrow> lt item (s ! k))"
    unfolding r_def by (rule find_loop_spec [OF assms(1,2)]) auto
  then have r: "r \<le> length s" "\<forall>k < r. \<not> lt item (s ! k)"
    "\<forall>k. r \<le> k \<and> k < length s \<longrightarrow> lt item (s ! k)"
    by blast+
  have srt: "\<And>a b. a < b \<Longrightarrow> b < length s \<Longrightarrow> lt (s ! a) (s ! b)"
    using assms(2) by (simp add: sorted_wrt_iff_nth_less)
  have above: "\<forall>y \<in> set (drop r s). lt item y"
    using r by (auto simp: in_set_conv_nth)
  show ?thesis
  proof (cases "r > 0 \<and> \<not> lt (s ! (r - 1)) item")
    case True
    with assms(3) have if': "i = r - 1" "found" by (auto simp: find_items_def r_def [symmetric])
    have eq: "equiv lt item (s ! i)" using True r if' by (simp add: equiv_def)
    have "\<forall>y \<in> set (take i s). lt y item"
    proof
      fix y assume "y \<in> set (take i s)"
      then obtain k where "k < i" "y = s ! k" using if' r True by (auto simp: in_set_conv_nth)
      then have "lt y (s ! i)" using srt if' True r by simp
      moreover have "equiv lt (s ! i) item" using eq by (auto simp: equiv_def)
      ultimately show "lt y item" using lt_equiv_trans [OF assms(1)] by blast
    qed
    moreover have "Suc i = r" using True if' by simp
    ultimately show ?thesis using if' True r eq above by auto
  next
    case False
    with assms(3) have if': "i = r" "\<not> found" by (auto simp: find_items_def r_def [symmetric])
    have "\<forall>y \<in> set (take i s). lt y item"
    proof
      fix y assume "y \<in> set (take i s)"
      then obtain k where k: "k < i" "y = s ! k" using if' r by (auto simp: in_set_conv_nth)
      then have r0: "r > 0" "lt (s ! (r - 1)) item" using False if' by auto
      have "k = r - 1 \<or> lt (s ! k) (s ! (r - 1))" using k if' srt [of k "r - 1"] r r0 
        by (cases "k = r - 1") auto
      then show "lt y item" using r0 k swo_trans [OF assms(1)] by blast
    qed
    then show ?thesis using if' r above by auto
  qed
qed


section \<open>In-order traversal and shape\<close>

fun interleave :: "'a list list \<Rightarrow> 'a list \<Rightarrow> 'a list" where
  "interleave (c # cs) (x # xs) = c @ x # interleave cs xs"
| "interleave cs [] = concat cs"
| "interleave [] xs = xs"

definition tail_inter :: "'a list \<Rightarrow> 'a list list \<Rightarrow> 'a list" where
  "tail_inter xs cs = interleave ([] # cs) xs"

fun inorder :: "'a node \<Rightarrow> 'a list" where
  "inorder (Node xs cs) = interleave (map inorder cs) xs"

fun height :: "'a node \<Rightarrow> nat" where
  "height (Node xs cs) = (case cs of [] \<Rightarrow> 0 | c # _ \<Rightarrow> Suc (height c))"

fun btree_at :: "nat \<Rightarrow> nat \<Rightarrow> nat \<Rightarrow> 'a node \<Rightarrow> bool" where
  "btree_at lo hi 0 (Node xs cs) = (cs = [])"
| "btree_at lo hi (Suc h) (Node xs cs) =
     (length cs = length xs + 1 \<and>
      (\<forall>c \<in> set cs. lo \<le> length (items c) \<and> length (items c) \<le> hi \<and> btree_at lo hi h c))"

lemma interleave_Nil [simp]: "interleave [] xs = xs"
  by (cases xs) simp_all

lemma interleave_Cons: "interleave (c # cs) xs = c @ tail_inter xs cs"
  by (cases xs) (simp_all add: tail_inter_def)

lemma tail_inter_Cons [simp]: "tail_inter (x # xs) cs = x # interleave cs xs"
  by (simp add: tail_inter_def)

lemma tail_inter_Nil [simp]: "tail_inter [] cs = concat cs"
  by (simp add: tail_inter_def)

lemma interleave_append:
  "length cs1 = length xs1 \<Longrightarrow> interleave (cs1 @ cs2) (xs1 @ xs2) = interleave cs1 xs1 @ interleave cs2 xs2"
  by (induction cs1 xs1 rule: list_induct2) simp_all

lemma interleave_snoc:
  "length cs1 = length xs1 \<Longrightarrow> interleave (cs1 @ [c]) xs1 = interleave cs1 xs1 @ c"
  using interleave_append [of cs1 xs1 "[c]" "[]"] by simp

lemma tail_inter_append:
  "length cs1 = length xs1 \<Longrightarrow>
   tail_inter (xs1 @ xs2) (cs1 @ cs2) = tail_inter xs1 cs1 @ tail_inter xs2 cs2"
proof (induction cs1 xs1 rule: list_induct2)
  case Nil
  show ?case by simp
next
  case (Cons c cs x xs)
  then show ?case by (simp add: interleave_Cons)
qed

lemma set_interleave: "set (interleave cs xs) = \<Union> (set ` set cs) \<union> set xs"
  by (induction cs xs rule: interleave.induct) auto

lemma set_tail_inter: "set (tail_inter xs cs) = \<Union> (set ` set cs) \<union> set xs"
  by (simp add: tail_inter_def set_interleave)

lemma inorder_leaf [simp]: "inorder (Node xs []) = xs"
  by simp

text \<open>Splitting the traversal of an internal node around child \<open>i\<close>.\<close>

definition Lpart :: "'a node \<Rightarrow> nat \<Rightarrow> 'a list" where
  "Lpart n i = interleave (map inorder (take i (children n))) (take i (items n))"

definition Rpart :: "'a node \<Rightarrow> nat \<Rightarrow> 'a list" where
  "Rpart n i = tail_inter (drop i (items n)) (map inorder (drop (Suc i) (children n)))"

lemma inorder_app:
  "length lc = length lx \<Longrightarrow>
   inorder (Node (lx @ rx) (lc @ c # rc)) =
     interleave (map inorder lc) lx @ inorder c @ tail_inter rx (map inorder rc)"
  by (simp add: interleave_append interleave_Cons)

lemma inorder_around:
  assumes "i < length (children n)" "i \<le> length (items n)"
  shows "inorder n = Lpart n i @ inorder (children n ! i) @ Rpart n i"
proof -
  obtain xs cs where n: "n = Node xs cs" by (cases n)
  have e: "take i cs @ cs ! i # drop (Suc i) cs = cs"
    using id_take_nth_drop [of i cs] assms n by simp
  have "inorder (Node (take i xs @ drop i xs) (take i cs @ cs ! i # drop (Suc i) cs)) =
      interleave (map inorder (take i cs)) (take i xs) @ inorder (cs ! i) @
      tail_inter (drop i xs) (map inorder (drop (Suc i) cs))"
    using assms n by (intro inorder_app) simp
  then show ?thesis unfolding e by (simp add: n Lpart_def Rpart_def)
qed

text \<open>Every element of the left part is followed by a separator; every element of the
  right part is preceded by one.\<close>

lemma interleave_dominated:
  assumes "length cs = length xs" "sorted_wrt lt (interleave cs xs)" "y \<in> set (interleave cs xs)"
  shows "\<exists>z \<in> set xs. y = z \<or> lt y z"
  using assms
proof (induction cs xs rule: list_induct2)
  case Nil
  then show ?case by simp
next
  case (Cons c cs x xs)
  from Cons.prems(1) have s: "\<forall>a \<in> set c. lt a x" "sorted_wrt lt (interleave cs xs)"
    by (auto simp: sorted_wrt_append)
  from Cons.prems(2) have "y \<in> set c \<or> y = x \<or> y \<in> set (interleave cs xs)" by auto
  then show ?case using s Cons.IH by auto
qed

lemma tail_inter_dominated:
  assumes "length cs = length xs" "sorted_wrt lt (tail_inter xs cs)" "y \<in> set (tail_inter xs cs)"
  shows "\<exists>z \<in> set xs. y = z \<or> lt z y"
  using assms
proof (induction cs xs rule: list_induct2)
  case Nil
  then show ?case by simp
next
  case (Cons c cs x xs)
  from Cons.prems(1) have s: "\<forall>a \<in> set c. lt x a" "sorted_wrt lt (tail_inter xs cs)"
    by (auto simp: interleave_Cons sorted_wrt_append)
  from Cons.prems(2) have "y \<in> set c \<or> y = x \<or> y \<in> set (tail_inter xs cs)"
    by (auto simp: interleave_Cons)
  then show ?case using s Cons.IH by auto
qed

lemma Lpart_below:
  assumes "strict_weak_order lt" "sorted_wrt lt (Lpart n i @ rest)"
    "i \<le> length (children n)" "i \<le> length (items n)"
    "\<forall>z \<in> set (take i (items n)). lt z x" "y \<in> set (Lpart n i)"
  shows "lt y x"
proof -
  have "sorted_wrt lt (Lpart n i)" using assms(2) by (simp add: sorted_wrt_append)
  then obtain z where "z \<in> set (take i (items n))" "y = z \<or> lt y z"
    using interleave_dominated [of "map inorder (take i (children n))" "take i (items n)" lt y] assms
    by (auto simp: Lpart_def)
  then show ?thesis using assms(5) swo_trans [OF assms(1)] by blast
qed

lemma Rpart_above:
  assumes "strict_weak_order lt" "sorted_wrt lt (rest @ Rpart n i)"
    "length (children n) = length (items n) + 1"
    "\<forall>z \<in> set (drop i (items n)). lt x z" "y \<in> set (Rpart n i)"
  shows "lt x y"
proof -
  have "sorted_wrt lt (Rpart n i)" using assms(2) by (simp add: sorted_wrt_append)
  then obtain z where "z \<in> set (drop i (items n))" "y = z \<or> lt z y"
    using tail_inter_dominated [of "map inorder (drop (Suc i) (children n))" "drop i (items n)" lt y]
      assms
    by (auto simp: Rpart_def)
  then show ?thesis using assms(4) swo_trans [OF assms(1)] by blast
qed

lemma btree_at_children:
  "btree_at lo hi h n \<Longrightarrow> children n \<noteq> [] \<Longrightarrow>
   \<exists>h'. h = Suc h' \<and> length (children n) = length (items n) + 1 \<and>
     (\<forall>c \<in> set (children n). lo \<le> length (items c) \<and> length (items c) \<le> hi \<and> btree_at lo hi h' c)"
  by (cases n; cases h) auto

lemma btree_at_leaf: "btree_at lo hi h n \<Longrightarrow> children n = [] \<Longrightarrow> h = 0"
  by (cases n; cases h) auto

lemma btree_at_0: "btree_at lo hi 0 n \<longleftrightarrow> children n = []"
  by (cases n) auto

lemma btree_at_Suc:
  "btree_at lo hi (Suc h) n \<longleftrightarrow>
     length (children n) = length (items n) + 1 \<and>
     (\<forall>c \<in> set (children n). lo \<le> length (items c) \<and> length (items c) \<le> hi \<and> btree_at lo hi h c)"
  by (cases n) auto

lemma btree_at_height: "btree_at lo hi h n \<Longrightarrow> height n = h"
proof (induction h arbitrary: n)
  case 0
  then show ?case by (cases n) auto
next
  case (Suc h)
  then show ?case by (cases n; cases "children n") auto
qed

lemma sorted_child:
  assumes "sorted_wrt lt (inorder n)" "i < length (children n)" "i \<le> length (items n)"
  shows "sorted_wrt lt (inorder (children n ! i))"
  using assms inorder_around [OF assms(2,3)] by (simp add: sorted_wrt_append)


lemma mutableFor_id [simp]: "mutableFor n = n"
  by (simp add: mutableFor_def)

lemma mutableChild_eq:
  "i < length (children n) \<Longrightarrow> mutableChild i n = Some (children n ! i, n)"
  by (simp add: mutableChild_def nth_opt_def)

lemma zipper_node:
  assumes "i < length (children n)" "i \<le> length (items n)"
  shows "n = Node (take i (items n) @ drop i (items n))
                  (take i (children n) @ children n ! i # drop (Suc i) (children n))"
  using assms id_take_nth_drop [of i "children n"] by (cases n) simp

lemma sorted_wrt_interleave_items:
  "sorted_wrt lt (interleave cs xs) \<Longrightarrow> sorted_wrt lt xs"
proof (induction cs xs rule: interleave.induct)
  case (1 c cs x xs)
  then show ?case by (auto simp: sorted_wrt_append set_interleave)
qed simp_all

lemma sorted_items: "sorted_wrt lt (inorder n) \<Longrightarrow> sorted_wrt lt (items n)"
  by (cases n) (auto dest: sorted_wrt_interleave_items)

lemma set_items_inorder: "set (items n) \<subseteq> set (inorder n)"
  by (cases n) (auto simp: set_interleave)

lemma left_below:
  assumes "strict_weak_order lt" "length lc = length lx" "sorted_wrt lt (interleave lc lx @ rest)"
    "\<forall>z \<in> set lx. lt z x"
  shows "\<forall>y \<in> set (interleave lc lx). lt y x"
proof
  fix y assume y: "y \<in> set (interleave lc lx)"
  have "sorted_wrt lt (interleave lc lx)" using assms(3) by (simp add: sorted_wrt_append)
  then obtain z where "z \<in> set lx" "y = z \<or> lt y z"
    using interleave_dominated [OF assms(2) _ y] by blast
  then show "lt y x" using assms(4) swo_trans [OF assms(1)] by blast
qed

lemma right_above:
  assumes "strict_weak_order lt" "length rc = length rx" "sorted_wrt lt (rest @ tail_inter rx rc)"
    "\<forall>z \<in> set rx. lt x z"
  shows "\<forall>y \<in> set (tail_inter rx rc). lt x y"
proof
  fix y assume y: "y \<in> set (tail_inter rx rc)"
  have "sorted_wrt lt (tail_inter rx rc)" using assms(3) by (simp add: sorted_wrt_append)
  then obtain z where "z \<in> set rx" "y = z \<or> lt z y"
    using tail_inter_dominated [OF assms(2) _ y] by blast
  then show "lt x y" using assms(4) swo_trans [OF assms(1)] by blast
qed

lemma inorder_two:
  "length lc = length lx \<Longrightarrow>
   inorder (Node (lx @ s # rx) (lc @ a # b # rc)) =
     interleave (map inorder lc) lx @ inorder a @ s # inorder b @ tail_inter rx (map inorder rc)"
  by (simp add: interleave_append interleave_Cons)

section \<open>Split\<close>

lemma split_ok:
  assumes "k < length (items c)"
    "children c = [] \<or> length (children c) = length (items c) + 1"
  shows "split k c = Some (items c ! k,
           Node (take k (items c)) (take (Suc k) (children c)),
           Node (drop (Suc k) (items c)) (drop (Suc k) (children c)))"
  using assms by (auto simp: split_def nth_opt_def truncate_slice_def Let_def)

lemma inorder_split:
  assumes "k < length (items c)"
    "children c = [] \<or> length (children c) = length (items c) + 1"
  shows "inorder c = inorder (Node (take k (items c)) (take (Suc k) (children c))) @
           items c ! k # inorder (Node (drop (Suc k) (items c)) (drop (Suc k) (children c)))"
proof (cases "children c = []")
  case True
  then show ?thesis using assms id_take_nth_drop [of k "items c"] by (cases c) simp
next
  case False
  with assms have len: "length (children c) = length (items c) + 1" by simp
  obtain xs cs where c: "c = Node xs cs" by (cases c)
  have k: "k < length cs" "k \<le> length xs" "k < length xs" using assms len c by simp_all
  have e1: "take (Suc k) cs = take k cs @ [cs ! k]" using k by (simp add: take_Suc_conv_app_nth)
  have e2: "drop k xs = xs ! k # drop (Suc k) xs" using k by (simp add: Cons_nth_drop_Suc)
  have "inorder (Node (take k xs @ drop k xs) (take k cs @ cs ! k # drop (Suc k) cs)) =
      interleave (map inorder (take k cs)) (take k xs) @ inorder (cs ! k) @
      tail_inter (drop k xs) (map inorder (drop (Suc k) cs))"
    using k by (intro inorder_app) simp
  moreover have "take k cs @ cs ! k # drop (Suc k) cs = cs"
    using id_take_nth_drop [of k cs] k by simp
  ultimately have "inorder (Node xs cs) =
      interleave (map inorder (take k cs)) (take k xs) @ inorder (cs ! k) @
      tail_inter (drop k xs) (map inorder (drop (Suc k) cs))" by simp
  then show ?thesis using k by (simp add: c e1 e2 interleave_snoc)
qed

lemma btree_at_split:
  assumes "btree_at lo hi h c" "length (items c) = 2 * lo + 1"
  shows "btree_at lo hi h (Node (take lo (items c)) (take (Suc lo) (children c)))"
    and "btree_at lo hi h (Node (drop (Suc lo) (items c)) (drop (Suc lo) (children c)))"
  using assms
  by (cases h; cases c; auto dest: in_set_takeD in_set_dropD)+

text \<open>\<open>maybeSplitChild\<close> on a node written around child \<open>c\<close>.\<close>

lemma maybeSplitChild_no:
  assumes "length lx = length lc" "length (items c) < m"
  shows "maybeSplitChild (length lc) m (Node (lx @ rx) (lc @ c # rc)) =
           Some (False, Node (lx @ rx) (lc @ c # rc))"
  using assms by (simp add: maybeSplitChild_def nth_opt_def)

lemma maybeSplitChild_yes:
  assumes "length lx = length lc" "\<not> length (items c) < m" "m div 2 < length (items c)"
    "children c = [] \<or> length (children c) = length (items c) + 1"
  shows "maybeSplitChild (length lc) m (Node (lx @ rx) (lc @ c # rc)) =
           Some (True, Node (lx @ items c ! (m div 2) # rx)
                   (lc @ Node (take (m div 2) (items c)) (take (Suc (m div 2)) (children c))
                       # Node (drop (Suc (m div 2)) (items c)) (drop (Suc (m div 2)) (children c))
                       # rc))"
  using assms split_ok [OF assms(3,4)]
  by (simp add: maybeSplitChild_def nth_opt_def mutableChild_def insertAt_def)


lemma ups_found:
  assumes "strict_weak_order lt" "sorted_wrt lt (A @ s # B)" "equiv lt x s"
  shows "ups lt x (A @ s # B) = A @ x # B"
    and "lookup lt nilPair x (A @ s # B) = s"
    and "del lt x (A @ s # B) = A @ B"
proof -
  have e: "equiv lt s x" using assms(3) by (auto simp: equiv_def)
  have a: "\<forall>y \<in> set A. lt y x"
    using assms(2) lt_equiv_trans [OF assms(1) _ e] by (auto simp: sorted_wrt_append)
  have b: "\<forall>y \<in> set B. lt x y"
    using assms(2) equiv_lt_trans [OF assms(1) assms(3)] by (auto simp: sorted_wrt_append)
  have na: "\<forall>y \<in> set A. \<not> lt x y" using a swo_asym [OF assms(1)] by blast
  have nb: "\<forall>y \<in> set B. \<not> lt y x" using b swo_asym [OF assms(1)] by blast
  show "ups lt x (A @ s # B) = A @ x # B"
    using a b na nb assms(3) by (simp add: ups_def filter_all filter_none equiv_def)
  have "List.find (\<lambda>y. \<not> lt x y \<and> \<not> lt y x) A = None" using a by (auto intro!: find_none)
  then show "lookup lt nilPair x (A @ s # B) = s"
    using assms(3) by (simp add: lookup_def find_append equiv_def)
  show "del lt x (A @ s # B) = A @ B"
    using a b assms(3) by (simp add: del_def filter_all equiv_def)
qed

lemma ups_absent:
  assumes "strict_weak_order lt" "\<forall>y \<in> set A. lt y x" "\<forall>y \<in> set B. lt x y"
  shows "ups lt x (A @ B) = A @ x # B"
    and "lookup lt nilPair x (A @ B) = nilPair"
    and "del lt x (A @ B) = A @ B"
proof -
  show "ups lt x (A @ B) = A @ x # B"
    using ups_sandwich [OF assms, of "[]"] by (simp add: ups_def)
  show "lookup lt nilPair x (A @ B) = nilPair"
    using lookup_sandwich [OF assms(2,3), of nilPair "[]"] by (simp add: lookup_def)
  show "del lt x (A @ B) = A @ B"
    using assms by (simp add: del_def filter_all)
qed

lemma inorder_item_update:
  assumes "i < length xs" "cs = [] \<or> length cs = length xs + 1"
  shows "\<exists>A B. \<forall>v. inorder (Node (xs[i := v]) cs) = A @ v # B"
proof (cases "cs = []")
  case True
  have "\<forall>v. inorder (Node (xs[i := v]) cs) = take i xs @ v # drop (Suc i) xs"
    using True assms by (simp add: upd_conv_take_nth_drop)
  then show ?thesis by blast
next
  case False
  with assms have len: "length cs = length xs + 1" by simp
  have e: "take i cs @ cs ! i # drop (Suc i) cs = cs"
    using id_take_nth_drop [of i cs] assms len by simp
  have "\<forall>v. inorder (Node (xs[i := v]) cs) =
      (interleave (map inorder (take i cs)) (take i xs) @ inorder (cs ! i)) @ v #
      interleave (map inorder (drop (Suc i) cs)) (drop (Suc i) xs)"
  proof
    fix v
    have "inorder (Node (take i xs @ v # drop (Suc i) xs)
                        (take i cs @ cs ! i # drop (Suc i) cs)) =
      interleave (map inorder (take i cs)) (take i xs) @ inorder (cs ! i) @
      tail_inter (v # drop (Suc i) xs) (map inorder (drop (Suc i) cs))"
      using assms len by (intro inorder_app) simp
    then show "inorder (Node (xs[i := v]) cs) =
      (interleave (map inorder (take i cs)) (take i xs) @ inorder (cs ! i)) @ v #
      interleave (map inorder (drop (Suc i) cs)) (drop (Suc i) xs)"
      unfolding e using assms by (simp add: upd_conv_take_nth_drop)
  qed
  then show ?thesis by blast
qed

section \<open>Insertion into a node\<close>

lemma insert_node_found:
  assumes "find_items lt x (items n) = (i, True)"
  shows "insert_node lt nilPair x m n = Some (items n ! i, Node ((items n)[i := x]) (children n))"
  using assms by (subst insert_node.simps) simp

lemma insert_node_leaf:
  assumes "find_items lt x (items n) = (i, False)" "children n = []" "i \<le> length (items n)"
  shows "insert_node lt nilPair x m n =
           Some (nilPair, Node (take i (items n) @ x # drop i (items n)) [])"
  using assms by (subst insert_node.simps) (simp add: insertAt_def)

lemma insert_node_descend:
  assumes "find_items lt x (items n) = (i, False)" "children n \<noteq> []"
    "maybeSplitChild i m n = Some (False, n1)" "i < length (children n1)"
  shows "insert_node lt nilPair x m n =
           do { (out, c') \<leftarrow> insert_node lt nilPair x m (children n1 ! i);
                Some (out, Node (items n1) ((children n1)[i := c'])) }"
  using assms by (subst insert_node.simps) (simp add: mutableChild_eq)

lemma insert_node_split:
  assumes "find_items lt x (items n) = (i, False)" "children n \<noteq> []"
    "maybeSplitChild i m n = Some (True, n1)" "i < length (items n1)"
    "Suc i < length (children n1)"
  shows "insert_node lt nilPair x m n =
           (if lt x (items n1 ! i) then
              do { (out, c') \<leftarrow> insert_node lt nilPair x m (children n1 ! i);
                   Some (out, Node (items n1) ((children n1)[i := c'])) }
            else if lt (items n1 ! i) x then
              do { (out, c') \<leftarrow> insert_node lt nilPair x m (children n1 ! Suc i);
                   Some (out, Node (items n1) ((children n1)[Suc i := c'])) }
            else Some (items n1 ! i, Node ((items n1)[i := x]) (children n1)))"
  using assms by (subst insert_node.simps) (simp add: mutableChild_eq nth_opt_def)


lemma btree_at_leaf_iff: "children n = [] \<Longrightarrow> btree_at lo hi h n \<longleftrightarrow> h = 0"
  by (cases n; cases h) auto

lemma list_update_append_Suc [simp]:
  "(lc @ a # b # rc)[Suc (length lc) := v] = lc @ a # v # rc"
  by (induction lc) simp_all

lemma nth_append_Suc [simp]: "(lc @ a # b # rc) ! Suc (length lc) = b"
  by (induction lc) simp_all

lemma insert_node_correct:
  assumes swo: "strict_weak_order lt" and hi: "hi = 2 * lo + 1"
  shows "btree_at lo hi h n \<Longrightarrow> sorted_wrt lt (inorder n) \<Longrightarrow> length (items n) < hi \<Longrightarrow>
         \<exists>n'. insert_node lt nilPair x hi n = Some (lookup lt nilPair x (inorder n), n') \<and>
              btree_at lo hi h n' \<and> inorder n' = ups lt x (inorder n) \<and>
              length (items n) \<le> length (items n') \<and> length (items n') \<le> hi"
proof (induction h arbitrary: n)
  case 0
  then have leaf: "children n = []" by (simp add: btree_at_0)
  obtain i found where f: "find_items lt x (items n) = (i, found)" by (cases "find_items lt x (items n)")
  have srt: "sorted_wrt lt (items n)" using "0.prems"(2) by (rule sorted_items)
  note fs = find_items_spec [OF swo srt f]
  have io: "inorder n = items n" using leaf by (cases n) simp
  show ?case
  proof (cases found)
    case True
    with fs have i: "i < length (items n)" and eq: "equiv lt x (items n ! i)" by auto
    have dec: "items n = take i (items n) @ items n ! i # drop (Suc i) (items n)"
      using i by (simp add: id_take_nth_drop [symmetric])
    have s': "sorted_wrt lt (take i (items n) @ items n ! i # drop (Suc i) (items n))"
      using srt dec by simp
    have "insert_node lt nilPair x hi n = Some (items n ! i, Node ((items n)[i := x]) [])"
      using insert_node_found [of lt x n i] f True leaf by simp
    moreover have "inorder (Node ((items n)[i := x]) []) = ups lt x (inorder n)"
      using ups_found(1) [OF swo s' eq] dec i by (simp add: io upd_conv_take_nth_drop)
    moreover have "lookup lt nilPair x (inorder n) = items n ! i"
      using ups_found(2) [OF swo s' eq] dec by (simp add: io)
    moreover have "length (items (Node ((items n)[i := x]) [])) = length (items n)" by simp
    ultimately show ?thesis using "0.prems"(3) by simp
  next
    case False
    with fs have i: "i \<le> length (items n)" and lo: "\<forall>y \<in> set (take i (items n)). lt y x"
      and up: "\<forall>y \<in> set (drop i (items n)). lt x y" by auto
    have "insert_node lt nilPair x hi n =
        Some (nilPair, Node (take i (items n) @ x # drop i (items n)) [])"
      using insert_node_leaf [of lt x n i] f False leaf i by simp
    moreover have "ups lt x (inorder n) = take i (items n) @ x # drop i (items n)"
      using ups_absent(1) [OF swo lo up] by (simp add: io)
    moreover have "lookup lt nilPair x (inorder n) = nilPair"
      using ups_absent(2) [OF swo lo up] by (simp add: io)
    ultimately show ?thesis using "0.prems"(3) i by simp
  qed
next
  case (Suc h)
  obtain i found where f: "find_items lt x (items n) = (i, found)" by (cases "find_items lt x (items n)")
  have srt: "sorted_wrt lt (items n)" using Suc.prems(2) by (rule sorted_items)
  note fs = find_items_spec [OF swo srt f]
  from Suc.prems(1) have len: "length (children n) = length (items n) + 1"
    and kids: "\<forall>c \<in> set (children n). lo \<le> length (items c) \<and> length (items c) \<le> hi \<and> btree_at lo hi h c"
    by (simp_all add: btree_at_Suc)
  have nonleaf: "children n \<noteq> []" using len by auto
  show ?case
  proof (cases found)
    case True
    with fs have i: "i < length (items n)" and eq: "equiv lt x (items n ! i)" by auto
    obtain A B where AB: "\<forall>v. inorder (Node ((items n)[i := v]) (children n)) = A @ v # B"
      using inorder_item_update [OF i, of "children n"] len by auto
    have io: "inorder n = A @ items n ! i # B" using AB [rule_format, of "items n ! i"] by simp
    have s': "sorted_wrt lt (A @ items n ! i # B)" using Suc.prems(2) io by simp
    have "insert_node lt nilPair x hi n = Some (items n ! i, Node ((items n)[i := x]) (children n))"
      using insert_node_found [of lt x n i] f True by simp
    moreover have "inorder (Node ((items n)[i := x]) (children n)) = ups lt x (inorder n)"
      using ups_found(1) [OF swo s' eq] AB io by simp
    moreover have "lookup lt nilPair x (inorder n) = items n ! i"
      using ups_found(2) [OF swo s' eq] io by simp
    moreover have "btree_at lo hi (Suc h) (Node ((items n)[i := x]) (children n))"
      using len kids by simp
    ultimately show ?thesis using Suc.prems(3) by simp
  next
    case False
    with fs have i: "i \<le> length (items n)" and lo: "\<forall>y \<in> set (take i (items n)). lt y x"
      and up: "\<forall>y \<in> set (drop i (items n)). lt x y" by auto
    have ic: "i < length (children n)" using i len by simp
    define lx rx lc rc c where "lx = take i (items n)" and "rx = drop i (items n)"
      and "lc = take i (children n)" and "rc = drop (Suc i) (children n)"
      and "c = children n ! i"
    have n: "n = Node (lx @ rx) (lc @ c # rc)"
      using zipper_node [OF ic i] by (simp add: lx_def rx_def lc_def rc_def c_def)
    have ll: "length lx = length lc" "i = length lc" "length rc = length rx"
      using i ic len by (simp_all add: lx_def lc_def rc_def rx_def)
    define L R where "L = interleave (map inorder lc) lx" and "R = tail_inter rx (map inorder rc)"
    have io: "inorder n = L @ inorder c @ R"
      using inorder_app [of lc lx rx c rc] ll n by (simp add: L_def R_def)
    have sL: "sorted_wrt lt (L @ (inorder c @ R))" and sR: "sorted_wrt lt ((L @ inorder c) @ R)"
      using Suc.prems(2) io by simp_all
    have Lb: "\<forall>y \<in> set L. lt y x"
      unfolding L_def using left_below [OF swo _ sL [unfolded L_def]] lo ll by (simp add: lx_def)
    have Rb: "\<forall>y \<in> set R. lt x y"
      unfolding R_def using right_above [OF swo _ sR [unfolded R_def]] up ll by (simp add: rx_def)
    have cin: "c \<in> set (children n)" using ic by (simp add: c_def)
    with kids have ck: "lo \<le> length (items c)" "length (items c) \<le> hi" "btree_at lo hi h c"
      by auto
    have sc: "sorted_wrt lt (inorder c)" using sL by (simp add: sorted_wrt_append)
    have kids': "\<forall>d \<in> set lc \<union> set rc. lo \<le> length (items d) \<and> length (items d) \<le> hi \<and> btree_at lo hi h d"
      using kids by (auto simp: lc_def rc_def dest: in_set_takeD in_set_dropD)
    have fz: "find_items lt x (items n) = (length lc, False)" using f False ll by simp
    show ?thesis
    proof (cases "length (items c) < hi")
      case True
      have ms: "maybeSplitChild (length lc) hi n = Some (False, n)"
        using maybeSplitChild_no [OF ll(1) True, of rx rc] n by simp
      obtain c' where c': "insert_node lt nilPair x hi c = Some (lookup lt nilPair x (inorder c), c')"
        "btree_at lo hi h c'" "inorder c' = ups lt x (inorder c)"
        "length (items c) \<le> length (items c')" "length (items c') \<le> hi"
        using Suc.IH [OF ck(3) sc True] by blast
      have "insert_node lt nilPair x hi n =
          Some (lookup lt nilPair x (inorder c), Node (lx @ rx) (lc @ c' # rc))"
        using insert_node_descend [OF fz nonleaf ms] c'(1) ic ll n
        by (simp add: c_def [symmetric])
      moreover have "lookup lt nilPair x (inorder n) = lookup lt nilPair x (inorder c)"
        using lookup_sandwich [OF Lb Rb] io by simp
      moreover have "inorder (Node (lx @ rx) (lc @ c' # rc)) = ups lt x (inorder n)"
        using inorder_app [of lc lx rx c' rc] ll c'(3) ups_sandwich [OF swo Lb Rb] io
        by (simp add: L_def R_def)
      moreover have "btree_at lo hi (Suc h) (Node (lx @ rx) (lc @ c' # rc))"
        using kids' c' ck ll len n by auto
      moreover have "length (items n) = length (lx @ rx)" using n by simp
      ultimately show ?thesis using Suc.prems(3) by simp
    next
      case False
      with ck have full: "length (items c) = 2 * lo + 1" using hi by simp
      have d2: "hi div 2 = lo" using hi by simp
      have shape: "children c = [] \<or> length (children c) = length (items c) + 1"
        using ck(3) by (cases h) (auto simp: btree_at_0 btree_at_Suc)
      define sep f s where "sep = items c ! lo"
        and "f = Node (take lo (items c)) (take (Suc lo) (children c))"
        and "s = Node (drop (Suc lo) (items c)) (drop (Suc lo) (children c))"
      define n1 where "n1 = Node (lx @ sep # rx) (lc @ f # s # rc)"
      have ms: "maybeSplitChild (length lc) hi n = Some (True, n1)"
        using maybeSplitChild_yes [OF ll(1) False _ shape, of rx rc] full n d2
        by (simp add: n1_def sep_def f_def s_def)
      have ioc: "inorder c = inorder f @ sep # inorder s"
        using inorder_split [of lo c] shape full by (simp add: f_def s_def sep_def)
      have bf: "btree_at lo hi h f" "btree_at lo hi h s"
        using btree_at_split [OF ck(3) full] by (simp_all add: f_def s_def)
      have lf: "length (items f) = lo" "length (items s) = lo"
        using full by (simp_all add: f_def s_def)
      have ssc: "sorted_wrt lt (inorder f)" "sorted_wrt lt (inorder s)"
        "\<forall>y \<in> set (inorder f). lt y sep" "\<forall>y \<in> set (inorder s). lt sep y"
        using sc ioc by (auto simp: sorted_wrt_append)
      have n1i: "length lc < length (items n1)" "Suc (length lc) < length (children n1)"
        "items n1 ! length lc = sep" "children n1 ! length lc = f" "children n1 ! Suc (length lc) = s"
        using ll by (simp_all add: n1_def nth_append)
      have io1: "\<And>a b. inorder (Node (lx @ sep # rx) (lc @ a # b # rc)) =
          L @ inorder a @ sep # inorder b @ R"
        using inorder_two [of lc lx] ll by (simp add: L_def R_def)
      have bt1: "\<And>a b. btree_at lo hi h a \<Longrightarrow> btree_at lo hi h b \<Longrightarrow>
          lo \<le> length (items a) \<Longrightarrow> length (items a) \<le> hi \<Longrightarrow>
          lo \<le> length (items b) \<Longrightarrow> length (items b) \<le> hi \<Longrightarrow>
          btree_at lo hi (Suc h) (Node (lx @ sep # rx) (lc @ a # b # rc))"
        using kids' ll len n by auto
      have szn: "length (lx @ sep # rx) = Suc (length (items n))" using n by simp
      have lohi: "lo < hi" "lo \<le> hi" using hi by simp_all
      note step = insert_node_split [OF fz nonleaf ms n1i(1,2), unfolded n1i(3,4,5)]
      show ?thesis
      proof (cases "lt x sep")
        case True
        obtain f' where f': "insert_node lt nilPair x hi f = Some (lookup lt nilPair x (inorder f), f')"
          "btree_at lo hi h f'" "inorder f' = ups lt x (inorder f)"
          "length (items f) \<le> length (items f')" "length (items f') \<le> hi"
          using Suc.IH [OF bf(1) ssc(1)] lf lohi by auto
        have Rb': "\<forall>y \<in> set (sep # inorder s @ R). lt x y"
          using True ssc(4) Rb swo_trans [OF swo] by auto
        have "insert_node lt nilPair x hi n =
            Some (lookup lt nilPair x (inorder f), Node (lx @ sep # rx) (lc @ f' # s # rc))"
          using step True f'(1) ll by (simp add: n1_def)
        moreover have "lookup lt nilPair x (inorder n) = lookup lt nilPair x (inorder f)"
          using lookup_sandwich [OF Lb Rb', of nilPair "inorder f"] io ioc by simp
        moreover have "inorder (Node (lx @ sep # rx) (lc @ f' # s # rc)) = ups lt x (inorder n)"
          using io1 [of f' s] f'(3) ups_sandwich [OF swo Lb Rb', of "inorder f"] io ioc by simp
        moreover have "btree_at lo hi (Suc h) (Node (lx @ sep # rx) (lc @ f' # s # rc))"
          using bt1 [OF f'(2) bf(2)] f' lf lohi by simp
        ultimately show ?thesis using Suc.prems(3) szn by simp
      next
        case nlt: False
        show ?thesis
        proof (cases "lt sep x")
          case True
          obtain s' where s': "insert_node lt nilPair x hi s = Some (lookup lt nilPair x (inorder s), s')"
            "btree_at lo hi h s'" "inorder s' = ups lt x (inorder s)"
            "length (items s) \<le> length (items s')" "length (items s') \<le> hi"
            using Suc.IH [OF bf(2) ssc(2)] lf lohi by auto
          have Lb': "\<forall>y \<in> set (L @ inorder f @ [sep]). lt y x"
            using True ssc(3) Lb swo_trans [OF swo] by auto
          have "insert_node lt nilPair x hi n =
              Some (lookup lt nilPair x (inorder s), Node (lx @ sep # rx) (lc @ f # s' # rc))"
            using step True nlt s'(1) ll by (simp add: n1_def)
          moreover have "lookup lt nilPair x (inorder n) = lookup lt nilPair x (inorder s)"
            using lookup_sandwich [OF Lb' Rb, of nilPair "inorder s"] io ioc by simp
          moreover have "inorder (Node (lx @ sep # rx) (lc @ f # s' # rc)) = ups lt x (inorder n)"
            using io1 [of f s'] s'(3) ups_sandwich [OF swo Lb' Rb, of "inorder s"] io ioc by simp
          moreover have "btree_at lo hi (Suc h) (Node (lx @ sep # rx) (lc @ f # s' # rc))"
            using bt1 [OF bf(1) s'(2)] s' lf lohi by simp
          ultimately show ?thesis using Suc.prems(3) szn by simp
        next
          case False
          with nlt have eq: "equiv lt x sep" by (simp add: equiv_def)
          have io': "inorder n = (L @ inorder f) @ sep # (inorder s @ R)" using io ioc by simp
          have s2: "sorted_wrt lt ((L @ inorder f) @ sep # (inorder s @ R))"
            using Suc.prems(2) io' by simp
          have "insert_node lt nilPair x hi n =
              Some (sep, Node (lx @ x # rx) (lc @ f # s # rc))"
            using step False nlt ll(1) [symmetric] by (simp add: n1_def)
          moreover have "lookup lt nilPair x (inorder n) = sep"
            using ups_found(2) [OF swo s2 eq] io' by simp
          moreover have "inorder (Node (lx @ x # rx) (lc @ f # s # rc)) = ups lt x (inorder n)"
            using inorder_two [of lc lx x rx f s rc] ll ups_found(1) [OF swo s2 eq] io'
            by (simp add: L_def R_def)
          moreover have "btree_at lo hi (Suc h) (Node (lx @ x # rx) (lc @ f # s # rc))"
            using bt1 [OF bf] lf lohi by simp
          ultimately show ?thesis using Suc.prems(3) szn by simp
        qed
      qed
    qed
  qed
qed


section \<open>The tree invariant\<close>

definition contents :: "'a PairTree \<Rightarrow> 'a list" where
  "contents t = (case root t of None \<Rightarrow> [] | Some r \<Rightarrow> inorder r)"

definition tree_inv :: "('a \<Rightarrow> 'a \<Rightarrow> bool) \<Rightarrow> 'a \<Rightarrow> 'a PairTree \<Rightarrow> bool" where
  "tree_inv lt nilPair t \<longleftrightarrow>
     2 \<le> degree t \<and>
     (case root t of
        None \<Rightarrow> length_t t = 0
      | Some r \<Rightarrow>
          btree_at (minPairs t) (maxPairs t) (height r) r \<and>
          length (items r) \<le> maxPairs t \<and>
          (children r \<noteq> [] \<longrightarrow> items r \<noteq> []) \<and>
          sorted_wrt lt (inorder r) \<and>
          nilPair \<notin> set (inorder r) \<and>
          length_t t = int (length (inorder r)))"

lemma set_ups: "set (ups lt x xs) \<subseteq> insert x (set xs)"
  by (auto simp: ups_def)

lemma set_del: "set (del lt x xs) \<subseteq> set xs"
  by (auto simp: del_def)

lemma lookup_nil_iff:
  assumes "nilPair \<notin> set xs"
  shows "lookup lt nilPair x xs = nilPair \<longleftrightarrow> \<not> (\<exists>y \<in> set xs. equiv lt x y)"
proof (cases "List.find (\<lambda>y. \<not> lt x y \<and> \<not> lt y x) xs")
  case None
  then have "lookup lt nilPair x xs = nilPair" by (simp add: lookup_def)
  moreover from None have "\<not> (\<exists>y \<in> set xs. equiv lt x y)"
    unfolding find_None_iff equiv_def by blast
  ultimately show ?thesis by simp
next
  case (Some y)
  then have l: "lookup lt nilPair x xs = y" by (simp add: lookup_def)
  from Some obtain i where "i < length xs" "\<not> lt x (xs ! i) \<and> \<not> lt (xs ! i) x" "y = xs ! i"
    unfolding find_Some_iff by blast
  then have "y \<in> set xs" "equiv lt x y" by (auto simp: equiv_def)
  then show ?thesis using l assms by auto
qed

lemma lookup_in_set:
  "lookup lt nilPair x xs \<noteq> nilPair \<Longrightarrow>
   lookup lt nilPair x xs \<in> set xs \<and> equiv lt x (lookup lt nilPair x xs)"
proof (cases "List.find (\<lambda>y. \<not> lt x y \<and> \<not> lt y x) xs")
  case None
  then have "lookup lt nilPair x xs = nilPair" by (simp add: lookup_def)
  moreover assume "lookup lt nilPair x xs \<noteq> nilPair"
  ultimately show ?thesis by simp
next
  case (Some y)
  then have l: "lookup lt nilPair x xs = y" by (simp add: lookup_def)
  from Some obtain i where "i < length xs" "\<not> lt x (xs ! i) \<and> \<not> lt (xs ! i) x" "y = xs ! i"
    unfolding find_Some_iff by blast
  then have "y \<in> set xs" "equiv lt x y" by (auto simp: equiv_def)
  then show ?thesis using l by simp
qed

lemma sorted_split_equiv:
  assumes "strict_weak_order lt" "sorted_wrt lt xs" "y \<in> set xs" "equiv lt x y"
  shows "\<exists>A B. xs = A @ y # B"
  using assms(3) by (meson split_list)

lemma length_ups:
  assumes "strict_weak_order lt" "sorted_wrt lt xs"
  shows "length (ups lt x xs) = (if \<exists>y \<in> set xs. equiv lt x y then length xs else length xs + 1)"
proof (cases "\<exists>y \<in> set xs. equiv lt x y")
  case True
  then obtain y A B where "xs = A @ y # B" "equiv lt x y" by (meson split_list)
  then show ?thesis using ups_found(1) [OF assms(1), of A y B x] assms(2) True by simp
next
  case False
  then have "\<forall>y \<in> set xs. lt y x \<or> lt x y" by (auto simp: equiv_def)
  moreover have "\<forall>y \<in> set xs. \<not> (lt y x \<and> lt x y)" using swo_asym [OF assms(1)] by blast
  ultimately have "length (filter (\<lambda>y. lt y x) xs) + length (filter (\<lambda>y. lt x y) xs) = length xs"
    by (induction xs) auto
  then show ?thesis using False by (simp add: ups_def)
qed

lemma length_del:
  assumes "strict_weak_order lt" "sorted_wrt lt xs"
  shows "int (length (del lt x xs)) =
           (if \<exists>y \<in> set xs. equiv lt x y then int (length xs) - 1 else int (length xs))"
proof (cases "\<exists>y \<in> set xs. equiv lt x y")
  case True
  then obtain y A B where "xs = A @ y # B" "equiv lt x y" by (meson split_list)
  then show ?thesis using ups_found(3) [OF assms(1), of A y B x] assms(2) True by simp
next
  case False
  then have "\<forall>y \<in> set xs. lt y x \<or> lt x y" by (auto simp: equiv_def)
  then show ?thesis using False by (simp add: del_def filter_all)
qed

lemma ups_in_place:
  assumes "strict_weak_order lt" "sorted_wrt lt xs" "\<exists>y \<in> set xs. equiv lt x y"
  shows "ups lt x xs = map (\<lambda>z. if equiv lt x z then x else z) xs"
proof -
  from assms(3) obtain y A B where xs: "xs = A @ y # B" and e: "equiv lt x y" by (meson split_list)
  have s: "sorted_wrt lt (A @ y # B)" using assms(2) xs by simp
  have e': "equiv lt y x" using e by (auto simp: equiv_def)
  have "\<forall>z \<in> set A. lt z x"
    using s lt_equiv_trans [OF assms(1) _ e'] by (auto simp: sorted_wrt_append)
  moreover have "\<forall>z \<in> set B. lt x z"
    using s equiv_lt_trans [OF assms(1) e] by (auto simp: sorted_wrt_append)
  ultimately have "map (\<lambda>z. if equiv lt x z then x else z) A = A"
    "map (\<lambda>z. if equiv lt x z then x else z) B = B"
    by (auto simp: equiv_def map_idI)
  then show ?thesis using ups_found(1) [OF assms(1) s e] xs e by simp
qed

lemma height_btree_at_leaf: "children r = [] \<Longrightarrow> btree_at lo hi (height r) r"
  by (cases r) simp

text \<open>What \<open>ReplaceOrInsert\<close> does to a tree that satisfies the invariant.\<close>

lemma ReplaceOrInsert_correct:
  assumes swo: "strict_weak_order lt" and inv: "tree_inv lt nilPair t" and x: "x \<noteq> nilPair"
  shows "\<exists>t'. ReplaceOrInsert lt nilPair x t = Inr (lookup lt nilPair x (contents t), t') \<and>
              tree_inv lt nilPair t' \<and> contents t' = ups lt x (contents t) \<and>
              degree t' = degree t"
proof (cases "root t")
  case None
  have "btree_at (minPairs t) (maxPairs t) (height (Node [x] [])) (Node [x] [])" by simp
  then show ?thesis
    using None inv x
    by (auto simp add: ReplaceOrInsert_def tree_inv_def contents_def lookup_def ups_def
        maxPairs_def minPairs_def)
next
  case (Some r)
  define lo hi where "lo = minPairs t" and "hi = maxPairs t"
  have hi: "hi = 2 * lo + 1" and lo1: "1 \<le> lo"
    using inv by (auto simp: lo_def hi_def minPairs_def maxPairs_def tree_inv_def)
  from inv Some have r: "btree_at lo hi (height r) r" "length (items r) \<le> hi"
    "children r \<noteq> [] \<longrightarrow> items r \<noteq> []" "sorted_wrt lt (inorder r)" "nilPair \<notin> set (inorder r)"
    "length_t t = int (length (inorder r))" and deg: "2 \<le> degree t"
    by (simp_all add: tree_inv_def lo_def hi_def)
  have ct: "contents t = inorder r" using Some by (simp add: contents_def)
  define r1 where "r1 = (if length (items r) \<ge> hi
      then Node [items r ! (hi div 2)]
             [Node (take (hi div 2) (items r)) (take (Suc (hi div 2)) (children r)),
              Node (drop (Suc (hi div 2)) (items r)) (drop (Suc (hi div 2)) (children r))]
      else r)"
  define h1 where "h1 = (if length (items r) \<ge> hi then Suc (height r) else height r)"
  have shape: "children r = [] \<or> length (children r) = length (items r) + 1"
    using r(1) by (cases "height r") (auto simp: btree_at_0 btree_at_Suc)
  have pre: "(let r0 = mutableFor r in
              if length (items r0) \<ge> maxPairs t then
                do { (item2, oldroot, second) \<leftarrow> split (maxPairs t div 2) r0;
                     Some (Node [item2] [oldroot, second]) }
              else Some r0) = Some r1"
  proof (cases "length (items r) \<ge> hi")
    case True
    then have "hi div 2 < length (items r)" using hi by simp
    from split_ok [OF this shape] True show ?thesis
      by (simp add: r1_def hi_def)
  next
    case False
    then show ?thesis by (simp add: r1_def hi_def)
  qed
  have r1: "btree_at lo hi h1 r1 \<and> sorted_wrt lt (inorder r1) \<and> length (items r1) < hi \<and>
            inorder r1 = inorder r \<and> (children r1 \<noteq> [] \<longrightarrow> items r1 \<noteq> [])"
  proof (cases "length (items r) \<ge> hi")
    case True
    with r(2) hi have full: "length (items r) = 2 * lo + 1" by simp
    have d2: "hi div 2 = lo" using hi by simp
    have "inorder r1 = inorder r"
      using inorder_split [of lo r] shape full True by (simp add: r1_def d2)
    moreover have "btree_at lo hi (Suc (height r)) r1"
      using btree_at_split [OF r(1) full] True full hi by (simp add: r1_def d2)
    ultimately show ?thesis using r True hi lo1 by (simp add: h1_def) (simp add: r1_def)
  next
    case False
    then show ?thesis using r by (simp add: r1_def h1_def)
  qed
  obtain r2 where r2: "insert_node lt nilPair x hi r1 = Some (lookup lt nilPair x (inorder r1), r2)"
    "btree_at lo hi h1 r2" "inorder r2 = ups lt x (inorder r1)"
    "length (items r1) \<le> length (items r2)" "length (items r2) \<le> hi"
    using insert_node_correct [OF swo hi, of h1 r1 nilPair x] r1 by blast
  define t' where "t' = t\<lparr>root := Some r2,
      length_t := (if lookup lt nilPair x (inorder r) = nilPair then length_t t + 1 else length_t t)\<rparr>"
  have run: "ReplaceOrInsert lt nilPair x t = Inr (lookup lt nilPair x (contents t), t')"
    using x Some pre r2(1) r1 by (simp add: ReplaceOrInsert_def hi_def ct t'_def)
  have h2: "height r2 = h1" using r2(2) by (rule btree_at_height)
  have ne: "children r2 \<noteq> [] \<longrightarrow> items r2 \<noteq> []"
  proof
    assume "children r2 \<noteq> []"
    then obtain h' where "h1 = Suc h'" using r2(2) btree_at_children by blast
    then have "children r1 \<noteq> []" using r1 by (auto simp: btree_at_Suc)
    then show "items r2 \<noteq> []" using r1 r2(4) by auto
  qed
  have len: "int (length (ups lt x (inorder r))) =
      (if lookup lt nilPair x (inorder r) = nilPair then length_t t + 1 else length_t t)"
    using length_ups [OF swo r(4), of x] lookup_nil_iff [OF r(5), of lt x] r(6) by simp
  have "tree_inv lt nilPair t'"
    using r2 h2 ne r1 r(5) x deg len sorted_wrt_ups [OF swo r(4), of x] set_ups [of lt x "inorder r"]
    by (auto simp: tree_inv_def t'_def lo_def hi_def minPairs_def maxPairs_def)
  moreover have "contents t' = ups lt x (contents t)"
    using r2(3) r1 by (simp add: ct) (simp add: contents_def t'_def)
  moreover have "degree t' = degree t" by (simp add: t'_def)
  ultimately show ?thesis using run by blast
qed


lemma interleave_snoc1:
  "length cs = Suc (length xs) \<Longrightarrow> interleave cs (xs @ [x]) = interleave cs xs @ [x]"
proof (induction xs arbitrary: cs)
  case Nil
  then obtain c where "cs = [c]" by (cases cs) auto
  then show ?case by simp
next
  case (Cons y ys)
  then obtain c cs' where "cs = c # cs'" "length cs' = Suc (length ys)" by (cases cs) auto
  then show ?case using Cons.IH by simp
qed

lemma interleave_snoc2:
  "length cs = Suc (length xs) \<Longrightarrow> interleave (cs @ [c]) (xs @ [x]) = interleave cs xs @ x # c"
proof (induction xs arbitrary: cs)
  case Nil
  then obtain c0 where "cs = [c0]" by (cases cs) auto
  then show ?case by simp
next
  case (Cons y ys)
  then obtain c0 cs' where "cs = c0 # cs'" "length cs' = Suc (length ys)" by (cases cs) auto
  then show ?case using Cons.IH by simp
qed

lemma nth_append_len [simp]: "length lx = length lc \<Longrightarrow> (lx @ s # rx) ! length lc = s"
  by (simp add: nth_append)

lemma update_append_len [simp]:
  "length lx = length lc \<Longrightarrow> (lx @ s # rx)[length lc := v] = lx @ v # rx"
  by (simp add: list_update_append)

lemma take_append_len [simp]: "length lx = length lc \<Longrightarrow> take (length lc) (lx @ rx) = lx"
  by simp

lemma drop_append_len [simp]: "length lx = length lc \<Longrightarrow> drop (length lc) (lx @ rx) = rx"
  by simp

lemma drop_append_Suc_len [simp]: "drop (Suc (length lc)) (lc @ a # rc) = rc"
  by (induction lc) simp_all

lemma drop_append_Suc_len' [simp]:
  "length lx = length lc \<Longrightarrow> drop (Suc (length lc)) (lx @ a # rc) = rc"
  using drop_append_Suc_len [of lx a rc] by simp

lemma removeAt_0: "s \<noteq> [] \<Longrightarrow> removeAt 0 s = Some (hd s, tl s)"
  by (cases s) (simp_all add: removeAt_def)

lemma pop_ne: "s \<noteq> [] \<Longrightarrow> pop s = Some (last s, butlast s)"
  by (simp add: pop_def)

text \<open>The three restructurings of \<open>growChild\<close> on a node written around two adjacent
  children \<open>a\<close>, \<open>b\<close> and their separator \<open>s\<close>.\<close>

lemma growChild_steal_left:
  assumes "length lx = length lc" "lo < length (items a)"
  shows "growChild (Suc (length lc)) lo (Node (lx @ s # rx) (lc @ a # b # rc)) =
     Some (Node (lx @ last (items a) # rx)
             (lc @ Node (butlast (items a)) (butlast (children a))
                 # Node (s # items b)
                     ((if children a = [] then [] else [last (children a)]) @ children b)
                 # rc))"
proof -
  have ne: "items a \<noteq> []" using assms(2) by auto
  show ?thesis
    using assms ne
    by (simp add: growChild_def nth_opt_def mutableChild_def pop_def insertAt_def Let_def
        nth_append list_update_append)
qed

lemma growChild_steal_right:
  assumes "length lx = length lc" "lc = [] \<or> \<not> lo < length (items (last lc))"
    "lo < length (items b)"
  shows "growChild (length lc) lo (Node (lx @ s # rx) (lc @ a # b # rc)) =
     Some (Node (lx @ hd (items b) # rx)
             (lc @ Node (items a @ [s])
                     (children a @ (if children b = [] then [] else [hd (children b)]))
                 # Node (tl (items b)) (tl (children b))
                 # rc))"
proof -
  have ne: "items b \<noteq> []" using assms(3) by auto
  have l: "0 < length lc \<Longrightarrow> (lc @ a # b # rc) ! (length lc - Suc 0) = last lc"
    by (cases lc rule: rev_cases) (simp_all add: nth_append)
  show ?thesis
    using assms ne l
    by (cases "children b")
       (auto simp add: growChild_def nth_opt_def mutableChild_def removeAt_def Let_def
        nth_append list_update_append hd_conv_nth drop_Suc)
qed

lemma growChild_merge_here:
  assumes "length lx = length lc" "lc = [] \<or> \<not> lo < length (items (last lc))"
    "\<not> lo < length (items b)"
  shows "growChild (length lc) lo (Node (lx @ s # rx) (lc @ a # b # rc)) =
     Some (Node (lx @ rx) (lc @ Node (items a @ [s] @ items b) (children a @ children b) # rc))"
proof -
  have l: "0 < length lc \<Longrightarrow> (lc @ a # b # rc) ! (length lc - Suc 0) = last lc"
    by (cases lc rule: rev_cases) (simp_all add: nth_append)
  show ?thesis
    using assms l
    by (auto simp add: growChild_def nth_opt_def mutableChild_def removeAt_def Let_def
        nth_append list_update_append)
qed

lemma growChild_merge_last:
  assumes "length lx = length lc" "\<not> lo < length (items a)"
  shows "growChild (Suc (length lc)) lo (Node (lx @ [s]) (lc @ [a, b])) =
     Some (Node lx (lc @ [Node (items a @ [s] @ items b) (children a @ children b)]))"
  using assms
  by (auto simp add: growChild_def nth_opt_def mutableChild_def removeAt_def Let_def
      nth_append list_update_append)


definition good :: "nat \<Rightarrow> nat \<Rightarrow> nat \<Rightarrow> 'a node \<Rightarrow> bool" where
  "good lo hi h c \<longleftrightarrow> lo \<le> length (items c) \<and> length (items c) \<le> hi \<and> btree_at lo hi h c"

lemma btree_at_Suc_good:
  "btree_at lo hi (Suc h) n \<longleftrightarrow>
     length (children n) = length (items n) + 1 \<and> (\<forall>c \<in> set (children n). good lo hi h c)"
  by (simp add: btree_at_Suc good_def)

lemma btree_at_cases:
  assumes "btree_at lo hi h c"
  obtains (leaf) "h = 0" "children c = []"
  | (inner) h' where "h = Suc h'" "length (children c) = length (items c) + 1"
      "\<forall>d \<in> set (children c). good lo hi h' d"
  using assms by (cases h) (auto simp: btree_at_0 btree_at_Suc_good)

lemma interleave_last:
  assumes "cs \<noteq> []" "xs \<noteq> []" "length cs = length xs + 1"
  shows "interleave cs xs = interleave (butlast cs) (butlast xs) @ last xs # last cs"
  using interleave_snoc2 [of "butlast cs" "butlast xs" "last cs" "last xs"] assms by simp

lemma steal_left_ok:
  fixes s :: 'a
  assumes hi: "hi = 2 * lo + 1" and a: "good lo hi h a" and b: "good lo hi h b"
    and sp: "lo < length (items a)" and sm: "length (items b) \<le> lo"
  defines "a' \<equiv> Node (butlast (items a)) (butlast (children a))"
    and "b' \<equiv> Node (s # items b) ((if children a = [] then [] else [last (children a)]) @ children b)"
  shows "good lo hi h a'" "good lo hi h b'" "lo < length (items b')"
    "inorder a' @ last (items a) # inorder b' = inorder a @ s # inorder b"
proof -
  have ne: "items a \<noteq> []" using sp by auto
  have la: "lo \<le> length (items a')" "length (items a') \<le> hi"
    using a sp by (auto simp add: a'_def good_def)
  have lb: "lo \<le> length (items b')" "length (items b') \<le> hi" "lo < length (items b')"
    using b sm hi by (simp_all add: b'_def good_def)
  from a have "btree_at lo hi h a" by (simp add: good_def)
  then have "btree_at lo hi h a' \<and> btree_at lo hi h b' \<and>
      inorder a' @ last (items a) # inorder b' = inorder a @ s # inorder b"
  proof (cases rule: btree_at_cases)
    case leaf
    then have "children b = []" using b by (simp add: good_def btree_at_0)
    with leaf ne show ?thesis
      by (cases a; cases b) (simp add: a'_def b'_def)
  next
    case (inner h')
    from b inner(1) have bl: "length (children b) = length (items b) + 1"
      and bk: "\<forall>d \<in> set (children b). good lo hi h' d"
      by (simp_all add: good_def btree_at_Suc_good)
    have cne: "children a \<noteq> []" using inner(2) by auto
    have "btree_at lo hi h a'"
      using inner ne cne by (auto simp: a'_def btree_at_Suc_good dest: in_set_butlastD)
    moreover have "btree_at lo hi h b'"
      using inner bl bk cne by (auto simp: b'_def btree_at_Suc_good)
    moreover have "inorder a = inorder a' @ last (items a) # inorder (last (children a))"
      using interleave_last [of "map inorder (children a)" "items a"] inner(2) ne cne
      by (cases a) (simp add: a'_def map_butlast last_map)
    moreover have "inorder b' = inorder (last (children a)) @ s # inorder b"
      using cne by (cases b) (simp add: b'_def)
    ultimately show ?thesis by simp
  qed
  then show "good lo hi h a'" "good lo hi h b'" "lo < length (items b')"
    "inorder a' @ last (items a) # inorder b' = inorder a @ s # inorder b"
    using la lb by (simp_all add: good_def)
qed

lemma steal_right_ok:
  fixes s :: 'a
  assumes hi: "hi = 2 * lo + 1" and a: "good lo hi h a" and b: "good lo hi h b"
    and sp: "lo < length (items b)" and sm: "length (items a) \<le> lo"
  defines "a' \<equiv> Node (items a @ [s]) (children a @ (if children b = [] then [] else [hd (children b)]))"
    and "b' \<equiv> Node (tl (items b)) (tl (children b))"
  shows "good lo hi h a'" "good lo hi h b'" "lo < length (items a')"
    "inorder a' @ hd (items b) # inorder b' = inorder a @ s # inorder b"
proof -
  have ne: "items b \<noteq> []" using sp by auto
  have la: "lo \<le> length (items a')" "length (items a') \<le> hi" "lo < length (items a')"
    using a sm hi by (simp_all add: a'_def good_def)
  have lb: "lo \<le> length (items b')" "length (items b') \<le> hi"
    using b sp by (auto simp add: b'_def good_def)
  from b have "btree_at lo hi h b" by (simp add: good_def)
  then have "btree_at lo hi h a' \<and> btree_at lo hi h b' \<and>
      inorder a' @ hd (items b) # inorder b' = inorder a @ s # inorder b"
  proof (cases rule: btree_at_cases)
    case leaf
    then have "children a = []" using a by (simp add: good_def btree_at_0)
    with leaf ne show ?thesis
      by (cases a; cases b) (simp add: a'_def b'_def)
  next
    case (inner h')
    from a inner(1) have al: "length (children a) = length (items a) + 1"
      and ak: "\<forall>d \<in> set (children a). good lo hi h' d"
      by (simp_all add: good_def btree_at_Suc_good)
    have cne: "children b \<noteq> []" using inner(2) by auto
    obtain y ys where xb: "items b = y # ys" using ne by (cases "items b") auto
    obtain d ds where cb: "children b = d # ds" using cne by (cases "children b") auto
    have "btree_at lo hi h b'"
      using inner xb cb by (auto simp: b'_def btree_at_Suc_good)
    moreover have "btree_at lo hi h a'"
      using inner al ak cb by (auto simp: a'_def btree_at_Suc_good)
    moreover have "inorder a' = inorder a @ s # inorder d"
      using interleave_snoc2 [of "map inorder (children a)" "items a" "inorder d" s] al cb
      by (cases a) (simp add: a'_def)
    moreover have "inorder b = inorder d @ y # inorder b'"
      using xb cb by (cases b) (simp add: b'_def)
    ultimately show ?thesis using xb by simp
  qed
  then show "good lo hi h a'" "good lo hi h b'" "lo < length (items a')"
    "inorder a' @ hd (items b) # inorder b' = inorder a @ s # inorder b"
    using la lb by (simp_all add: good_def)
qed

lemma merge_ok:
  fixes s :: 'a
  assumes hi: "hi = 2 * lo + 1" and a: "good lo hi h a" and b: "good lo hi h b"
    and sa: "length (items a) \<le> lo" and sb: "length (items b) \<le> lo"
  defines "m \<equiv> Node (items a @ [s] @ items b) (children a @ children b)"
  shows "good lo hi h m" "lo < length (items m)" "inorder m = inorder a @ s # inorder b"
proof -
  have lm: "lo \<le> length (items m)" "length (items m) \<le> hi" "lo < length (items m)"
    using a b sa sb hi by (simp_all add: m_def good_def)
  from a have "btree_at lo hi h a" by (simp add: good_def)
  then have "btree_at lo hi h m \<and> inorder m = inorder a @ s # inorder b"
  proof (cases rule: btree_at_cases)
    case leaf
    then have "children b = []" using b by (simp add: good_def btree_at_0)
    with leaf show ?thesis by (cases a; cases b) (simp add: m_def)
  next
    case (inner h')
    from b inner(1) have bl: "length (children b) = length (items b) + 1"
      and bk: "\<forall>d \<in> set (children b). good lo hi h' d"
      by (simp_all add: good_def btree_at_Suc_good)
    have "btree_at lo hi h m"
      using inner bl bk by (auto simp: m_def btree_at_Suc_good)
    moreover have "inorder m = inorder a @ s # inorder b"
    proof -
      have "interleave (map inorder (children a) @ map inorder (children b))
              ((items a @ [s]) @ items b) =
            interleave (map inorder (children a)) (items a @ [s]) @
            interleave (map inorder (children b)) (items b)"
        using inner(2) by (intro interleave_append) simp
      moreover have "interleave (map inorder (children a)) (items a @ [s]) =
          interleave (map inorder (children a)) (items a) @ [s]"
        using inner(2) by (intro interleave_snoc1) simp
      ultimately show ?thesis by (cases a; cases b) (simp add: m_def)
    qed
    ultimately show ?thesis by simp
  qed
  then show "good lo hi h m" "lo < length (items m)" "inorder m = inorder a @ s # inorder b"
    using lm by (simp_all add: good_def)
qed

section \<open>Uniqueness of the search result\<close>

lemma find_items_unique:
  assumes swo: "strict_weak_order lt" and srt: "sorted_wrt lt (A @ B)"
    and lo: "\<forall>y \<in> set A. lt y x" and up: "\<forall>y \<in> set B. lt x y"
  shows "find_items lt x (A @ B) = (length A, False)"
proof -
  obtain i f where f: "find_items lt x (A @ B) = (i, f)" by (cases "find_items lt x (A @ B)")
  note fs = find_items_spec [OF swo srt f]
  note asym = swo_asym [OF swo]
  have i1: "\<not> i < length A"
  proof
    assume l: "i < length A"
    then have m: "(A @ B) ! i \<in> set A" by (simp add: nth_append)
    then have b: "lt ((A @ B) ! i) x" using lo by blast
    have "(A @ B) ! i \<in> set (drop i (A @ B))"
      using l by (metis Cons_nth_drop_Suc length_append list.set_intros(1) trans_less_add1)
    with fs b show False using asym by (cases f) (auto simp: equiv_def)
  qed
  have i2: "\<not> length A < i"
  proof
    assume l: "length A < i"
    with fs have "length A < length (A @ B)" by auto
    then have "(A @ B) ! length A \<in> set B" by (simp add: nth_append)
    moreover have "(A @ B) ! length A \<in> set (take i (A @ B))"
      using l fs by (metis in_set_conv_nth length_take min.absorb2 nth_take)
    ultimately show False using fs up asym by blast
  qed
  from i1 i2 have i: "i = length A" by simp
  have "\<not> f"
  proof
    assume f
    with fs i have "length A < length (A @ B)" "equiv lt x ((A @ B) ! length A)" by auto
    moreover then have "(A @ B) ! length A \<in> set B" by (simp add: nth_append)
    ultimately show False using up by (auto simp: equiv_def)
  qed
  with i f show ?thesis by simp
qed

lemma find_items_unique_found:
  assumes swo: "strict_weak_order lt" and srt: "sorted_wrt lt (A @ s # B)"
    and eq: "equiv lt x s"
  shows "find_items lt x (A @ s # B) = (length A, True)"
proof -
  obtain i f where f: "find_items lt x (A @ s # B) = (i, f)"
    by (cases "find_items lt x (A @ s # B)")
  note fs = find_items_spec [OF swo srt f]
  note asym = swo_asym [OF swo]
  have e': "equiv lt s x" using eq by (auto simp: equiv_def)
  have lo: "\<forall>y \<in> set A. lt y x"
    using srt lt_equiv_trans [OF swo _ e'] by (auto simp: sorted_wrt_append)
  have i1: "\<not> i < length A"
  proof
    assume l: "i < length A"
    then have m: "(A @ s # B) ! i \<in> set A" by (simp add: nth_append)
    then have b: "lt ((A @ s # B) ! i) x" using lo by blast
    have "(A @ s # B) ! i \<in> set (drop i (A @ s # B))"
      using l by (metis Cons_nth_drop_Suc length_append list.set_intros(1) trans_less_add1)
    with fs b show False using asym by (cases f) (auto simp: equiv_def)
  qed
  have i2: "\<not> length A < i"
  proof
    assume l: "length A < i"
    have "(A @ s # B) ! length A \<in> set (take i (A @ s # B))"
      using l fs by (metis in_set_conv_nth length_take min.absorb2 nth_take
          length_append less_add_same_cancel1 list.size(4) zero_less_Suc add_Suc_right)
    then have "lt s x" using fs by auto
    then show False using eq by (simp add: equiv_def)
  qed
  from i1 i2 have i: "i = length A" by simp
  have "f"
  proof (rule ccontr)
    assume "\<not> f"
    with fs i have "\<forall>y \<in> set (drop (length A) (A @ s # B)). lt x y" by simp
    then have "lt x s" by simp
    then show False using eq by (simp add: equiv_def)
  qed
  with i f show ?thesis by simp
qed


section \<open>Removal from a node\<close>

definition target :: "('a \<Rightarrow> 'a \<Rightarrow> bool) \<Rightarrow> 'a \<Rightarrow> toRemove \<Rightarrow> 'a node \<Rightarrow> nat \<times> bool" where
  "target lt x typ n =
     (case typ of
        removeMax \<Rightarrow> (length (items n), False)
      | removeMin \<Rightarrow> (0, False)
      | removePair \<Rightarrow> find_items lt x (items n))"

definition rm_out :: "('a \<Rightarrow> 'a \<Rightarrow> bool) \<Rightarrow> 'a \<Rightarrow> 'a \<Rightarrow> toRemove \<Rightarrow> 'a list \<Rightarrow> 'a" where
  "rm_out lt nilPair x typ xs =
     (case typ of removeMax \<Rightarrow> last xs | removeMin \<Rightarrow> hd xs | removePair \<Rightarrow> lookup lt nilPair x xs)"

definition rm_list :: "('a \<Rightarrow> 'a \<Rightarrow> bool) \<Rightarrow> 'a \<Rightarrow> toRemove \<Rightarrow> 'a list \<Rightarrow> 'a list" where
  "rm_list lt x typ xs =
     (case typ of removeMax \<Rightarrow> butlast xs | removeMin \<Rightarrow> tl xs | removePair \<Rightarrow> del lt x xs)"

definition removed_ok ::
  "('a \<Rightarrow> 'a \<Rightarrow> bool) \<Rightarrow> 'a \<Rightarrow> 'a \<Rightarrow> toRemove \<Rightarrow> nat \<Rightarrow> nat \<Rightarrow> nat \<Rightarrow> 'a node \<Rightarrow>
   ('a \<times> 'a node) option \<Rightarrow> bool" where
  "removed_ok lt nilPair x typ lo hi h n r \<longleftrightarrow>
     (\<exists>n'. r = Some (rm_out lt nilPair x typ (inorder n), n') \<and> btree_at lo hi h n' \<and>
           inorder n' = rm_list lt x typ (inorder n) \<and>
           length (items n') \<le> length (items n) \<and> length (items n) \<le> length (items n') + 1)"

lemma remove_node_leaf:
  assumes "children n = []"
  shows "remove_node lt nilPair x lo typ n =
     (case typ of
        removeMax \<Rightarrow> do { (out, its) \<leftarrow> pop (items n); Some (out, Node its []) }
      | removeMin \<Rightarrow> do { (out, its) \<leftarrow> removeAt 0 (items n); Some (out, Node its []) }
      | removePair \<Rightarrow>
          (case find_items lt x (items n) of
             (i, found) \<Rightarrow>
               if found then do { (out, its) \<leftarrow> removeAt i (items n); Some (out, Node its []) }
               else Some (nilPair, n)))"
  using assms by (subst remove_node.simps) (simp split: toRemove.splits prod.splits)

lemma remove_node_internal:
  assumes "children n \<noteq> []" "target lt x typ n = (i, found)" "i < length (children n)"
  shows "remove_node lt nilPair x lo typ n =
     (if length (items (children n ! i)) \<le> lo then
        do { n' \<leftarrow> growChild i lo n; remove_node lt nilPair x lo typ n' }
      else if found then
        do { out \<leftarrow> nth_opt (items n) i;
             (pred, child') \<leftarrow> remove_node lt nilPair nilPair lo removeMax (children n ! i);
             Some (out, Node ((items n)[i := pred]) ((children n)[i := child'])) }
      else
        do { (out, child') \<leftarrow> remove_node lt nilPair x lo typ (children n ! i);
             Some (out, Node (items n) ((children n)[i := child'])) })"
  using assms
  by (subst remove_node.simps)
     (auto simp: target_def nth_opt_def mutableChild_def split: toRemove.splits prod.splits)

lemma inorder_ne: "items c \<noteq> [] \<Longrightarrow> inorder c \<noteq> []"
  using set_items_inorder [of c] by (cases "items c") auto

lemma target_range:
  assumes "strict_weak_order lt" "sorted_wrt lt (items n)" "target lt x typ n = (i, found)"
  shows "i \<le> length (items n)"
  using assms find_items_spec [OF assms(1,2), of x i found]
  by (cases "typ") (auto simp: target_def)

text \<open>One level of \<open>remove\<close> when the child on the way is large enough.\<close>

lemma remove_step:
  assumes swo: "strict_weak_order lt" and hi: "hi = 2 * lo + 1" and lo1: "1 \<le> lo"
    and IH: "\<And>c x typ. btree_at lo hi h c \<Longrightarrow> sorted_wrt lt (inorder c) \<Longrightarrow> items c \<noteq> [] \<Longrightarrow>
               removed_ok lt nilPair x typ lo hi h c (remove_node lt nilPair x lo typ c)"
    and bt: "btree_at lo hi (Suc h) n" and srt: "sorted_wrt lt (inorder n)"
    and tg: "target lt x typ n = (i, found)"
    and big: "lo < length (items (children n ! i))"
  shows "\<exists>n'. remove_node lt nilPair x lo typ n = Some (rm_out lt nilPair x typ (inorder n), n') \<and>
              btree_at lo hi (Suc h) n' \<and> inorder n' = rm_list lt x typ (inorder n) \<and>
              length (items n') = length (items n)"
proof -
  from bt have len: "length (children n) = length (items n) + 1"
    and kids: "\<forall>c \<in> set (children n). good lo hi h c"
    by (simp_all add: btree_at_Suc_good)
  have nonleaf: "children n \<noteq> []" using len by auto
  have sit: "sorted_wrt lt (items n)" using srt by (rule sorted_items)
  have i: "i \<le> length (items n)" using target_range [OF swo sit tg] .
  have ic: "i < length (children n)" using i len by simp
  define c where "c = children n ! i"
  have cg: "good lo hi h c" using kids ic by (simp add: c_def)
  then have cb: "btree_at lo hi h c" "length (items c) \<le> hi" by (simp_all add: good_def)
  have cne0: "items c \<noteq> []" using big by (auto simp: c_def)
  have cne: "items c \<noteq> []" "inorder c \<noteq> []" using cne0 inorder_ne [OF cne0] by simp_all
  define lc rc where "lc = take i (children n)" and "rc = drop (Suc i) (children n)"
  have kids': "\<forall>d \<in> set lc \<union> set rc. good lo hi h d"
    using kids by (auto simp: lc_def rc_def dest: in_set_takeD in_set_dropD)
  have lcl: "length lc = i" using ic by (simp add: lc_def)
  note step = remove_node_internal [OF nonleaf tg ic, of nilPair lo]
  show ?thesis
  proof (cases found)
    case True
    then have tp: "typ = removePair" and f: "find_items lt x (items n) = (i, True)"
      using tg by (cases "typ"; simp add: target_def)+
    note fs = find_items_spec [OF swo sit f]
    then have il: "i < length (items n)" and eq: "equiv lt x (items n ! i)" by auto
    define lx rx s where "lx = take i (items n)" and "rx = drop (Suc i) (items n)"
      and "s = items n ! i"
    have n: "n = Node (lx @ s # rx) (lc @ c # rc)"
      using id_take_nth_drop [OF il] id_take_nth_drop [OF ic]
      by (cases n) (simp add: lx_def rx_def s_def lc_def rc_def c_def)
    have ll: "length lx = length lc" "i = length lc" using il lcl by (simp_all add: lx_def)
    define L R where "L = interleave (map inorder lc) lx" and "R = interleave (map inorder rc) rx"
    have io: "inorder n = (L @ inorder c) @ s # R"
      using inorder_app [of lc lx "s # rx" c rc] ll n by (simp add: L_def R_def)
    have sc: "sorted_wrt lt (inorder c)" using srt io by (simp add: sorted_wrt_append)
    from IH [OF cb(1) sc cne(1), of nilPair removeMax]
    obtain c' where c': "remove_node lt nilPair nilPair lo removeMax c = Some (last (inorder c), c')"
      "btree_at lo hi h c'" "inorder c' = butlast (inorder c)"
      "length (items c') \<le> length (items c)" "length (items c) \<le> length (items c') + 1"
      by (auto simp: removed_ok_def rm_out_def rm_list_def)
    define n' where "n' = Node (lx @ last (inorder c) # rx) (lc @ c' # rc)"
    have "remove_node lt nilPair x lo typ n = Some (s, n')"
      using step big True c'(1) il ll(1)
      by (simp add: c_def [symmetric] nth_opt_def s_def [symmetric])
         (simp add: n n'_def ll(2))
    moreover have "rm_out lt nilPair x typ (inorder n) = s"
      using ups_found(2) [OF swo _ eq [folded s_def], of "L @ inorder c" R] srt io
      by (simp add: rm_out_def tp)
    moreover have "rm_list lt x typ (inorder n) = L @ inorder c @ R"
      using ups_found(3) [OF swo _ eq [folded s_def], of "L @ inorder c" R] srt io
      by (simp add: rm_list_def tp)
    moreover have "inorder n' = L @ inorder c @ R"
      using inorder_app [of lc lx "last (inorder c) # rx" c' rc] ll c'(3) cne
      by (simp add: n'_def L_def R_def)
    moreover have "btree_at lo hi (Suc h) n'"
      using kids' c' cg big len n ll by (auto simp: n'_def btree_at_Suc_good good_def)
    moreover have "length (items n') = length (items n)" using n by (simp add: n'_def)
    ultimately show ?thesis by simp
  next
    case False
    define lx rx where "lx = take i (items n)" and "rx = drop i (items n)"
    have n: "n = Node (lx @ rx) (lc @ c # rc)"
      using zipper_node [OF ic i] by (simp add: lx_def rx_def lc_def rc_def c_def)
    have ll: "length lx = length lc" "i = length lc" "length rc = length rx"
      using i ic len by (simp_all add: lx_def lc_def rc_def rx_def)
    define L R where "L = interleave (map inorder lc) lx" and "R = tail_inter rx (map inorder rc)"
    have io: "inorder n = L @ inorder c @ R"
      using inorder_app [of lc lx rx c rc] ll n by (simp add: L_def R_def)
    have sL: "sorted_wrt lt (L @ (inorder c @ R))" and sR: "sorted_wrt lt ((L @ inorder c) @ R)"
      using srt io by simp_all
    have sc: "sorted_wrt lt (inorder c)" using sL by (simp add: sorted_wrt_append)
    from IH [OF cb(1) sc cne(1), of x "typ"]
    obtain c' where c': "remove_node lt nilPair x lo typ c = Some (rm_out lt nilPair x typ (inorder c), c')"
      "btree_at lo hi h c'" "inorder c' = rm_list lt x typ (inorder c)"
      "length (items c') \<le> length (items c)" "length (items c) \<le> length (items c') + 1"
      by (auto simp: removed_ok_def)
    define n' where "n' = Node (lx @ rx) (lc @ c' # rc)"
    have run: "remove_node lt nilPair x lo typ n = Some (rm_out lt nilPair x typ (inorder c), n')"
      using step big False c'(1) ll(1)
      by (simp add: c_def [symmetric]) (simp add: n n'_def ll(2))
    have ion': "inorder n' = L @ rm_list lt x typ (inorder c) @ R"
      using inorder_app [of lc lx rx c' rc] ll c'(3) by (simp add: n'_def L_def R_def)
    have bt': "btree_at lo hi (Suc h) n'"
      using kids' c' cg big len n ll by (auto simp: n'_def btree_at_Suc_good good_def)
    have sz: "length (items n') = length (items n)" using n by (simp add: n'_def)
    have "rm_out lt nilPair x typ (inorder n) = rm_out lt nilPair x typ (inorder c) \<and>
          rm_list lt x typ (inorder n) = L @ rm_list lt x typ (inorder c) @ R"
    proof (cases "typ")
      case removePair
      then have f: "find_items lt x (items n) = (i, False)" using tg False by (simp add: target_def)
      note fs = find_items_spec [OF swo sit f]
      then have lo: "\<forall>y \<in> set lx. lt y x" and up: "\<forall>y \<in> set rx. lt x y"
        by (auto simp: lx_def rx_def)
      have Lb: "\<forall>y \<in> set L. lt y x"
        unfolding L_def using left_below [OF swo _ sL [unfolded L_def]] lo ll by simp
      have Rb: "\<forall>y \<in> set R. lt x y"
        unfolding R_def using right_above [OF swo _ sR [unfolded R_def]] up ll by simp
      show ?thesis
        using lookup_sandwich [OF Lb Rb, of nilPair "inorder c"] del_sandwich [OF Lb Rb, of "inorder c"]
        by (simp add: io rm_out_def rm_list_def removePair)
    next
      case removeMin
      then have "i = 0" using tg by (simp add: target_def)
      then have "L = []" by (simp add: L_def lc_def lx_def)
      then show ?thesis using cne by (simp add: io rm_out_def rm_list_def removeMin)
    next
      case removeMax
      then have "i = length (items n)" using tg by (simp add: target_def)
      then have "R = []" using len by (simp add: R_def rc_def rx_def)
      then show ?thesis using cne by (simp add: io rm_out_def rm_list_def removeMax butlast_append)
    qed
    then show ?thesis using run ion' bt' sz by simp
  qed
qed


lemma zipper2:
  assumes "Suc j < length (children n)" "j < length (items n)"
  shows "n = Node (take j (items n) @ items n ! j # drop (Suc j) (items n))
                  (take j (children n) @ children n ! j # children n ! Suc j
                     # drop (Suc (Suc j)) (children n))"
proof -
  have "children n = take j (children n) @ children n ! j # drop (Suc j) (children n)"
    using assms by (simp add: id_take_nth_drop [symmetric])
  moreover have "drop (Suc j) (children n) = children n ! Suc j # drop (Suc (Suc j)) (children n)"
    using assms by (simp add: Cons_nth_drop_Suc)
  moreover have "items n = take j (items n) @ items n ! j # drop (Suc j) (items n)"
    using assms by (simp add: id_take_nth_drop [symmetric])
  ultimately show ?thesis by (cases n) simp
qed

lemma last_take_nth:
  assumes "0 < i" "i \<le> length cs"
  shows "last (take i cs) = cs ! (i - 1)"
proof -
  have "take i cs \<noteq> []" using assms by auto
  then show ?thesis using assms by (simp add: last_conv_nth)
qed

lemma in_inorder_last_items: "items a \<noteq> [] \<Longrightarrow> last (items a) \<in> set (inorder a)"
  using set_items_inorder [of a] last_in_set [of "items a"] by blast

lemma in_inorder_hd_items: "items a \<noteq> [] \<Longrightarrow> hd (items a) \<in> set (inorder a)"
  using set_items_inorder [of a] hd_in_set [of "items a"] by blast

text \<open>One restructuring by \<open>growChild\<close>: the traversal is unchanged, the shape is kept, and
  the child that the repeated \<open>remove\<close> call selects is large enough.\<close>

lemma grow_step:
  assumes swo: "strict_weak_order lt" and hi: "hi = 2 * lo + 1" and lo1: "1 \<le> lo"
    and bt: "btree_at lo hi (Suc h) n" and srt: "sorted_wrt lt (inorder n)"
    and ne: "items n \<noteq> []"
    and tg: "target lt x typ n = (i, found)"
    and small: "\<not> lo < length (items (children n ! i))"
  shows "\<exists>n1 i1 f1. growChild i lo n = Some n1 \<and> btree_at lo hi (Suc h) n1 \<and>
            inorder n1 = inorder n \<and> length (items n1) \<le> length (items n) \<and>
            length (items n) \<le> length (items n1) + 1 \<and>
            target lt x typ n1 = (i1, f1) \<and> lo < length (items (children n1 ! i1))"
proof -
  from bt have len: "length (children n) = length (items n) + 1"
    and kids: "\<forall>c \<in> set (children n). good lo hi h c"
    by (simp_all add: btree_at_Suc_good)
  have sit: "sorted_wrt lt (items n)" using srt by (rule sorted_items)
  have i: "i \<le> length (items n)" using target_range [OF swo sit tg] .
  have ic: "i < length (children n)" using i len by simp
  note tr = swo_trans [OF swo]
  have pair: "typ = removePair \<Longrightarrow>
      (\<forall>y \<in> set (take i (items n)). lt y x) \<and>
      (if found then i < length (items n) \<and> equiv lt x (items n ! i)
       else \<forall>y \<in> set (drop i (items n)). lt x y)"
    using find_items_spec [OF swo sit, of x i found] tg by (auto simp: target_def)
  have nf: "typ \<noteq> removePair \<Longrightarrow> \<not> found" using tg by (cases "typ") (auto simp: target_def)
  have fnd: "found \<Longrightarrow> i < length (items n)" using pair nf by (cases "typ") auto
  consider (StealL) "0 < i" and "lo < length (items (children n ! (i - 1)))"
    | (StealR) "\<not> (0 < i \<and> lo < length (items (children n ! (i - 1))))" and "i < length (items n)"
        and "lo < length (items (children n ! Suc i))"
    | (MergeH) "\<not> (0 < i \<and> lo < length (items (children n ! (i - 1))))" and "i < length (items n)"
        and "\<not> lo < length (items (children n ! Suc i))"
    | (MergeL) "\<not> (0 < i \<and> lo < length (items (children n ! (i - 1))))" and "\<not> i < length (items n)"
    by blast
  then show ?thesis
  proof cases
    case StealL
    define j where "j = i - 1"
    have ji: "i = Suc j" using StealL(1) by (simp add: j_def)
    define lx s rx lc a b rc where "lx = take j (items n)" and "s = items n ! j"
      and "rx = drop (Suc j) (items n)" and "lc = take j (children n)"
      and "a = children n ! j" and "b = children n ! Suc j"
      and "rc = drop (Suc (Suc j)) (children n)"
    have jr: "Suc j < length (children n)" "j < length (items n)" using ic i ji by simp_all
    have n: "n = Node (lx @ s # rx) (lc @ a # b # rc)"
      using zipper2 [OF jr] by (simp add: lx_def s_def rx_def lc_def a_def b_def rc_def)
    have ll: "length lx = length lc" "j = length lc" using jr by (simp_all add: lx_def lc_def)
    have ag: "good lo hi h a" "good lo hi h b" using kids jr by (simp_all add: a_def b_def)
    have kids': "\<forall>d \<in> set lc \<union> set rc. good lo hi h d"
      using kids by (auto simp: lc_def rc_def dest: in_set_takeD in_set_dropD)
    have sp: "lo < length (items a)" using StealL(2) by (simp add: a_def j_def)
    have sm: "length (items b) \<le> lo" using small ji by (simp add: b_def)
    define a' b' st where "a' = Node (butlast (items a)) (butlast (children a))"
      and "b' = Node (s # items b) ((if children a = [] then [] else [last (children a)]) @ children b)"
      and "st = last (items a)"
    note ok = steal_left_ok(1) [OF hi ag sp sm, folded a'_def]
      steal_left_ok(2,3,4) [OF hi ag sp sm, where s = s, folded a'_def b'_def st_def]
    define n1 where "n1 = Node (lx @ st # rx) (lc @ a' # b' # rc)"
    have g: "growChild i lo n = Some n1"
      using growChild_steal_left [OF ll(1) sp, of s rx b rc] n
      by (simp add: ji ll(2) n1_def a'_def b'_def st_def)
    have io: "inorder n = interleave (map inorder lc) lx @ (inorder a @ s # inorder b) @
        tail_inter rx (map inorder rc)"
      using inorder_two [of lc lx s rx a b rc] ll n by simp
    have io1: "inorder n1 = inorder n"
      using inorder_two [of lc lx st rx a' b' rc] ll ok(4) io by (simp add: n1_def)
    have bt1: "btree_at lo hi (Suc h) n1"
      using kids' ok(1,2) len n by (auto simp: n1_def btree_at_Suc_good)
    have sz: "length (items n1) = length (items n)" using n by (simp add: n1_def)
    have ch: "children n1 ! i = b'" using ji ll by (simp add: n1_def)
    have "target lt x typ n1 = (i, found)"
    proof (cases "typ")
      case removeMax
      then show ?thesis using tg sz by (simp add: target_def)
    next
      case removeMin
      then show ?thesis using tg StealL(1) by (simp add: target_def)
    next
      case removePair
      have s1: "sorted_wrt lt (lx @ st # rx)"
        using sorted_items [of lt n1] srt io1 by (simp add: n1_def)
      have "items a \<noteq> []" using sp by auto
      then have "st \<in> set (inorder a)" using in_inorder_last_items [of a] by (simp add: st_def)
      then have "lt st s" using srt io by (auto simp: sorted_wrt_append)
      moreover have "s \<in> set (take i (items n))"
        using jr ji by (auto simp: s_def in_set_conv_nth intro!: exI [of _ j])
      ultimately have stx: "lt st x" using pair [OF removePair] tr by blast
      have "set lx \<subseteq> set (take i (items n))"
        unfolding lx_def ji by (rule set_take_subset_set_take) simp
      then have lxx: "\<forall>y \<in> set lx. lt y x"
        using pair [OF removePair] by blast
      have rxi: "rx = drop i (items n)" by (simp add: rx_def ji)
      show ?thesis
      proof (cases found)
        case True
        then have il: "i < length (items n)" and eq: "equiv lt x (items n ! i)"
          using pair [OF removePair] by auto
        have rx': "rx = items n ! i # drop (Suc i) (items n)"
          using il by (simp add: rxi Cons_nth_drop_Suc)
        have "find_items lt x ((lx @ [st]) @ items n ! i # drop (Suc i) (items n)) =
            (length (lx @ [st]), True)"
          using s1 rx' by (intro find_items_unique_found [OF swo _ eq]) simp
        then show ?thesis using True rx' ll ji by (simp add: target_def removePair n1_def)
      next
        case False
        then have up: "\<forall>y \<in> set rx. lt x y" using pair [OF removePair] by (simp add: rxi)
        have "find_items lt x ((lx @ [st]) @ rx) = (length (lx @ [st]), False)"
          using s1 lxx stx up by (intro find_items_unique [OF swo]) auto
        then show ?thesis using False ll ji by (simp add: target_def removePair n1_def)
      qed
    qed
    then show ?thesis using g bt1 io1 sz ch ok(3) by auto
  next
    case StealR
    define lx s rx lc a b rc where "lx = take i (items n)" and "s = items n ! i"
      and "rx = drop (Suc i) (items n)" and "lc = take i (children n)"
      and "a = children n ! i" and "b = children n ! Suc i"
      and "rc = drop (Suc (Suc i)) (children n)"
    have jr: "Suc i < length (children n)" "i < length (items n)" using StealR(2) len by simp_all
    have n: "n = Node (lx @ s # rx) (lc @ a # b # rc)"
      using zipper2 [OF jr] by (simp add: lx_def s_def rx_def lc_def a_def b_def rc_def)
    have ll: "length lx = length lc" "i = length lc" using jr by (simp_all add: lx_def lc_def)
    have ag: "good lo hi h a" "good lo hi h b" using kids jr by (simp_all add: a_def b_def)
    have kids': "\<forall>d \<in> set lc \<union> set rc. good lo hi h d"
      using kids by (auto simp: lc_def rc_def dest: in_set_takeD in_set_dropD)
    have nl: "lc = [] \<or> \<not> lo < length (items (last lc))"
    proof (cases "i = 0")
      case True
      then show ?thesis by (simp add: lc_def)
    next
      case False
      then have "last lc = children n ! (i - 1)"
        using jr by (simp add: lc_def last_take_nth)
      then show ?thesis using StealR(1) False by simp
    qed
    have sp: "lo < length (items b)" using StealR(3) by (simp add: b_def)
    have sm: "length (items a) \<le> lo" using small by (simp add: a_def)
    define a' b' st where
      "a' = Node (items a @ [s]) (children a @ (if children b = [] then [] else [hd (children b)]))"
      and "b' = Node (tl (items b)) (tl (children b))"
      and "st = hd (items b)"
    note ok = steal_right_ok(1) [OF hi ag sp sm, where s = s, folded a'_def]
      steal_right_ok(2) [OF hi ag sp sm, folded b'_def]
      steal_right_ok(3,4) [OF hi ag sp sm, where s = s, folded a'_def b'_def st_def]
    define n1 where "n1 = Node (lx @ st # rx) (lc @ a' # b' # rc)"
    have g: "growChild i lo n = Some n1"
      using growChild_steal_right [OF ll(1) nl sp, of s rx a rc] n
      by (simp add: ll(2) n1_def a'_def b'_def st_def)
    have io: "inorder n = interleave (map inorder lc) lx @ (inorder a @ s # inorder b) @
        tail_inter rx (map inorder rc)"
      using inorder_two [of lc lx s rx a b rc] ll n by simp
    have io1: "inorder n1 = inorder n"
      using inorder_two [of lc lx st rx a' b' rc] ll ok(4) io by (simp add: n1_def)
    have bt1: "btree_at lo hi (Suc h) n1"
      using kids' ok(1,2) len n by (auto simp: n1_def btree_at_Suc_good)
    have sz: "length (items n1) = length (items n)" using n by (simp add: n1_def)
    have ch: "children n1 ! i = a'" using ll by (simp add: n1_def)
    have "target lt x typ n1 = (i, False)"
    proof (cases "typ")
      case removeMax
      then show ?thesis using tg StealR(2) by (simp add: target_def)
    next
      case removeMin
      then show ?thesis using tg by (simp add: target_def)
    next
      case removePair
      have s1: "sorted_wrt lt (lx @ st # rx)"
        using sorted_items [of lt n1] srt io1 by (simp add: n1_def)
      have "items b \<noteq> []" using sp by auto
      then have "st \<in> set (inorder b)" using in_inorder_hd_items [of b] by (simp add: st_def)
      then have sst: "lt s st" using srt io by (auto simp: sorted_wrt_append)
      have "items n ! i \<in> set (drop i (items n))"
        using jr by (simp add: Cons_nth_drop_Suc [symmetric])
      then have "lt x s \<or> equiv lt x s"
        using pair [OF removePair] by (cases found) (auto simp: s_def)
      then have xst: "lt x st" using sst tr equiv_lt_trans [OF swo] by blast
      have lxx: "\<forall>y \<in> set lx. lt y x" using pair [OF removePair] by (simp add: lx_def)
      have "\<forall>y \<in> set rx. lt st y" using s1 by (simp add: sorted_wrt_append)
      then have up: "\<forall>y \<in> set (st # rx). lt x y" using xst tr by auto
      have "find_items lt x (lx @ st # rx) = (length lx, False)"
        using s1 lxx up by (intro find_items_unique [OF swo])
      then show ?thesis using ll by (simp add: target_def removePair n1_def)
    qed
    then show ?thesis using g bt1 io1 sz ch ok(3) by auto
  next
    case MergeH
    define lx s rx lc a b rc where "lx = take i (items n)" and "s = items n ! i"
      and "rx = drop (Suc i) (items n)" and "lc = take i (children n)"
      and "a = children n ! i" and "b = children n ! Suc i"
      and "rc = drop (Suc (Suc i)) (children n)"
    have jr: "Suc i < length (children n)" "i < length (items n)" using MergeH(2) len by simp_all
    have n: "n = Node (lx @ s # rx) (lc @ a # b # rc)"
      using zipper2 [OF jr] by (simp add: lx_def s_def rx_def lc_def a_def b_def rc_def)
    have ll: "length lx = length lc" "i = length lc" using jr by (simp_all add: lx_def lc_def)
    have ag: "good lo hi h a" "good lo hi h b" using kids jr by (simp_all add: a_def b_def)
    have kids': "\<forall>d \<in> set lc \<union> set rc. good lo hi h d"
      using kids by (auto simp: lc_def rc_def dest: in_set_takeD in_set_dropD)
    have nl: "lc = [] \<or> \<not> lo < length (items (last lc))"
    proof (cases "i = 0")
      case True
      then show ?thesis by (simp add: lc_def)
    next
      case False
      then have "last lc = children n ! (i - 1)"
        using jr by (simp add: lc_def last_take_nth)
      then show ?thesis using MergeH(1) False by simp
    qed
    have sb: "length (items b) \<le> lo" using MergeH(3) by (simp add: b_def)
    have sa: "length (items a) \<le> lo" using small by (simp add: a_def)
    define m where "m = Node (items a @ [s] @ items b) (children a @ children b)"
    note ok = merge_ok [OF hi ag sa sb, where s = s, folded m_def]
    define n1 where "n1 = Node (lx @ rx) (lc @ m # rc)"
    have g: "growChild i lo n = Some n1"
      using growChild_merge_here [OF ll(1) nl, of b s rx a rc] sb n
      by (simp add: ll(2) n1_def m_def)
    have io: "inorder n = interleave (map inorder lc) lx @ (inorder a @ s # inorder b) @
        tail_inter rx (map inorder rc)"
      using inorder_two [of lc lx s rx a b rc] ll n by simp
    have io1: "inorder n1 = inorder n"
      using inorder_app [of lc lx rx m rc] ll ok(3) io by (simp add: n1_def)
    have bt1: "btree_at lo hi (Suc h) n1"
      using kids' ok(1) len n by (auto simp: n1_def btree_at_Suc_good)
    have sz: "length (items n1) + 1 = length (items n)" using n by (simp add: n1_def)
    have ch: "children n1 ! i = m" using ll by (simp add: n1_def)
    have "target lt x typ n1 = (i, False)"
    proof (cases "typ")
      case removeMax
      then show ?thesis using tg MergeH(2) by (simp add: target_def)
    next
      case removeMin
      then show ?thesis using tg by (simp add: target_def)
    next
      case removePair
      have s1: "sorted_wrt lt (lx @ rx)"
        using sorted_items [of lt n1] srt io1 by (simp add: n1_def)
      have "items n ! i \<in> set (drop i (items n))"
        using jr by (simp add: Cons_nth_drop_Suc [symmetric])
      then have "lt x s \<or> equiv lt x s"
        using pair [OF removePair] by (cases found) (auto simp: s_def)
      moreover have "\<forall>y \<in> set rx. lt s y" using sit n by (auto simp: sorted_wrt_append)
      ultimately have up: "\<forall>y \<in> set rx. lt x y" using tr equiv_lt_trans [OF swo] by blast
      have lxx: "\<forall>y \<in> set lx. lt y x" using pair [OF removePair] by (simp add: lx_def)
      have "find_items lt x (lx @ rx) = (length lx, False)"
        using s1 lxx up by (intro find_items_unique [OF swo])
      then show ?thesis using ll by (simp add: target_def removePair n1_def)
    qed
    then show ?thesis using g bt1 io1 sz ch ok(2) by auto
  next
    case MergeL
    then have il: "i = length (items n)" using i by simp
    then have i0: "0 < i" using ne by simp
    define j where "j = i - 1"
    have ji: "i = Suc j" using i0 by (simp add: j_def)
    define lx s lc a b where "lx = take j (items n)" and "s = items n ! j"
      and "lc = take j (children n)" and "a = children n ! j" and "b = children n ! Suc j"
    have jr: "Suc j < length (children n)" "j < length (items n)" using ic i ji by simp_all
    have n: "n = Node (lx @ [s]) (lc @ [a, b])"
      using zipper2 [OF jr] il ji len by (simp add: lx_def s_def lc_def a_def b_def)
    have ll: "length lx = length lc" "j = length lc" using jr by (simp_all add: lx_def lc_def)
    have ag: "good lo hi h a" "good lo hi h b" using kids jr by (simp_all add: a_def b_def)
    have kids': "\<forall>d \<in> set lc. good lo hi h d"
      using kids by (auto simp: lc_def dest: in_set_takeD)
    have sa: "length (items a) \<le> lo" using MergeL(1) i0 by (simp add: a_def j_def)
    have sb: "length (items b) \<le> lo" using small ji by (simp add: b_def)
    define m where "m = Node (items a @ [s] @ items b) (children a @ children b)"
    note ok = merge_ok [OF hi ag sa sb, where s = s, folded m_def]
    define n1 where "n1 = Node lx (lc @ [m])"
    have g: "growChild i lo n = Some n1"
      using growChild_merge_last [OF ll(1), of lo a s b] sa n
      by (simp add: ji ll(2) n1_def m_def)
    have io: "inorder n = interleave (map inorder lc) lx @ (inorder a @ s # inorder b)"
      using inorder_two [of lc lx s "[]" a b "[]"] ll n by simp
    have io1: "inorder n1 = inorder n"
      using inorder_app [of lc lx "[]" m "[]"] ll ok(3) io by (simp add: n1_def)
    have bt1: "btree_at lo hi (Suc h) n1"
      using kids' ok(1) ll by (auto simp: n1_def btree_at_Suc_good)
    have sz: "length (items n1) + 1 = length (items n)" using n by (simp add: n1_def)
    have ch: "children n1 ! j = m" using ll by (simp add: n1_def)
    have "target lt x typ n1 = (j, False)"
    proof (cases "typ")
      case removeMax
      then show ?thesis using ll by (simp add: target_def n1_def)
    next
      case removeMin
      then show ?thesis using tg i0 by (simp add: target_def)
    next
      case removePair
      have nfd: "\<not> found" using fnd MergeL(2) by blast
      have s1: "sorted_wrt lt (lx @ [])"
        using sorted_items [of lt n1] srt io1 by (simp add: n1_def)
      have lxx: "\<forall>y \<in> set lx. lt y x"
        using pair [OF removePair] il n by auto
      have "find_items lt x (lx @ []) = (length lx, False)"
        using s1 lxx by (intro find_items_unique [OF swo]) simp_all
      then show ?thesis using ll by (simp add: target_def removePair n1_def)
    qed
    then show ?thesis using g bt1 io1 sz ch ok(2) by auto
  qed
qed


lemma remove_node_correct:
  assumes swo: "strict_weak_order lt" and hi: "hi = 2 * lo + 1" and lo1: "1 \<le> lo"
  shows "btree_at lo hi h n \<Longrightarrow> sorted_wrt lt (inorder n) \<Longrightarrow> items n \<noteq> [] \<Longrightarrow>
         removed_ok lt nilPair x typ lo hi h n (remove_node lt nilPair x lo typ n)"
proof (induction h arbitrary: n x "typ")
  case 0
  then have leaf: "children n = []" by (simp add: btree_at_0)
  have io: "inorder n = items n" using leaf by (cases n) simp
  have srt: "sorted_wrt lt (items n)" using "0.prems"(2) io by simp
  note ne = "0.prems"(3)
  show ?case
  proof (cases "typ")
    case removeMax
    then show ?thesis
      using ne leaf io
      by (simp add: removed_ok_def remove_node_leaf pop_def rm_out_def rm_list_def)
  next
    case removeMin
    then show ?thesis
      using ne leaf io removeAt_0 [OF ne]
      by (simp add: removed_ok_def remove_node_leaf rm_out_def rm_list_def)
  next
    case removePair
    obtain i found where f: "find_items lt x (items n) = (i, found)"
      by (cases "find_items lt x (items n)")
    note fs = find_items_spec [OF swo srt f]
    show ?thesis
    proof (cases found)
      case True
      with fs have i: "i < length (items n)" and eq: "equiv lt x (items n ! i)" by auto
      have dec: "items n = take i (items n) @ items n ! i # drop (Suc i) (items n)"
        using i by (simp add: id_take_nth_drop [symmetric])
      have s': "sorted_wrt lt (take i (items n) @ items n ! i # drop (Suc i) (items n))"
        using srt dec by simp
      have "remove_node lt nilPair x lo typ n =
          Some (items n ! i, Node (take i (items n) @ drop (Suc i) (items n)) [])"
        using leaf f True i by (simp add: remove_node_leaf removePair removeAt_def)
      moreover have "lookup lt nilPair x (items n) = items n ! i"
        using ups_found(2) [OF swo s' eq] dec by simp
      moreover have "del lt x (items n) = take i (items n) @ drop (Suc i) (items n)"
        using ups_found(3) [OF swo s' eq] dec by simp
      moreover have "length (take i (items n) @ drop (Suc i) (items n)) + 1 = length (items n)"
        using i by simp
      ultimately show ?thesis
        by (simp add: removed_ok_def rm_out_def rm_list_def removePair io)
    next
      case False
      with fs have lo: "\<forall>y \<in> set (take i (items n)). lt y x"
        and up: "\<forall>y \<in> set (drop i (items n)). lt x y" by auto
      have "remove_node lt nilPair x lo typ n = Some (nilPair, n)"
        using leaf f False by (simp add: remove_node_leaf removePair)
      moreover have "lookup lt nilPair x (items n) = nilPair"
        using ups_absent(2) [OF swo lo up] by simp
      moreover have "del lt x (items n) = items n"
        using ups_absent(3) [OF swo lo up] by simp
      ultimately show ?thesis
        using leaf by (simp add: removed_ok_def rm_out_def rm_list_def removePair io btree_at_0)
    qed
  qed
next
  case (Suc h)
  obtain i found where tg: "target lt x typ n = (i, found)" by (cases "target lt x typ n")
  from Suc.prems(1) have len: "length (children n) = length (items n) + 1"
    by (simp add: btree_at_Suc_good)
  have nonleaf: "children n \<noteq> []" using len by auto
  have sit: "sorted_wrt lt (items n)" using Suc.prems(2) by (rule sorted_items)
  have ic: "i < length (children n)" using target_range [OF swo sit tg] len by simp
  note IH = Suc.IH
  show ?case
  proof (cases "lo < length (items (children n ! i))")
    case True
    from remove_step [OF swo hi lo1 IH Suc.prems(1,2) tg True]
    show ?thesis by (auto simp: removed_ok_def)
  next
    case False
    from grow_step [OF swo hi lo1 Suc.prems(1,2,3) tg False]
    obtain n1 i1 f1 where n1: "growChild i lo n = Some n1" "btree_at lo hi (Suc h) n1"
      "inorder n1 = inorder n" "length (items n1) \<le> length (items n)"
      "length (items n) \<le> length (items n1) + 1"
      "target lt x typ n1 = (i1, f1)" "lo < length (items (children n1 ! i1))"
      by blast
    have s1: "sorted_wrt lt (inorder n1)" using Suc.prems(2) n1(3) by simp
    have "remove_node lt nilPair x lo typ n = remove_node lt nilPair x lo typ n1"
      using remove_node_internal [OF nonleaf tg ic, of nilPair lo] False n1(1) by simp
    moreover from remove_step [OF swo hi lo1 IH n1(2) s1 n1(6,7)]
    obtain n' where "remove_node lt nilPair x lo typ n1 =
        Some (rm_out lt nilPair x typ (inorder n1), n')" "btree_at lo hi (Suc h) n'"
      "inorder n' = rm_list lt x typ (inorder n1)" "length (items n') = length (items n1)"
      by blast
    ultimately show ?thesis using n1(3,4,5) by (simp add: removed_ok_def)
  qed
qed

text \<open>What \<open>deletePair\<close> does to a tree that satisfies the invariant.\<close>

lemma length_butlast_int: "xs \<noteq> [] \<Longrightarrow> int (length (butlast xs)) = int (length xs) - 1"
  by (cases xs rule: rev_cases) simp_all

lemma length_tl_int: "xs \<noteq> [] \<Longrightarrow> int (length (tl xs)) = int (length xs) - 1"
  by (cases xs) simp_all

lemma rm_facts:
  assumes swo: "strict_weak_order lt" and srt: "sorted_wrt lt xs" and nn: "nilPair \<notin> set xs"
    and ne: "xs \<noteq> []"
  shows "sorted_wrt lt (rm_list lt x typ xs)"
    and "set (rm_list lt x typ xs) \<subseteq> set xs"
    and "int (length (rm_list lt x typ xs)) =
           (if rm_out lt nilPair x typ xs \<noteq> nilPair then int (length xs) - 1 else int (length xs))"
proof -
  show "sorted_wrt lt (rm_list lt x typ xs)"
  proof (cases "typ")
    case removePair
    then show ?thesis using srt by (simp add: rm_list_def sorted_wrt_del)
  next
    case removeMin
    then show ?thesis using srt by (cases xs) (simp_all add: rm_list_def)
  next
    case removeMax
    then show ?thesis using srt ne
      by (cases xs rule: rev_cases) (simp_all add: rm_list_def sorted_wrt_append)
  qed
  show "set (rm_list lt x typ xs) \<subseteq> set xs"
    using set_del [of lt x xs]
    by (cases "typ"; cases xs) (auto simp: rm_list_def dest: in_set_butlastD)
  show "int (length (rm_list lt x typ xs)) =
           (if rm_out lt nilPair x typ xs \<noteq> nilPair then int (length xs) - 1 else int (length xs))"
  proof (cases "typ")
    case removePair
    then show ?thesis
      using length_del [OF swo srt, of x] lookup_nil_iff [OF nn, of lt x]
      by (simp add: rm_list_def rm_out_def)
  next
    case removeMin
    have "hd xs \<in> set xs" using ne by simp
    then have "hd xs \<noteq> nilPair" using nn by auto
    then show ?thesis using removeMin length_tl_int [OF ne]
      by (simp add: rm_list_def rm_out_def del: length_tl)
  next
    case removeMax
    have "last xs \<in> set xs" using ne by simp
    then have "last xs \<noteq> nilPair" using nn by auto
    then show ?thesis using removeMax length_butlast_int [OF ne]
      by (simp add: rm_list_def rm_out_def del: length_butlast)
  qed
qed

lemma deletePair_correct:
  assumes swo: "strict_weak_order lt" and inv: "tree_inv lt nilPair t"
  shows "\<exists>t'. deletePair lt nilPair x typ t =
                Inr (if contents t = [] then nilPair else rm_out lt nilPair x typ (contents t), t') \<and>
              tree_inv lt nilPair t' \<and>
              contents t' = (if contents t = [] then [] else rm_list lt x typ (contents t)) \<and>
              degree t' = degree t"
proof (cases "root t")
  case None
  then show ?thesis using inv by (simp add: deletePair_def contents_def)
next
  case (Some r)
  define lo hi where "lo = minPairs t" and "hi = maxPairs t"
  have hi: "hi = 2 * lo + 1" and lo1: "1 \<le> lo"
    using inv by (auto simp: lo_def hi_def minPairs_def maxPairs_def tree_inv_def)
  from inv Some have r: "btree_at lo hi (height r) r" "length (items r) \<le> hi"
    "children r \<noteq> [] \<longrightarrow> items r \<noteq> []" "sorted_wrt lt (inorder r)" "nilPair \<notin> set (inorder r)"
    "length_t t = int (length (inorder r))" and deg: "2 \<le> degree t"
    by (simp_all add: tree_inv_def lo_def hi_def)
  have ct: "contents t = inorder r" using Some by (simp add: contents_def)
  show ?thesis
  proof (cases "items r = []")
    case True
    with r(3) have "children r = []" by auto
    with True have "inorder r = []" by (cases r) simp
    then show ?thesis using Some True inv by (simp add: deletePair_def ct)
  next
    case False
    then have ne: "inorder r \<noteq> []" by (rule inorder_ne)
    from remove_node_correct [OF swo hi lo1 r(1,4) False, of nilPair x "typ"]
    obtain r1 where r1: "remove_node lt nilPair x lo typ r = Some (rm_out lt nilPair x typ (inorder r), r1)"
      "btree_at lo hi (height r) r1" "inorder r1 = rm_list lt x typ (inorder r)"
      "length (items r1) \<le> length (items r)" "length (items r) \<le> length (items r1) + 1"
      by (auto simp: removed_ok_def)
    define r2 where "r2 = (if length (items r1) = 0 \<and> length (children r1) > 0
                            then children r1 ! 0 else r1)"
    define t' where "t' = t\<lparr>root := Some r2,
        length_t := (if rm_out lt nilPair x typ (inorder r) \<noteq> nilPair then length_t t - 1
                     else length_t t)\<rparr>"
    have run: "deletePair lt nilPair x typ t = Inr (rm_out lt nilPair x typ (inorder r), t')"
      using Some False r1(1) by (simp add: deletePair_def lo_def r2_def t'_def Let_def)
    have r2: "btree_at lo hi (height r2) r2 \<and> length (items r2) \<le> hi \<and>
              (children r2 \<noteq> [] \<longrightarrow> items r2 \<noteq> []) \<and> inorder r2 = inorder r1"
    proof (cases "length (items r1) = 0 \<and> length (children r1) > 0")
      case True
      have "\<exists>h'. height r = Suc h' \<and> length (children r1) = length (items r1) + 1 \<and>
          (\<forall>c \<in> set (children r1). good lo hi h' c)"
        using r1(2) True by (cases "height r") (auto simp: btree_at_0 btree_at_Suc_good)
      then obtain h' where h': "height r = Suc h'" "length (children r1) = length (items r1) + 1"
        "\<forall>c \<in> set (children r1). good lo hi h' c" by blast
      from True h'(2) obtain c where c: "children r1 = [c]"
        by (cases "children r1") auto
      have cg: "good lo hi h' c" using h'(3) c by simp
      have "inorder r1 = inorder c" using True c by (cases r1) simp
      moreover have "height c = h'" using cg by (auto simp: good_def dest: btree_at_height)
      moreover have "items c \<noteq> []" using cg lo1 by (auto simp: good_def)
      ultimately show ?thesis using True c cg by (simp add: r2_def good_def)
    next
      case False
      have "height r1 = height r" using r1(2) by (rule btree_at_height)
      moreover have "children r1 \<noteq> [] \<longrightarrow> items r1 \<noteq> []" using False by auto
      moreover have "r2 = r1" using False by (auto simp: r2_def)
      ultimately show ?thesis using r1(2,4) r(2) by simp
    qed
    note rf = rm_facts [OF swo r(4,5) ne, of x "typ"]
    have "tree_inv lt nilPair t'"
      using r2 r1(3) rf r(5,6) deg
      by (auto simp: tree_inv_def t'_def lo_def hi_def minPairs_def maxPairs_def)
    moreover have "contents t' = rm_list lt x typ (contents t)"
      using r2 r1(3) by (simp add: ct) (simp add: contents_def t'_def)
    moreover have "degree t' = degree t" by (simp add: t'_def)
    ultimately show ?thesis using run ne by (auto simp: ct)
  qed
qed


section \<open>Sequences of operations\<close>

datatype 'a operation = OpReplaceOrInsert 'a | OpDelete 'a | OpDeleteMin | OpDeleteMax

definition apply_op ::
  "('a \<Rightarrow> 'a \<Rightarrow> bool) \<Rightarrow> 'a \<Rightarrow> 'a operation \<Rightarrow> 'a PairTree \<Rightarrow> 'a error + ('a \<times> 'a PairTree)" where
  "apply_op lt nilPair op t =
     (case op of
        OpReplaceOrInsert x \<Rightarrow> ReplaceOrInsert lt nilPair x t
      | OpDelete x \<Rightarrow> Delete lt nilPair x t
      | OpDeleteMin \<Rightarrow> DeleteMin lt nilPair t
      | OpDeleteMax \<Rightarrow> DeleteMax lt nilPair t)"

fun run ::
  "('a \<Rightarrow> 'a \<Rightarrow> bool) \<Rightarrow> 'a \<Rightarrow> 'a operation list \<Rightarrow> 'a PairTree \<Rightarrow> 'a error + 'a PairTree" where
  "run lt nilPair [] t = Inr t"
| "run lt nilPair (op # ops) t =
     (case apply_op lt nilPair op t of
        Inl e \<Rightarrow> Inl e
      | Inr (out, t') \<Rightarrow> run lt nilPair ops t')"

text \<open>The empty tree of degree \<open>d\<close>; \<open>New\<close> is the one of degree \<open>defaultDegrees\<close>.\<close>

definition empty_tree :: "nat \<Rightarrow> 'a PairTree" where
  "empty_tree d = \<lparr>degree = d, length_t = 0, root = None\<rparr>"

lemma New_empty_tree: "New = empty_tree defaultDegrees"
  by (simp add: New_def empty_tree_def)

lemma tree_inv_empty: "2 \<le> d \<Longrightarrow> tree_inv lt nilPair (empty_tree d)"
  by (simp add: tree_inv_def empty_tree_def)

lemma apply_op_inv:
  assumes "strict_weak_order lt" "tree_inv lt nilPair t" "apply_op lt nilPair op t = Inr (out, t')"
  shows "tree_inv lt nilPair t' \<and> degree t' = degree t"
proof (cases op)
  case (OpReplaceOrInsert x)
  show ?thesis
  proof (cases "x = nilPair")
    case True
    with assms OpReplaceOrInsert show ?thesis by (simp add: apply_op_def ReplaceOrInsert_def)
  next
    case False
    from ReplaceOrInsert_correct [OF assms(1,2) False] assms(3) OpReplaceOrInsert
    show ?thesis by (auto simp: apply_op_def)
  qed
next
  case (OpDelete x)
  from deletePair_correct [OF assms(1,2), of x removePair] assms(3) OpDelete
  show ?thesis by (auto simp: apply_op_def Delete_def)
next
  case OpDeleteMin
  from deletePair_correct [OF assms(1,2), of nilPair removeMin] assms(3) OpDeleteMin
  show ?thesis by (auto simp: apply_op_def DeleteMin_def)
next
  case OpDeleteMax
  from deletePair_correct [OF assms(1,2), of nilPair removeMax] assms(3) OpDeleteMax
  show ?thesis by (auto simp: apply_op_def DeleteMax_def)
qed

lemma apply_op_total:
  assumes "strict_weak_order lt" "tree_inv lt nilPair t" "op \<noteq> OpReplaceOrInsert nilPair"
  shows "\<exists>out t'. apply_op lt nilPair op t = Inr (out, t')"
proof (cases op)
  case (OpReplaceOrInsert x)
  with assms(3) have "x \<noteq> nilPair" by auto
  from ReplaceOrInsert_correct [OF assms(1,2) this] OpReplaceOrInsert
  show ?thesis by (auto simp: apply_op_def)
next
  case (OpDelete x)
  from deletePair_correct [OF assms(1,2), of x removePair] OpDelete
  show ?thesis by (auto simp: apply_op_def Delete_def)
next
  case OpDeleteMin
  from deletePair_correct [OF assms(1,2), of nilPair removeMin] OpDeleteMin
  show ?thesis by (auto simp: apply_op_def DeleteMin_def)
next
  case OpDeleteMax
  from deletePair_correct [OF assms(1,2), of nilPair removeMax] OpDeleteMax
  show ?thesis by (auto simp: apply_op_def DeleteMax_def)
qed

lemma run_inv:
  assumes "strict_weak_order lt"
  shows "tree_inv lt nilPair t0 \<Longrightarrow> run lt nilPair ops t0 = Inr t \<Longrightarrow>
         tree_inv lt nilPair t \<and> degree t = degree t0"
proof (induction ops arbitrary: t0)
  case Nil
  then show ?case by simp
next
  case (Cons op ops)
  from Cons.prems(2) obtain out t1 where a: "apply_op lt nilPair op t0 = Inr (out, t1)"
    and r: "run lt nilPair ops t1 = Inr t"
    by (auto split: sum.splits)
  from apply_op_inv [OF assms Cons.prems(1) a] Cons.IH [OF _ r] show ?case by simp
qed

lemma run_total:
  assumes "strict_weak_order lt"
  shows "tree_inv lt nilPair t0 \<Longrightarrow> OpReplaceOrInsert nilPair \<notin> set ops \<Longrightarrow>
         \<exists>t. run lt nilPair ops t0 = Inr t"
proof (induction ops arbitrary: t0)
  case Nil
  then show ?case by simp
next
  case (Cons op ops)
  then have "op \<noteq> OpReplaceOrInsert nilPair" by auto
  from apply_op_total [OF assms Cons.prems(1) this]
  obtain out t1 where a: "apply_op lt nilPair op t0 = Inr (out, t1)" by blast
  from apply_op_inv [OF assms Cons.prems(1) a] have "tree_inv lt nilPair t1" by simp
  from Cons.IH [OF this] Cons.prems(2) a show ?case by auto
qed

lemma reachable_inv:
  assumes "strict_weak_order lt" "2 \<le> d" "run lt nilPair ops (empty_tree d) = Inr t"
  shows "tree_inv lt nilPair t" "degree t = d"
  using run_inv [OF assms(1) tree_inv_empty [OF assms(2)] assms(3)]
  by (simp_all add: empty_tree_def)

section \<open>The structural invariant, node by node\<close>

fun subnodes :: "'a node \<Rightarrow> 'a node list" where
  "subnodes (Node xs cs) = Node xs cs # concat (map subnodes cs)"

definition structural_invariant :: "('a \<Rightarrow> 'a \<Rightarrow> bool) \<Rightarrow> nat \<Rightarrow> 'a PairTree \<Rightarrow> bool" where
  "structural_invariant lt d t \<longleftrightarrow>
     (case root t of
        None \<Rightarrow> True
      | Some r \<Rightarrow>
          (\<forall>m \<in> set (subnodes r).
             (children m = [] \<or> length (children m) = length (items m) + 1) \<and>
             sorted_wrt lt (items m)) \<and>
          sorted_wrt lt (inorder r) \<and>
          (\<forall>c \<in> set (children r). \<forall>m \<in> set (subnodes c).
             d - 1 \<le> length (items m) \<and> length (items m) \<le> 2 * d - 1))"

lemma sorted_child_mem:
  assumes "sorted_wrt lt (inorder n)" "length (children n) = length (items n) + 1"
    "c \<in> set (children n)"
  shows "sorted_wrt lt (inorder c)"
proof -
  from assms(3) obtain i where "i < length (children n)" "c = children n ! i"
    by (auto simp: in_set_conv_nth)
  then show ?thesis using sorted_child [of lt n i] assms by simp
qed

lemma subnodes_self: "n \<in> set (subnodes n)"
  by (cases n) simp

lemma subnodes_ok:
  "btree_at lo hi h n \<Longrightarrow> sorted_wrt lt (inorder n) \<Longrightarrow> m \<in> set (subnodes n) \<Longrightarrow>
   (children m = [] \<or> length (children m) = length (items m) + 1) \<and> sorted_wrt lt (items m) \<and>
   (m \<noteq> n \<longrightarrow> lo \<le> length (items m) \<and> length (items m) \<le> hi)"
proof (induction h arbitrary: n)
  case 0
  then have "children n = []" by (simp add: btree_at_0)
  with "0.prems" show ?case by (cases n) (auto dest: sorted_items)
next
  case (Suc h)
  from Suc.prems(1) have len: "length (children n) = length (items n) + 1"
    and kids: "\<forall>c \<in> set (children n). good lo hi h c" by (simp_all add: btree_at_Suc_good)
  show ?case
  proof (cases "m = n")
    case True
    then show ?thesis using len Suc.prems(2) by (auto dest: sorted_items)
  next
    case False
    with Suc.prems(3) obtain c where c: "c \<in> set (children n)" "m \<in> set (subnodes c)"
      by (cases n) auto
    have cg: "good lo hi h c" using kids c by simp
    have sc: "sorted_wrt lt (inorder c)" using sorted_child_mem [OF Suc.prems(2) len c(1)] .
    from Suc.IH [OF _ sc c(2)] cg show ?thesis by (auto simp: good_def)
  qed
qed

lemma tree_inv_structural:
  assumes "tree_inv lt nilPair t"
  shows "structural_invariant lt (degree t) t"
proof (cases "root t")
  case None
  then show ?thesis by (simp add: structural_invariant_def)
next
  case (Some r)
  with assms have r: "btree_at (minPairs t) (maxPairs t) (height r) r" "sorted_wrt lt (inorder r)"
    by (simp_all add: tree_inv_def)
  note ok = subnodes_ok [OF r]
  have "\<forall>c \<in> set (children r). \<forall>m \<in> set (subnodes c).
      minPairs t \<le> length (items m) \<and> length (items m) \<le> maxPairs t"
  proof (intro ballI)
    fix c m assume c: "c \<in> set (children r)" and m: "m \<in> set (subnodes c)"
    then obtain h where h: "height r = Suc h" "length (children r) = length (items r) + 1"
      "\<forall>c \<in> set (children r). good (minPairs t) (maxPairs t) h c"
      using r(1) by (cases "height r") (auto simp: btree_at_0 btree_at_Suc_good)
    have cg: "good (minPairs t) (maxPairs t) h c" using h c by simp
    have sc: "sorted_wrt lt (inorder c)" using sorted_child_mem [OF r(2) h(2) c] .
    from subnodes_ok [OF _ sc m, of "minPairs t" "maxPairs t" h] cg
    show "minPairs t \<le> length (items m) \<and> length (items m) \<le> maxPairs t"
      by (cases "m = c") (auto simp: good_def)
  qed
  then show ?thesis using ok r(2) Some
    by (auto simp: structural_invariant_def minPairs_def maxPairs_def mult.commute)
qed


lemma sorted_equiv_eq:
  assumes "strict_weak_order lt" "sorted_wrt lt xs" "a \<in> set xs" "b \<in> set xs" "equiv lt a b"
  shows "a = b"
proof -
  from assms(3,4) obtain i j where ij: "i < length xs" "j < length xs" "a = xs ! i" "b = xs ! j"
    by (auto simp: in_set_conv_nth)
  have "\<not> i < j" using assms(2,5) ij by (auto simp: sorted_wrt_iff_nth_less equiv_def)
  moreover have "\<not> j < i" using assms(2,5) ij by (auto simp: sorted_wrt_iff_nth_less equiv_def)
  ultimately show ?thesis using ij by (simp add: linorder_neq_iff)
qed

lemma equiv_refl: "strict_weak_order lt \<Longrightarrow> equiv lt a a"
  by (simp add: equiv_def swo_irrefl)

lemma lookup_self:
  assumes "strict_weak_order lt" "sorted_wrt lt xs" "y \<in> set xs" "nilPair \<notin> set xs"
  shows "lookup lt nilPair y xs = y"
proof -
  have "lookup lt nilPair y xs \<noteq> nilPair"
    using lookup_nil_iff [OF assms(4), of lt y] assms(3) equiv_refl [OF assms(1)] by blast
  from lookup_in_set [OF this] have "lookup lt nilPair y xs \<in> set xs"
    "equiv lt y (lookup lt nilPair y xs)" by simp_all
  then show ?thesis using sorted_equiv_eq [OF assms(1,2,3)] by metis
qed

lemma set_del_self:
  assumes "strict_weak_order lt" "sorted_wrt lt xs" "y \<in> set xs"
  shows "set (del lt y xs) = set xs - {y}"
proof -
  have "\<And>z. z \<in> set xs \<Longrightarrow> (lt z y \<or> lt y z) \<longleftrightarrow> z \<noteq> y"
    using sorted_equiv_eq [OF assms(1,2) assms(3)] swo_irrefl [OF assms(1)]
    by (auto simp: equiv_def)
  then show ?thesis by (auto simp: del_def)
qed

lemma set_ups_new:
  assumes "strict_weak_order lt" "\<forall>y \<in> set xs. \<not> equiv lt x y"
  shows "set (ups lt x xs) = insert x (set xs)"
  using assms by (auto simp: ups_def equiv_def)

lemma tree_inv_Len: "tree_inv lt nilPair t \<Longrightarrow> Len t = int (length (contents t))"
  by (auto simp: tree_inv_def Len_def contents_def split: option.splits)

lemma tree_inv_sorted: "tree_inv lt nilPair t \<Longrightarrow> sorted_wrt lt (contents t)"
  by (auto simp: tree_inv_def contents_def split: option.splits)

lemma tree_inv_no_nil: "tree_inv lt nilPair t \<Longrightarrow> nilPair \<notin> set (contents t)"
  by (auto simp: tree_inv_def contents_def split: option.splits)

section \<open>Upsert semantics\<close>

lemma ReplaceOrInsert_upsert_inv:
  assumes swo: "strict_weak_order lt" and inv: "tree_inv lt nilPair t" and x: "item \<noteq> nilPair"
  shows "\<exists>out t'. ReplaceOrInsert lt nilPair item t = Inr (out, t') \<and> tree_inv lt nilPair t' \<and>
           (if \<exists>y \<in> set (contents t). equiv lt item y
            then out \<in> set (contents t) \<and> equiv lt item out \<and>
                 contents t' = map (\<lambda>z. if equiv lt item z then item else z) (contents t) \<and>
                 Len t' = Len t
            else out = nilPair \<and> Len t' = Len t + 1 \<and>
                 contents t' = filter (\<lambda>y. lt y item) (contents t) @ item #
                               filter (\<lambda>y. lt item y) (contents t)) \<and>
           sorted_wrt lt (contents t') \<and>
           (\<forall>a \<in> set (contents t'). \<forall>b \<in> set (contents t'). equiv lt a b \<longrightarrow> a = b)"
proof -
  from ReplaceOrInsert_correct [OF swo inv x]
  obtain t' where t': "ReplaceOrInsert lt nilPair item t = Inr (lookup lt nilPair item (contents t), t')"
    "tree_inv lt nilPair t'" "contents t' = ups lt item (contents t)" by blast
  note s = tree_inv_sorted [OF inv] and nn = tree_inv_no_nil [OF inv]
  note s' = tree_inv_sorted [OF t'(2)]
  have L: "Len t' = int (length (ups lt item (contents t)))" "Len t = int (length (contents t))"
    using tree_inv_Len [OF t'(2)] tree_inv_Len [OF inv] t'(3) by simp_all
  have uniq: "\<forall>a \<in> set (contents t'). \<forall>b \<in> set (contents t'). equiv lt a b \<longrightarrow> a = b"
    using sorted_equiv_eq [OF swo s'] by blast
  show ?thesis
  proof (cases "\<exists>y \<in> set (contents t). equiv lt item y")
    case True
    then have "lookup lt nilPair item (contents t) \<noteq> nilPair"
      using lookup_nil_iff [OF nn, of lt item] by simp
    from lookup_in_set [OF this] True t' s' uniq L length_ups [OF swo s, of item]
      ups_in_place [OF swo s True]
    show ?thesis by simp
  next
    case False
    then have "lookup lt nilPair item (contents t) = nilPair"
      using lookup_nil_iff [OF nn, of lt item] by simp
    with False t' s' uniq L length_ups [OF swo s, of item]
    show ?thesis by (simp add: ups_def)
  qed
qed

section \<open>Deleting a key that is not stored\<close>

lemma Delete_absent_inv:
  assumes swo: "strict_weak_order lt" and inv: "tree_inv lt nilPair t"
    and ab: "\<forall>y \<in> set (contents t). \<not> equiv lt key y"
  shows "\<exists>t'. Delete lt nilPair key t = Inr (nilPair, t') \<and> tree_inv lt nilPair t' \<and>
              Len t' = Len t \<and> contents t' = contents t"
proof -
  from deletePair_correct [OF swo inv, of key removePair]
  obtain t' where t': "Delete lt nilPair key t =
      Inr (if contents t = [] then nilPair else lookup lt nilPair key (contents t), t')"
    "tree_inv lt nilPair t'"
    "contents t' = (if contents t = [] then [] else del lt key (contents t))"
    by (auto simp: Delete_def rm_out_def rm_list_def)
  have "lookup lt nilPair key (contents t) = nilPair"
    using lookup_nil_iff [OF tree_inv_no_nil [OF inv], of lt key] ab by simp
  moreover have "del lt key (contents t) = contents t"
    using ab by (auto simp: del_def equiv_def intro!: filter_all)
  ultimately have "Delete lt nilPair key t = Inr (nilPair, t')" "contents t' = contents t"
    using t' by auto
  then show ?thesis using t'(2) tree_inv_Len [OF inv] tree_inv_Len [OF t'(2)] by auto
qed

section \<open>Operations on a tree without items\<close>

lemma find_items_Nil: "find_items lt x [] = (0, False)"
  by (simp add: find_items_def find_loop.simps)

lemma empty_ops_inv:
  assumes inv: "tree_inv lt nilPair t" and e: "Len t = 0"
  shows "Get lt nilPair key t = Inr nilPair \<and> Delete lt nilPair key t = Inr (nilPair, t) \<and>
         Min nilPair t = nilPair \<and> Max nilPair t = nilPair \<and>
         DeleteMin lt nilPair t = Inr (nilPair, t) \<and> DeleteMax lt nilPair t = Inr (nilPair, t)"
proof (cases "root t")
  case None
  then show ?thesis
    by (simp add: Get_def Delete_def DeleteMin_def DeleteMax_def deletePair_def Min_def Max_def
        min_node_def max_node_def)
next
  case (Some r)
  have "contents t = []" using tree_inv_Len [OF inv] e by simp
  then have io: "inorder r = []" using Some by (simp add: contents_def)
  then have "items r = []" using set_items_inorder [of r] by auto
  moreover from inv Some have "children r \<noteq> [] \<longrightarrow> items r \<noteq> []" by (simp add: tree_inv_def)
  ultimately have r: "r = Node [] []" by (cases r) auto
  have g: "get lt nilPair key (Node [] []) = Some nilPair"
    by (subst get.simps) (simp add: find_items_Nil)
  have m: "min_loop (Node [] []) = Node [] []" "max_loop (Node [] []) = Node [] []"
    by (simp_all add: min_loop.simps max_loop.simps)
  show ?thesis using Some
    by (simp add: r g m Get_def Delete_def DeleteMin_def DeleteMax_def deletePair_def Min_def
        Max_def min_node_def max_node_def Let_def)
qed

section \<open>Insert everything, then delete everything\<close>

definition distinct_keys :: "('a \<Rightarrow> 'a \<Rightarrow> bool) \<Rightarrow> 'a list \<Rightarrow> bool" where
  "distinct_keys lt xs \<longleftrightarrow>
     distinct xs \<and> (\<forall>a \<in> set xs. \<forall>b \<in> set xs. \<not> lt a b \<and> \<not> lt b a \<longrightarrow> a = b)"

fun delete_each ::
  "('a \<Rightarrow> 'a \<Rightarrow> bool) \<Rightarrow> 'a \<Rightarrow> 'a list \<Rightarrow> 'a PairTree \<Rightarrow> 'a error + ('a list \<times> 'a PairTree)" where
  "delete_each lt nilPair [] t = Inr ([], t)"
| "delete_each lt nilPair (y # ys) t =
     (case Delete lt nilPair y t of
        Inl e \<Rightarrow> Inl e
      | Inr (out, t') \<Rightarrow>
          (case delete_each lt nilPair ys t' of
             Inl e \<Rightarrow> Inl e
           | Inr (outs, t'') \<Rightarrow> Inr (out # outs, t'')))"

lemma insert_all:
  assumes swo: "strict_weak_order lt"
  shows "tree_inv lt nilPair t0 \<Longrightarrow> nilPair \<notin> set xs \<Longrightarrow> distinct_keys lt xs \<Longrightarrow>
         \<forall>x \<in> set xs. \<forall>y \<in> set (contents t0). \<not> equiv lt x y \<Longrightarrow>
         \<exists>t1. run lt nilPair (map OpReplaceOrInsert xs) t0 = Inr t1 \<and> tree_inv lt nilPair t1 \<and>
              set (contents t1) = set (contents t0) \<union> set xs \<and>
              length (contents t1) = length (contents t0) + length xs"
proof (induction xs arbitrary: t0)
  case Nil
  then show ?case by simp
next
  case (Cons x xs)
  have xn: "x \<noteq> nilPair" using Cons.prems(2) by auto
  from ReplaceOrInsert_correct [OF swo Cons.prems(1) xn]
  obtain t' where t': "ReplaceOrInsert lt nilPair x t0 = Inr (lookup lt nilPair x (contents t0), t')"
    "tree_inv lt nilPair t'" "contents t' = ups lt x (contents t0)" by blast
  have nx: "\<forall>y \<in> set (contents t0). \<not> equiv lt x y" using Cons.prems(4) by simp
  have st: "set (contents t') = insert x (set (contents t0))"
    using set_ups_new [OF swo nx] t'(3) by simp
  have ln: "length (contents t') = length (contents t0) + 1"
    using length_ups [OF swo tree_inv_sorted [OF Cons.prems(1)], of x] nx t'(3) by simp
  have dk: "distinct_keys lt xs" using Cons.prems(3) by (auto simp: distinct_keys_def)
  have "\<forall>a \<in> set xs. \<not> equiv lt a x"
    using Cons.prems(3) by (auto simp: distinct_keys_def equiv_def)
  then have pre: "\<forall>a \<in> set xs. \<forall>y \<in> set (contents t'). \<not> equiv lt a y"
    using Cons.prems(4) st by auto
  from Cons.IH [OF t'(2) _ dk pre] Cons.prems(2)
  obtain t1 where t1: "run lt nilPair (map OpReplaceOrInsert xs) t' = Inr t1"
    "tree_inv lt nilPair t1" "set (contents t1) = set (contents t') \<union> set xs"
    "length (contents t1) = length (contents t') + length xs" by auto
  show ?case using t'(1) t1 st ln by (auto simp: apply_op_def)
qed

lemma delete_all:
  assumes swo: "strict_weak_order lt"
  shows "tree_inv lt nilPair t \<Longrightarrow> distinct ys \<Longrightarrow> set ys \<subseteq> set (contents t) \<Longrightarrow>
         \<exists>t2. delete_each lt nilPair ys t = Inr (ys, t2) \<and> tree_inv lt nilPair t2 \<and>
              set (contents t2) = set (contents t) - set ys"
proof (induction ys arbitrary: t)
  case Nil
  then show ?case by simp
next
  case (Cons y ys)
  have yin: "y \<in> set (contents t)" using Cons.prems(3) by simp
  then have ne: "contents t \<noteq> []" by auto
  note s = tree_inv_sorted [OF Cons.prems(1)] and nn = tree_inv_no_nil [OF Cons.prems(1)]
  from deletePair_correct [OF swo Cons.prems(1), of y removePair] ne
  obtain t' where t': "Delete lt nilPair y t = Inr (lookup lt nilPair y (contents t), t')"
    "tree_inv lt nilPair t'" "contents t' = del lt y (contents t)"
    by (auto simp: Delete_def rm_out_def rm_list_def)
  have out: "lookup lt nilPair y (contents t) = y" using lookup_self [OF swo s yin nn] .
  have st: "set (contents t') = set (contents t) - {y}"
    using set_del_self [OF swo s yin] t'(3) by simp
  have sub: "set ys \<subseteq> set (contents t')" using Cons.prems(2,3) st by auto
  from Cons.IH [OF t'(2) _ sub] Cons.prems(2)
  obtain t2 where t2: "delete_each lt nilPair ys t' = Inr (ys, t2)" "tree_inv lt nilPair t2"
    "set (contents t2) = set (contents t') - set ys" by auto
  show ?case using t'(1) out t2 st by auto
qed


section \<open>Range scans\<close>

text \<open>
  \<open>feed_until past iter xs s\<close> hands the items \<open>xs\<close> to the consumer one after the other
  until an item is \<open>past\<close> the bound or the consumer answers \<open>False\<close>; the result is whether
  the list was exhausted, and the consumer's final state.  \<open>feed\<close> is the case without a bound.
\<close>

fun feed_until :: "('a \<Rightarrow> bool) \<Rightarrow> ('a \<Rightarrow> 's \<Rightarrow> bool \<times> 's) \<Rightarrow> 'a list \<Rightarrow> 's \<Rightarrow> bool \<times> 's" where
  "feed_until past iter [] s = (True, s)"
| "feed_until past iter (x # xs) s =
     (if past x then (False, s)
      else case iter x s of (c, s') \<Rightarrow> if c then feed_until past iter xs s' else (False, s'))"

definition feed :: "('a \<Rightarrow> 's \<Rightarrow> bool \<times> 's) \<Rightarrow> 'a list \<Rightarrow> 's \<Rightarrow> bool \<times> 's" where
  "feed iter = feed_until (\<lambda>x. False) iter"

lemma feed_simps [simp]:
  "feed iter [] s = (True, s)"
  "feed iter (x # xs) s = (case iter x s of (c, s') \<Rightarrow> if c then feed iter xs s' else (False, s'))"
  by (simp_all add: feed_def split: prod.splits)

lemma feed_until_append:
  "feed_until past iter (A @ B) s =
     (case feed_until past iter A s of (c, s') \<Rightarrow> if c then feed_until past iter B s' else (False, s'))"
  by (induction A arbitrary: s) (simp_all split: prod.splits)

lemma feed_append:
  "feed iter (A @ B) s = (case feed iter A s of (c, s') \<Rightarrow> if c then feed iter B s' else (False, s'))"
  by (simp add: feed_def feed_until_append split: prod.splits)

lemma feed_until_takeWhile:
  "snd (feed_until past iter xs s) = snd (feed iter (takeWhile (\<lambda>x. \<not> past x) xs) s)"
  by (induction xs arbitrary: s) (simp_all split: prod.splits)

lemma feed_record_all: "feed record_all xs acc = (True, acc @ xs)"
  by (induction xs arbitrary: acc) (simp_all add: record_all_def)

definition rest_from :: "'a node \<Rightarrow> nat \<Rightarrow> 'a list" where
  "rest_from n i = interleave (map inorder (drop i (children n))) (drop i (items n))"

lemma rest_from_0: "rest_from n 0 = inorder n"
  by (cases n) (simp add: rest_from_def)

lemma rest_from_end:
  assumes "children n = [] \<or> length (children n) = length (items n) + 1"
  shows "rest_from n (length (items n)) =
           (if children n = [] then [] else inorder (children n ! length (items n)))"
proof (cases "children n = []")
  case True
  then show ?thesis by (simp add: rest_from_def)
next
  case False
  with assms have l: "length (children n) = Suc (length (items n))" by simp
  then have "drop (length (items n)) (children n) = [children n ! length (items n)]"
    by (metis Cons_nth_drop_Suc drop_all lessI order_refl)
  then show ?thesis using False by (simp add: rest_from_def)
qed

lemma rest_from_step:
  assumes "children n = [] \<or> length (children n) = length (items n) + 1" "i < length (items n)"
  shows "rest_from n i =
           (if children n = [] then [] else inorder (children n ! i)) @
           items n ! i # rest_from n (Suc i)"
proof (cases "children n = []")
  case True
  then show ?thesis using assms(2) by (simp add: rest_from_def Cons_nth_drop_Suc [symmetric])
next
  case False
  with assms have "i < length (children n)" by simp
  then show ?thesis using False assms(2)
    by (simp add: rest_from_def Cons_nth_drop_Suc [symmetric])
qed

lemma asc_end_leaf:
  assumes "\<not> i < length (items n)" "children n = []"
  shows "ascend_from lt nilPair start stop incl iter n i hit s = Some (hit, True, s)"
  using assms by (subst ascend_from.simps) simp

lemma asc_end_inner:
  assumes "\<not> i < length (items n)" "children n \<noteq> []"
  shows "ascend_from lt nilPair start stop incl iter n i hit s =
           ascend_from lt nilPair start stop incl iter (children n ! (length (children n) - 1)) 0 hit s"
  using assms by (subst ascend_from.simps) (simp add: nth_opt_def)

lemma asc_skip:
  assumes "i < length (items n)" "start \<noteq> nilPair" "lt (items n ! i) start"
  shows "ascend_from lt nilPair start stop incl iter n i hit s =
           ascend_from lt nilPair start stop incl iter n (i + 1) hit s"
  using assms by (subst ascend_from.simps) simp

lemma asc_item:
  assumes "i < length (items n)" "\<not> (start \<noteq> nilPair \<and> lt (items n ! i) start)"
    "incl \<or> start = nilPair" "children n = [] \<or> i < length (children n)"
  shows "ascend_from lt nilPair start stop incl iter n i hit s =
     do { (hit1, ok, s1) \<leftarrow>
            (if children n \<noteq> []
             then ascend_from lt nilPair start stop incl iter (children n ! i) 0 hit s
             else Some (hit, True, s));
          if \<not> ok then Some (hit1, False, s1)
          else if stop \<noteq> nilPair \<and> \<not> lt (items n ! i) stop then Some (True, False, s1)
          else (case iter (items n ! i) s1 of
                  (continue, s2) \<Rightarrow>
                    if \<not> continue then Some (True, False, s2)
                    else ascend_from lt nilPair start stop incl iter n (i + 1) True s2) }"
proof -
  have a: "(\<not> incl \<and> \<not> h1 \<and> start \<noteq> nilPair \<and> \<not> lt start (items n ! i)) = False" for h1
    using assms(3) by blast
  have b: "(start \<noteq> nilPair \<and> lt (items n ! i) start) = False" using assms(2) by blast
  show ?thesis
  proof (cases "children n = []")
    case True
    show ?thesis
      by (subst ascend_from.simps)
        (simp only: a b assms(1) True if_True if_False list.size less_irrefl simp_thms)
  next
    case False
    then have c: "nth_opt (children n) i = Some (children n ! i)" "0 < length (children n)"
      using assms(4) by (simp_all add: nth_opt_def)
    show ?thesis
      by (subst ascend_from.simps)
        (simp only: a b c assms(1) False if_True if_False simp_thms bind.bind_lunit)
  qed
qed

text \<open>One round of the ascending loop at an item that is not skipped, given the outcome of
  the scan of the child before it.\<close>

lemma asc_item_step:
  assumes "i < length (items n)" "\<not> (start \<noteq> nilPair \<and> lt (items n ! i) start)"
    "incl \<or> start = nilPair" "children n = [] \<or> i < length (children n)"
    "(if children n \<noteq> []
      then ascend_from lt nilPair start stop incl iter (children n ! i) 0 hit s
      else Some (hit, True, s)) = Some (h1, ok1, s1)"
    "iter (items n ! i) s1 = (c, s2)"
  shows "ascend_from lt nilPair start stop incl iter n i hit s =
     (if \<not> ok1 then Some (h1, False, s1)
      else if stop \<noteq> nilPair \<and> \<not> lt (items n ! i) stop then Some (True, False, s1)
      else if \<not> c then Some (True, False, s2)
      else ascend_from lt nilPair start stop incl iter n (Suc i) True s2)"
  unfolding asc_item [where lt = lt and n = n and i = i and start = start and nilPair = nilPair
      and incl = incl and iter = iter and hit = hit and s = s and stop = stop, OF assms(1-4)]
    assms(5) by (simp add: assms(6))

text \<open>The outcome of a scan: it returns, with some hit flag, the given continue flag and
  consumer state.\<close>

definition yields :: "(bool \<times> bool \<times> 's) option \<Rightarrow> bool \<times> 's \<Rightarrow> bool" where
  "yields r v \<longleftrightarrow> (\<exists>h. r = Some (h, fst v, snd v))"

lemma yieldsI: "r = Some (h, ok, s) \<Longrightarrow> yields r (ok, s)"
  by (simp add: yields_def)

lemma yieldsE: "yields r v \<Longrightarrow> \<exists>h. r = Some (h, fst v, snd v)"
  by (simp add: yields_def)

abbreviation keep_from :: "('a \<Rightarrow> 'a \<Rightarrow> bool) \<Rightarrow> 'a \<Rightarrow> 'a \<Rightarrow> 'a \<Rightarrow> bool" where
  "keep_from lt nilPair start \<equiv> (\<lambda>x. start = nilPair \<or> \<not> lt x start)"

abbreviation past_stop :: "('a \<Rightarrow> 'a \<Rightarrow> bool) \<Rightarrow> 'a \<Rightarrow> 'a \<Rightarrow> 'a \<Rightarrow> bool" where
  "past_stop lt nilPair stop \<equiv> (\<lambda>x. stop \<noteq> nilPair \<and> \<not> lt x stop)"

lemma ascend_from_correct:
  assumes swo: "strict_weak_order lt" and incl: "incl \<or> start = nilPair"
  shows "btree_at lo hi h n \<Longrightarrow> sorted_wrt lt (inorder n) \<Longrightarrow> i \<le> length (items n) \<Longrightarrow>
         yields (ascend_from lt nilPair start stop incl iter n i hit s)
           (feed_until (past_stop lt nilPair stop) iter
              (filter (keep_from lt nilPair start) (rest_from n i)) s)"
proof (induction h arbitrary: n i hit s)
  case 0
  then have leaf: "children n = []" by (simp add: btree_at_0)
  from "0.prems"(3) show ?case
  proof (induction "length (items n) - i" arbitrary: i hit s)
    case 0
    then have "i = length (items n)" by simp
    then show ?case using leaf
      by (simp add: asc_end_leaf rest_from_def yields_def)
  next
    case (Suc k)
    then have il: "i < length (items n)" by simp
    have IH: "yields (ascend_from lt nilPair start stop incl iter n (Suc i) hit' s')
           (feed_until (past_stop lt nilPair stop) iter
              (filter (keep_from lt nilPair start) (rest_from n (Suc i))) s')" for hit' s'
      using Suc(1) [of "Suc i"] Suc(2) il by simp
    have rs: "rest_from n i = items n ! i # rest_from n (Suc i)"
      using rest_from_step [of n i] leaf il by simp
    show ?case
    proof (cases "start \<noteq> nilPair \<and> lt (items n ! i) start")
      case True
      then have "ascend_from lt nilPair start stop incl iter n i hit s =
          ascend_from lt nilPair start stop incl iter n (Suc i) hit s"
        using asc_skip [where lt = lt and n = n and i = i and start = start and nilPair = nilPair
            and incl = incl and iter = iter and hit = hit and s = s and stop = stop] il by simp
      then show ?thesis using IH [of hit s] True by (simp add: rs)
    next
      case False
      obtain c s2 where it: "iter (items n ! i) s = (c, s2)" by (cases "iter (items n ! i) s")
      have st: "ascend_from lt nilPair start stop incl iter n i hit s =
         (if stop \<noteq> nilPair \<and> \<not> lt (items n ! i) stop then Some (True, False, s)
          else if \<not> c then Some (True, False, s2)
          else ascend_from lt nilPair start stop incl iter n (Suc i) True s2)"
        using asc_item_step [where lt = lt and n = n and i = i and start = start
            and nilPair = nilPair and incl = incl and iter = iter and hit = hit and s = s
            and ?h1.0 = hit and ?ok1.0 = True and ?s1.0 = s and c = c and ?s2.0 = s2 and stop = stop]
          il False incl leaf it by simp
      define FR where "FR = filter (keep_from lt nilPair start) (rest_from n (Suc i))"
      have fl: "filter (keep_from lt nilPair start) (rest_from n i) = items n ! i # FR"
        using False by (simp add: rs FR_def)
      have goal: "feed_until (past_stop lt nilPair stop) iter (items n ! i # FR) s =
         (if stop \<noteq> nilPair \<and> \<not> lt (items n ! i) stop then (False, s)
          else if \<not> c then (False, s2)
          else feed_until (past_stop lt nilPair stop) iter FR s2)"
        by (simp add: it)
      show ?thesis
      proof (cases "(stop \<noteq> nilPair \<and> \<not> lt (items n ! i) stop) \<or> \<not> c")
        case True
        then show ?thesis unfolding fl goal st by (auto simp: yields_def)
      next
        case False
        then show ?thesis unfolding fl goal st using IH [of True s2] by (auto simp: FR_def)
      qed
    qed
  qed
next
  case (Suc h)
  note srt = Suc.prems(2)
  from Suc.prems(1) have len: "length (children n) = length (items n) + 1"
    and kids: "\<forall>c \<in> set (children n). good lo hi h c" by (simp_all add: btree_at_Suc_good)
  have nonleaf: "children n \<noteq> []" using len by auto
  have child: "yields (ascend_from lt nilPair start stop incl iter (children n ! j) 0 hit' s')
         (feed_until (past_stop lt nilPair stop) iter
            (filter (keep_from lt nilPair start) (inorder (children n ! j))) s')"
    if j: "j \<le> length (items n)" for j hit' s'
  proof -
    have jc: "j < length (children n)" using len j by simp
    then have "btree_at lo hi h (children n ! j)" using kids by (simp add: good_def)
    moreover have "sorted_wrt lt (inorder (children n ! j))"
      using sorted_child [OF Suc.prems(2) jc j] .
    ultimately show ?thesis
      using Suc.IH [of "children n ! j" 0 hit' s'] by (simp add: rest_from_0)
  qed
  from Suc.prems(3) show ?case
  proof (induction "length (items n) - i" arbitrary: i hit s)
    case 0
    then have i: "i = length (items n)" by simp
    have "rest_from n i = inorder (children n ! length (items n))"
      using rest_from_end [of n] len nonleaf i by simp
    moreover have "ascend_from lt nilPair start stop incl iter n i hit s =
        ascend_from lt nilPair start stop incl iter (children n ! length (items n)) 0 hit s"
      using asc_end_inner [where lt = lt and n = n and i = i and start = start and nilPair = nilPair
            and incl = incl and iter = iter and hit = hit and s = s and stop = stop] i nonleaf len by simp
    ultimately show ?case using child [of "length (items n)" hit s] by simp
  next
    case (Suc k)
    then have il: "i < length (items n)" by simp
    then have ic: "i < length (children n)" using len by simp
    have IH: "yields (ascend_from lt nilPair start stop incl iter n (Suc i) hit' s')
           (feed_until (past_stop lt nilPair stop) iter
              (filter (keep_from lt nilPair start) (rest_from n (Suc i))) s')" for hit' s'
      using Suc(1) [of "Suc i"] Suc(2) il by simp
    define C where "C = inorder (children n ! i)"
    define x where "x = items n ! i"
    have rs: "rest_from n i = C @ x # rest_from n (Suc i)"
      using rest_from_step [of n i] len nonleaf il by (simp add: C_def x_def)
    have ion: "inorder n = Lpart n i @ C @ Rpart n i"
      using inorder_around [OF ic] il by (simp add: C_def)
    have Cx: "\<forall>y \<in> set C. lt y x"
    proof -
      have "Rpart n i = x # interleave (map inorder (drop (Suc i) (children n)))
          (drop (Suc i) (items n))"
        using il by (simp add: Rpart_def x_def Cons_nth_drop_Suc [symmetric])
      then show ?thesis using srt ion by (auto simp: sorted_wrt_append)
    qed
    define FC where "FC = filter (keep_from lt nilPair start) C"
    define FR where "FR = filter (keep_from lt nilPair start) (rest_from n (Suc i))"
    show ?case
    proof (cases "start \<noteq> nilPair \<and> lt x start")
      case True
      then have "\<forall>y \<in> set C. lt y start" using Cx swo_trans [OF swo] by blast
      then have "FC = []" using True by (auto simp: FC_def intro!: filter_none)
      then have fl: "filter (keep_from lt nilPair start) (rest_from n i) = FR"
        using True by (simp add: rs FC_def FR_def)
      have "ascend_from lt nilPair start stop incl iter n i hit s =
          ascend_from lt nilPair start stop incl iter n (Suc i) hit s"
        using asc_skip [where lt = lt and n = n and i = i and start = start and nilPair = nilPair
            and incl = incl and iter = iter and hit = hit and s = s and stop = stop] il True
        by (simp add: x_def)
      then show ?thesis using IH [of hit s] by (simp add: fl FR_def)
    next
      case False
      have fl: "filter (keep_from lt nilPair start) (rest_from n i) = FC @ x # FR"
        using False by (simp add: rs FC_def FR_def)
      obtain ok1 s1 where f1: "feed_until (past_stop lt nilPair stop) iter FC s = (ok1, s1)"
        by (cases "feed_until (past_stop lt nilPair stop) iter FC s")
      from child [of i hit s] il obtain h1 where
        rc: "ascend_from lt nilPair start stop incl iter (children n ! i) 0 hit s =
           Some (h1, ok1, s1)"
        using f1 by (auto simp: yields_def C_def FC_def)
      obtain c s2 where it: "iter x s1 = (c, s2)" by (cases "iter x s1")
      have st: "ascend_from lt nilPair start stop incl iter n i hit s =
         (if \<not> ok1 then Some (h1, False, s1)
          else if stop \<noteq> nilPair \<and> \<not> lt x stop then Some (True, False, s1)
          else if \<not> c then Some (True, False, s2)
          else ascend_from lt nilPair start stop incl iter n (Suc i) True s2)"
        using asc_item_step [where lt = lt and n = n and i = i and start = start
            and nilPair = nilPair and incl = incl and iter = iter and hit = hit and s = s
            and ?h1.0 = h1 and ?ok1.0 = ok1 and ?s1.0 = s1 and c = c and ?s2.0 = s2 and stop = stop]
          il False incl ic it rc nonleaf by (simp add: x_def)
      have goal: "feed_until (past_stop lt nilPair stop) iter (FC @ x # FR) s =
         (if \<not> ok1 then (False, s1)
          else if stop \<noteq> nilPair \<and> \<not> lt x stop then (False, s1)
          else if \<not> c then (False, s2)
          else feed_until (past_stop lt nilPair stop) iter FR s2)"
        by (simp add: feed_until_append f1 it)
      show ?thesis
      proof (cases "\<not> ok1 \<or> (stop \<noteq> nilPair \<and> \<not> lt x stop) \<or> \<not> c")
        case True
        then show ?thesis unfolding fl goal st by (auto simp: yields_def)
      next
        case False
        then show ?thesis unfolding fl goal st using IH [of True s2] by (auto simp: FR_def)
      qed
    qed
  qed
qed


text \<open>The items a descending scan of a node still has to visit when \<open>k\<close> of the node's
  items remain: the first \<open>k\<close> items and the children around them.\<close>

definition upto_k :: "'a node \<Rightarrow> nat \<Rightarrow> 'a list" where
  "upto_k n k = interleave (map inorder (take (Suc k) (children n))) (take k (items n))"

lemma upto_k_all:
  assumes "children n = [] \<or> length (children n) = length (items n) + 1"
  shows "upto_k n (length (items n)) = inorder n"
  using assms by (cases n) (auto simp: upto_k_def)

lemma upto_k_0:
  "upto_k n 0 = (if children n = [] then [] else inorder (children n ! 0))"
  by (cases "children n") (simp_all add: upto_k_def)

lemma interleave_take_step:
  "length cs = length xs + 1 \<Longrightarrow> k < length xs \<Longrightarrow>
   interleave (take (Suc (Suc k)) cs) (take (Suc k) xs) =
   interleave (take (Suc k) cs) (take k xs) @ xs ! k # cs ! Suc k"
proof (induction k arbitrary: cs xs)
  case 0
  then obtain c c1 cs' x xs' where "cs = c # c1 # cs'" "xs = x # xs'"
    by (cases cs; cases xs; cases "tl cs") auto
  then show ?case by simp
next
  case (Suc k)
  then obtain c cs' x xs' where e: "cs = c # cs'" "xs = x # xs'"
    by (cases cs; cases xs) auto
  with Suc.prems have "length cs' = length xs' + 1" "k < length xs'" by simp_all
  from Suc.IH [OF this] show ?case by (simp add: e)
qed

lemma upto_k_step:
  assumes "children n = [] \<or> length (children n) = length (items n) + 1" "k < length (items n)"
  shows "upto_k n (Suc k) =
           upto_k n k @ items n ! k #
           (if children n = [] then [] else inorder (children n ! Suc k))"
proof (cases "children n = []")
  case True
  then show ?thesis using assms(2) by (simp add: upto_k_def take_Suc_conv_app_nth)
next
  case False
  with assms have l: "length (map inorder (children n)) = length (items n) + 1" by simp
  from interleave_take_step [OF l assms(2)] False assms l
  show ?thesis by (simp add: upto_k_def take_map)
qed

lemma dsc_end_leaf:
  assumes "i < 0" "children n = []"
  shows "descend_from lt nilPair start stop incl iter n i hit s = Some (hit, True, s)"
  using assms by (subst descend_from.simps) simp

lemma dsc_end_inner:
  assumes "i < 0" "children n \<noteq> []"
  shows "descend_from lt nilPair start stop incl iter n i hit s =
           descend_from lt nilPair start stop incl iter (children n ! 0)
             (int (length (items (children n ! 0))) - 1) hit s"
  using assms by (subst descend_from.simps) (simp add: nth_opt_def)

lemma dsc_item_step:
  assumes "k < length (items n)" "children n = [] \<or> Suc k < length (children n)"
    "(if children n \<noteq> []
      then descend_from lt nilPair nilPair nilPair incl iter (children n ! Suc k)
             (int (length (items (children n ! Suc k))) - 1) hit s
      else Some (hit, True, s)) = Some (h1, ok1, s1)"
    "iter (items n ! k) s1 = (c, s2)"
  shows "descend_from lt nilPair nilPair nilPair incl iter n (int k) hit s =
     (if \<not> ok1 then Some (h1, False, s1)
      else if \<not> c then Some (True, False, s2)
      else descend_from lt nilPair nilPair nilPair incl iter n (int k - 1) True s2)"
proof (cases "children n = []")
  case True
  with assms(3) have e: "h1 = hit" "ok1 = True" "s1 = s" by simp_all
  have nk: "(length (items n) \<le> k) = False" using assms(1) by simp
  show ?thesis
    by (subst descend_from.simps) (simp add: True nk assms(4) [unfolded e] e)
next
  case False
  then have c: "nth_opt (children n) (Suc k) = Some (children n ! Suc k)"
    using assms(2) by (simp add: nth_opt_def)
  from assms(3) False have r: "descend_from lt nilPair nilPair nilPair incl iter (children n ! Suc k)
             (int (length (items (children n ! Suc k))) - 1) hit s = Some (h1, ok1, s1)" by simp
  have nk: "(length (items n) \<le> k) = False" using assms(1) by simp
  show ?thesis
    by (subst descend_from.simps) (simp add: False nk assms(4) c r)
qed

lemma descend_from_correct:
  "btree_at lo hi h n \<Longrightarrow> k \<le> length (items n) \<Longrightarrow>
   yields (descend_from lt nilPair nilPair nilPair incl iter n (int k - 1) hit s)
     (feed iter (rev (upto_k n k)) s)"
proof (induction h arbitrary: n k hit s)
  case 0
  then have leaf: "children n = []" by (simp add: btree_at_0)
  from "0.prems"(2) show ?case
  proof (induction k arbitrary: hit s)
    case 0
    show ?case using leaf by (simp add: dsc_end_leaf upto_k_0 yields_def)
  next
    case (Suc k)
    then have kl: "k < length (items n)" by simp
    have IH: "yields (descend_from lt nilPair nilPair nilPair incl iter n (int k - 1) hit' s')
       (feed iter (rev (upto_k n k)) s')" for hit' s'
      using Suc.IH kl by simp
    obtain c s2 where it: "iter (items n ! k) s = (c, s2)" by (cases "iter (items n ! k) s")
    have st: "descend_from lt nilPair nilPair nilPair incl iter n (int k) hit s =
       (if \<not> c then Some (True, False, s2)
        else descend_from lt nilPair nilPair nilPair incl iter n (int k - 1) True s2)"
      using dsc_item_step [where lt = lt and nilPair = nilPair and incl = incl and iter = iter
          and n = n and k = k and hit = hit and s = s and ?h1.0 = hit and ?ok1.0 = True
          and ?s1.0 = s and c = c and ?s2.0 = s2] kl leaf it by simp
    have up: "rev (upto_k n (Suc k)) = items n ! k # rev (upto_k n k)"
      using upto_k_step [of n k] leaf kl by simp
    show ?case
    proof (cases c)
      case True
      then show ?thesis using IH [of True s2] by (simp add: st up it)
    next
      case False
      then show ?thesis by (auto simp: st up it yields_def)
    qed
  qed
next
  case (Suc h)
  from Suc.prems(1) have len: "length (children n) = length (items n) + 1"
    and kids: "\<forall>c \<in> set (children n). good lo hi h c" by (simp_all add: btree_at_Suc_good)
  have nonleaf: "children n \<noteq> []" using len by auto
  have child: "yields (descend_from lt nilPair nilPair nilPair incl iter (children n ! j)
           (int (length (items (children n ! j))) - 1) hit' s')
         (feed iter (rev (inorder (children n ! j))) s')"
    if j: "j \<le> length (items n)" for j hit' s'
  proof -
    have jc: "j < length (children n)" using len j by simp
    then have b: "btree_at lo hi h (children n ! j)" using kids by (simp add: good_def)
    then have "children (children n ! j) = [] \<or>
        length (children (children n ! j)) = length (items (children n ! j)) + 1"
      by (cases h) (simp_all add: btree_at_0 btree_at_Suc)
    from upto_k_all [OF this] Suc.IH [OF b order_refl, of hit' s']
    show ?thesis by simp
  qed
  from Suc.prems(2) show ?case
  proof (induction k arbitrary: hit s)
    case 0
    have "descend_from lt nilPair nilPair nilPair incl iter n (int 0 - 1) hit s =
           descend_from lt nilPair nilPair nilPair incl iter (children n ! 0)
             (int (length (items (children n ! 0))) - 1) hit s"
      using dsc_end_inner [where n = n and i = "- 1" and lt = lt and nilPair = nilPair
          and start = nilPair and stop = nilPair and incl = incl and iter = iter and hit = hit
          and s = s] nonleaf by simp
    then show ?case using child [of 0 hit s] nonleaf by (simp add: upto_k_0)
  next
    case (Suc k)
    then have kl: "k < length (items n)" by simp
    have IH: "yields (descend_from lt nilPair nilPair nilPair incl iter n (int k - 1) hit' s')
       (feed iter (rev (upto_k n k)) s')" for hit' s'
      using Suc.IH kl by simp
    define C where "C = rev (inorder (children n ! Suc k))"
    obtain ok1 s1 where f1: "feed iter C s = (ok1, s1)" by (cases "feed iter C s")
    from child [of "Suc k" hit s] kl obtain h1 where
      rc: "descend_from lt nilPair nilPair nilPair incl iter (children n ! Suc k)
             (int (length (items (children n ! Suc k))) - 1) hit s = Some (h1, ok1, s1)"
      using f1 by (auto simp: yields_def C_def)
    obtain c s2 where it: "iter (items n ! k) s1 = (c, s2)" by (cases "iter (items n ! k) s1")
    have st: "descend_from lt nilPair nilPair nilPair incl iter n (int k) hit s =
       (if \<not> ok1 then Some (h1, False, s1)
        else if \<not> c then Some (True, False, s2)
        else descend_from lt nilPair nilPair nilPair incl iter n (int k - 1) True s2)"
      using dsc_item_step [where lt = lt and nilPair = nilPair and incl = incl and iter = iter
          and n = n and k = k and hit = hit and s = s and ?h1.0 = h1 and ?ok1.0 = ok1
          and ?s1.0 = s1 and c = c and ?s2.0 = s2] kl len nonleaf it rc by simp
    have up: "rev (upto_k n (Suc k)) = C @ items n ! k # rev (upto_k n k)"
      using upto_k_step [of n k] len nonleaf kl by (simp add: C_def)
    have goal: "feed iter (C @ items n ! k # rev (upto_k n k)) s =
       (if \<not> ok1 then (False, s1)
        else if \<not> c then (False, s2)
        else feed iter (rev (upto_k n k)) s2)"
      by (simp add: feed_append f1 it)
    have e: "int (Suc k) - 1 = int k" by simp
    show ?case
    proof (cases "\<not> ok1 \<or> \<not> c")
      case True
      then show ?thesis unfolding up goal e st by (auto simp: yields_def)
    next
      case False
      then show ?thesis unfolding up goal e st using IH [of True s2] by auto
    qed
  qed
qed

section \<open>Scans of a tree\<close>

lemma btree_shape:
  "btree_at lo hi h n \<Longrightarrow> children n = [] \<or> length (children n) = length (items n) + 1"
  by (cases h) (simp_all add: btree_at_0 btree_at_Suc)

lemma takeWhile_sorted_filter:
  assumes "strict_weak_order lt" "sorted_wrt lt xs"
  shows "takeWhile (\<lambda>x. lt x b) xs = filter (\<lambda>x. lt x b) xs"
  using assms(2)
proof (induction xs)
  case Nil
  then show ?case by simp
next
  case (Cons x xs)
  show ?case
  proof (cases "lt x b")
    case True
    then show ?thesis using Cons by simp
  next
    case False
    have "\<not> lt y b" if "y \<in> set xs" for y
    proof
      assume "lt y b"
      moreover have "lt x y" using Cons.prems that by simp
      ultimately show False using False swo_trans [OF assms(1)] by blast
    qed
    then have "filter (\<lambda>x. lt x b) xs = []" by (auto intro!: filter_none)
    then show ?thesis using False by simp
  qed
qed

lemma takeWhile_True: "takeWhile (\<lambda>x. True) xs = xs"
  by (induction xs) simp_all

lemma scan_ascend:
  assumes swo: "strict_weak_order lt" and inv: "tree_inv lt nilPair t"
    and incl: "incl \<or> start = nilPair"
  shows "scan lt nilPair ascend start stop incl iter t s =
     Some (snd (feed iter (takeWhile (\<lambda>x. stop = nilPair \<or> lt x stop)
                  (filter (keep_from lt nilPair start) (contents t))) s))"
proof (cases "root t")
  case None
  then show ?thesis by (simp add: scan_def contents_def)
next
  case (Some r)
  with inv have b: "btree_at (minPairs t) (maxPairs t) (height r) r"
    and srt: "sorted_wrt lt (inorder r)" by (simp_all add: tree_inv_def)
  from ascend_from_correct [OF swo incl b srt, of 0 stop iter False s]
  obtain h where "ascend_from lt nilPair start stop incl iter r 0 False s =
      Some (h, feed_until (past_stop lt nilPair stop) iter
                 (filter (keep_from lt nilPair start) (inorder r)) s)"
    by (auto simp: yields_def rest_from_0)
  moreover have "snd (feed_until (past_stop lt nilPair stop) iter
                 (filter (keep_from lt nilPair start) (inorder r)) s) =
      snd (feed iter (takeWhile (\<lambda>x. stop = nilPair \<or> lt x stop)
                  (filter (keep_from lt nilPair start) (inorder r))) s)"
    using feed_until_takeWhile [of "past_stop lt nilPair stop" iter
        "filter (keep_from lt nilPair start) (inorder r)" s] by simp
  ultimately show ?thesis using Some
    by (auto simp: scan_def iterate_def contents_def split: prod.splits)
qed

lemma scan_descend:
  assumes inv: "tree_inv lt nilPair t"
  shows "scan lt nilPair descend nilPair nilPair incl iter t s =
     Some (snd (feed iter (rev (contents t)) s))"
proof (cases "root t")
  case None
  then show ?thesis by (simp add: scan_def contents_def)
next
  case (Some r)
  with inv have b: "btree_at (minPairs t) (maxPairs t) (height r) r"
    by (simp_all add: tree_inv_def)
  from descend_from_correct [OF b order_refl, of lt nilPair incl iter False s]
    upto_k_all [OF btree_shape [OF b]]
  obtain h where "descend_from lt nilPair nilPair nilPair incl iter r
      (int (length (items r)) - 1) False s = Some (h, feed iter (rev (inorder r)) s)"
    by (auto simp: yields_def)
  then show ?thesis using Some
    by (simp add: scan_def iterate_def contents_def split: prod.splits)
qed

lemma Ascend_inv:
  assumes "strict_weak_order lt" "tree_inv lt nilPair t"
  shows "Ascend lt nilPair iter t s = Some (snd (feed iter (contents t) s))"
  using scan_ascend [OF assms, of False nilPair nilPair iter s]
  by (simp add: Ascend_def takeWhile_True)

lemma Descend_inv:
  assumes "tree_inv lt nilPair t"
  shows "Descend lt nilPair iter t s = Some (snd (feed iter (rev (contents t)) s))"
  using scan_descend [OF assms] by (simp add: Descend_def)

lemma AscendRange_inv:
  assumes swo: "strict_weak_order lt" and inv: "tree_inv lt nilPair t"
    and a: "a \<noteq> nilPair" and b: "b \<noteq> nilPair"
  shows "AscendRange lt nilPair a b iter t s =
     Some (snd (feed iter (filter (\<lambda>x. \<not> lt x a \<and> lt x b) (contents t)) s))"
proof -
  have "sorted_wrt lt (filter (\<lambda>x. \<not> lt x a) (contents t))"
    using tree_inv_sorted [OF inv] by (rule sorted_wrt_filter)
  from takeWhile_sorted_filter [OF swo this, of b]
  have "takeWhile (\<lambda>x. lt x b) (filter (\<lambda>x. \<not> lt x a) (contents t)) =
      filter (\<lambda>x. \<not> lt x a \<and> lt x b) (contents t)"
    by (simp add: conj_commute)
  then show ?thesis
    using scan_ascend [OF swo inv, of True a b iter s] a b by (simp add: AscendRange_def)
qed


lemma equiv_sym: "equiv lt a b \<Longrightarrow> equiv lt b a"
  by (auto simp: equiv_def)

lemma equiv_trans:
  assumes "strict_weak_order lt" "equiv lt a b" "equiv lt b c"
  shows "equiv lt a c"
  using assms(2,3) swo_cotrans [OF assms(1)] unfolding equiv_def by blast

lemma lookup_equiv:
  assumes "strict_weak_order lt" "sorted_wrt lt xs" "y \<in> set xs" "nilPair \<notin> set xs"
    "equiv lt p y"
  shows "lookup lt nilPair p xs = y"
proof -
  have "\<exists>z \<in> set xs. equiv lt p z" using assms(3,5) by (rule bexI [rotated])
  then have "lookup lt nilPair p xs \<noteq> nilPair"
    unfolding lookup_nil_iff [OF assms(4)] by simp
  from lookup_in_set [OF this] have l: "lookup lt nilPair p xs \<in> set xs"
    "equiv lt p (lookup lt nilPair p xs)" by simp_all
  have "equiv lt y (lookup lt nilPair p xs)"
    by (rule equiv_trans [OF assms(1) equiv_sym [OF assms(5)] l(2)])
  from sorted_equiv_eq [OF assms(1,2,3) l(1) this] show ?thesis by (rule sym)
qed

lemma set_del_equiv:
  assumes "strict_weak_order lt" "sorted_wrt lt xs" "y \<in> set xs" "equiv lt p y"
  shows "set (del lt p xs) = set xs - {y}"
proof -
  have a: "lt z p \<or> lt p z" if z: "z \<in> set xs" and ne: "z \<noteq> y" for z
  proof (rule ccontr)
    assume "\<not> (lt z p \<or> lt p z)"
    then have "equiv lt z p" by (simp add: equiv_def)
    then have "equiv lt z y" using assms(4) by (rule equiv_trans [OF assms(1)])
    then have "z = y" by (rule sorted_equiv_eq [OF assms(1,2) z assms(3)])
    with ne show False by simp
  qed
  have b: "\<not> (lt y p \<or> lt p y)" using assms(4) by (simp add: equiv_def)
  have "set (del lt p xs) = {z \<in> set xs. lt z p \<or> lt p z}" by (simp add: del_def)
  also have "\<dots> = set xs - {y}" using a b by blast
  finally show ?thesis .
qed

text \<open>Deleting with probes that are only equal under the comparator to stored items: each
  call returns the stored item, not the probe.\<close>

lemma delete_all_equiv:
  assumes swo: "strict_weak_order lt"
  shows "list_all2 (equiv lt) ps ys \<Longrightarrow> tree_inv lt nilPair t \<Longrightarrow> distinct ys \<Longrightarrow>
         set ys \<subseteq> set (contents t) \<Longrightarrow>
         \<exists>t2. delete_each lt nilPair ps t = Inr (ys, t2) \<and> tree_inv lt nilPair t2 \<and>
              set (contents t2) = set (contents t) - set ys \<and>
              int (length (contents t2)) = int (length (contents t)) - int (length ys)"
proof (induction ps ys arbitrary: t rule: list_all2_induct)
  case Nil
  then show ?case by simp
next
  case (Cons p ps y ys)
  have yin: "y \<in> set (contents t)" using Cons.prems(3) by simp
  then have ne: "contents t \<noteq> []" by auto
  note s = tree_inv_sorted [OF Cons.prems(1)] and nn = tree_inv_no_nil [OF Cons.prems(1)]
  from deletePair_correct [OF swo Cons.prems(1), of p removePair] ne
  obtain t' where t': "Delete lt nilPair p t = Inr (lookup lt nilPair p (contents t), t')"
    "tree_inv lt nilPair t'" "contents t' = del lt p (contents t)"
    by (auto simp: Delete_def rm_out_def rm_list_def)
  have out: "lookup lt nilPair p (contents t) = y"
    using lookup_equiv [OF swo s yin nn Cons.hyps(1)] .
  have st: "set (contents t') = set (contents t) - {y}"
    using set_del_equiv [OF swo s yin Cons.hyps(1)] t'(3) by simp
  have "\<exists>z \<in> set (contents t). equiv lt p z" using yin Cons.hyps(1) by blast
  then have ln: "int (length (contents t')) = int (length (contents t)) - 1"
    using length_del [OF swo s, of p] t'(3) by simp
  have sub: "set ys \<subseteq> set (contents t')" using Cons.prems(2,3) st by auto
  from Cons.IH [OF t'(2) _ sub] Cons.prems(2)
  obtain t2 where t2: "delete_each lt nilPair ps t' = Inr (ys, t2)" "tree_inv lt nilPair t2"
    "set (contents t2) = set (contents t') - set ys"
    "int (length (contents t2)) = int (length (contents t')) - int (length ys)" by auto
  have d: "delete_each lt nilPair (p # ps) t = Inr (y # ys, t2)"
    by (simp add: t'(1) out t2(1))
  have e: "set (contents t2) = set (contents t) - set (y # ys)"
    unfolding t2(3) st by auto
  have l: "int (length (contents t2)) = int (length (contents t)) - int (length (y # ys))"
    unfolding t2(4) ln by simp
  from d t2(2) e l show ?case by blast
qed

lemma Delete_on_empty:
  assumes "strict_weak_order lt" "tree_inv lt nilPair t" "contents t = []"
  shows "\<exists>t'. Delete lt nilPair p t = Inr (nilPair, t') \<and> Len t' = 0"
proof -
  have "\<forall>y \<in> set (contents t). \<not> equiv lt p y" using assms(3) by simp
  from Delete_absent_inv [OF assms(1,2) this]
  obtain t' where "Delete lt nilPair p t = Inr (nilPair, t')" "Len t' = Len t" by blast
  moreover have "Len t = 0" using tree_inv_Len [OF assms(2)] assms(3) by simp
  ultimately show ?thesis by simp
qed


section \<open>Cursor traversal\<close>

text \<open>The shape of a node that cursor moves rely on: a node is a leaf or has one child more
  than items, and so on below.\<close>

fun shaped :: "'a node \<Rightarrow> bool" where
  "shaped (Node xs cs) = (cs = [] \<or> (length cs = length xs + 1 \<and> (\<forall>c \<in> set cs. shaped c)))"

lemma shaped_iff:
  "shaped n \<longleftrightarrow>
     children n = [] \<or>
     (length (children n) = length (items n) + 1 \<and> (\<forall>c \<in> set (children n). shaped c))"
  by (cases n) simp

lemma btree_shaped: "btree_at lo hi h n \<Longrightarrow> shaped n"
proof (induction h arbitrary: n)
  case 0
  then show ?case by (subst shaped_iff) (simp add: btree_at_0)
next
  case (Suc h)
  then show ?case by (subst shaped_iff) (simp add: btree_at_Suc)
qed

text \<open>
  A frame \<open>(n, i)\<close> of a leaf stands at item \<open>i\<close>.  A frame of an internal node counts its
  children and items in traversal order: position \<open>2k\<close> is child \<open>k\<close>, position \<open>2k + 1\<close> is
  item \<open>k\<close>.  \<open>after_pos n i\<close> is what the traversal of \<open>n\<close> has after position \<open>i\<close>, and
  \<open>to_come\<close> what a stack of frames has after the positions of all its frames.
\<close>

definition after_pos :: "'a node \<Rightarrow> int \<Rightarrow> 'a list" where
  "after_pos n i =
     (if children n = [] then drop (nat (i + 1)) (items n)
      else if i mod 2 = 0 then Rpart n (nat (i div 2))
      else rest_from n (nat ((i + 1) div 2)))"

definition to_come :: "'a Cursor \<Rightarrow> 'a list" where
  "to_come stack = concat (map (\<lambda>(n, i). after_pos n i) stack)"

definition next_ok :: "'a node \<times> int \<Rightarrow> bool" where
  "next_ok f =
     (case f of (n, i) \<Rightarrow>
        shaped n \<and> - 1 \<le> i \<and> (children n \<noteq> [] \<longrightarrow> i \<le> 2 * int (length (items n))))"

lemma to_come_Nil [simp]: "to_come [] = []"
  by (simp add: to_come_def)

lemma to_come_Cons [simp]: "to_come ((n, i) # st) = after_pos n i @ to_come st"
  by (simp add: to_come_def)

lemma Next_Nil: "Next nilPair [] = Some (nilPair, [])"
  by (subst Next.simps) simp

lemma Next_pop:
  assumes "i0 + 1 = int (length (children n)) + int (length (items n)) \<or>
           (children n = [] \<and> int (length (items n)) \<le> i0 + 1)"
  shows "Next nilPair ((n, i0) # rest) = Next nilPair rest"
  using assms by (subst Next.simps) (auto simp: Let_def)

lemma Next_leaf:
  assumes "children n = []" "- 1 \<le> i0" "i0 + 1 < int (length (items n))"
  shows "Next nilPair ((n, i0) # rest) = Some (items n ! nat (i0 + 1), (n, i0 + 1) # rest)"
  using assms by (subst Next.simps) (simp add: Let_def nth_int_def)

lemma Next_item:
  assumes "children n \<noteq> []" "k < length (items n)"
    "length (children n) = length (items n) + 1"
  shows "Next nilPair ((n, 2 * int k) # rest) = Some (items n ! k, (n, 2 * int k + 1) # rest)"
proof -
  have a: "(2 * int k + 1) smod 2 = 1" "(2 * int k + 1) sdiv 2 = int k"
    by (simp_all add: smod2_nonneg sdiv2_nonneg)
  have b: "(2 * int k + 1 = int (length (children n)) + int (length (items n))) = False"
    using assms(2,3) by simp
  have c: "(length (children n) = 0) = False" using assms(1) by simp
  have d: "nth_int (items n) (int k) = Some (items n ! k)"
    using assms(2) by (simp add: nth_int_def)
  show ?thesis
    by (subst Next.simps) (simp only: Let_def list.case prod.case a b c d if_True if_False
        option.map simp_thms)
qed

lemma Next_push:
  assumes "children n \<noteq> []" "k \<le> length (items n)"
    "length (children n) = length (items n) + 1"
  shows "Next nilPair ((n, 2 * int k - 1) # rest) =
           Next nilPair ((children n ! k, - 1) # (n, 2 * int k) # rest)"
proof -
  have a: "((2 * int k) smod 2 = 1) = False" "(2 * int k) sdiv 2 = int k"
    by (simp_all add: smod2_nonneg sdiv2_nonneg)
  have b: "(2 * int k = int (length (children n)) + int (length (items n))) = False"
    using assms(2,3) by presburger
  have c: "(length (children n) = 0) = False" using assms(1) by simp
  have d: "nth_int (children n) (int k) = Some (children n ! k)"
    using assms(2,3) by (simp add: nth_int_def)
  have e: "2 * int k - 1 + 1 = 2 * int k" by simp
  show ?thesis
    by (subst Next.simps) (simp only: Let_def list.case prod.case a b c d e if_True if_False
        bind.bind_lunit)
qed

lemma Rpart_item:
  assumes "k < length (items n)"
  shows "Rpart n k = items n ! k # rest_from n (Suc k)"
  using assms by (simp add: Rpart_def rest_from_def Cons_nth_drop_Suc [symmetric])

lemma Rpart_end:
  assumes "length (children n) = length (items n) + 1"
  shows "Rpart n (length (items n)) = []"
  using assms by (simp add: Rpart_def)

lemma rest_from_child:
  assumes "length (children n) = length (items n) + 1" "k \<le> length (items n)"
  shows "rest_from n k = inorder (children n ! k) @ Rpart n k"
proof -
  have "k < length (children n)" using assms by simp
  then have "drop k (children n) = children n ! k # drop (Suc k) (children n)"
    by (simp add: Cons_nth_drop_Suc)
  then show ?thesis by (simp add: rest_from_def Rpart_def interleave_Cons)
qed

lemma after_pos_even: "children n \<noteq> [] \<Longrightarrow> after_pos n (2 * int k) = Rpart n k"
  by (simp add: after_pos_def)

lemma after_pos_odd: "children n \<noteq> [] \<Longrightarrow> after_pos n (2 * int k + 1) = rest_from n (Suc k)"
proof -
  have "(2 * int k + 1 + 1) div 2 = int k + 1" by presburger
  then have "nat ((2 * int k + 1 + 1) div 2) = Suc k" by simp
  moreover have "(2 * int k + 1) mod 2 \<noteq> 0" by presburger
  ultimately have "(2 * int k + 1) mod 2 \<noteq> 0" "nat ((2 * int k + 1 + 1) div 2) = Suc k"
    by simp_all
  then show "children n \<noteq> [] \<Longrightarrow> after_pos n (2 * int k + 1) = rest_from n (Suc k)"
    by (simp only: after_pos_def if_False)
qed

lemma after_pos_odd': "children n \<noteq> [] \<Longrightarrow> after_pos n (2 * int k - 1) = rest_from n k"
proof -
  have "(2 * int k - 1 + 1) div 2 = int k" by presburger
  then have "nat ((2 * int k - 1 + 1) div 2) = k" by simp
  moreover have "(2 * int k - 1) mod 2 \<noteq> 0" by presburger
  ultimately have "(2 * int k - 1) mod 2 \<noteq> 0" "nat ((2 * int k - 1 + 1) div 2) = k"
    by simp_all
  then show "children n \<noteq> [] \<Longrightarrow> after_pos n (2 * int k - 1) = rest_from n k"
    by (simp only: after_pos_def if_False)
qed

lemma after_pos_fresh: "shaped c \<Longrightarrow> after_pos c (- 1) = inorder c"
  by (cases c) (auto simp: after_pos_def rest_from_def)

text \<open>\<open>Next\<close> returns the first item still to come and leaves the rest to come; when
  nothing is left it returns the absent value and an empty stack.\<close>

definition next_result :: "'a \<Rightarrow> 'a list \<Rightarrow> ('a \<times> 'a Cursor) option \<Rightarrow> bool" where
  "next_result nilPair zs r \<longleftrightarrow>
     (\<exists>x st. r = Some (x, st) \<and> list_all next_ok st \<and>
        (case zs of [] \<Rightarrow> x = nilPair \<and> st = [] | y # ys \<Rightarrow> x = y \<and> to_come st = ys))"

lemma Next_correct:
  "list_all next_ok stack \<Longrightarrow> next_result nilPair (to_come stack) (Next nilPair stack)"
proof (induction nilPair stack rule: Next.induct)
  case (1 nilPair stack)
  show ?case
  proof (cases stack)
    case Nil
    then show ?thesis by (simp add: Next_Nil next_result_def)
  next
    case (Cons f rest)
    obtain n i0 where f: "f = (n, i0)" by (cases f)
    from "1.prems" Cons f have okf: "next_ok (n, i0)" and okr: "list_all next_ok rest"
      by simp_all
    from okf have ok: "shaped n" "- 1 \<le> i0"
      "children n \<noteq> [] \<Longrightarrow> i0 \<le> 2 * int (length (items n))"
      by (simp_all add: next_ok_def)
    show ?thesis
    proof (cases "children n = []")
      case leaf: True
      show ?thesis
      proof (cases "i0 + 1 < int (length (items n))")
        case True
        have j: "nat (i0 + 1) < length (items n)" "nat (i0 + 1 + 1) = Suc (nat (i0 + 1))"
          using True ok(2) by simp_all
        have "drop (nat (i0 + 1)) (items n) =
            items n ! nat (i0 + 1) # drop (nat (i0 + 1 + 1)) (items n)"
          unfolding j(2) using j(1) by (simp add: Cons_nth_drop_Suc)
        then show ?thesis unfolding Cons f
          using Next_leaf [OF leaf ok(2) True, of nilPair rest] okr ok leaf
          by (simp add: next_result_def after_pos_def next_ok_def)
      next
        case False
        then have e: "after_pos n i0 = []" using leaf by (simp add: after_pos_def)
        have p: "Next nilPair ((n, i0) # rest) = Next nilPair rest"
          using Next_pop [of i0 n nilPair rest] leaf False by simp
        have "next_result nilPair (to_come rest) (Next nilPair rest)"
        proof (cases "i0 + 1 = int (length (children n)) + int (length (items n))")
          case True
          from "1.IH"(1) [OF Cons f [symmetric] refl True okr] show ?thesis .
        next
          case nt: False
          from "1.IH"(2) [OF Cons f [symmetric] refl nt] leaf False okr show ?thesis by simp
        qed
        then show ?thesis unfolding Cons f by (simp add: p e)
      qed
    next
      case inner: False
      with ok(1) have len: "length (children n) = length (items n) + 1"
        and kids: "\<forall>c \<in> set (children n). shaped c"
        using shaped_iff [of n] by simp_all
      from ok(3) [OF inner] have up: "i0 \<le> 2 * int (length (items n))" .
      show ?thesis
      proof (cases "i0 mod 2 = 0")
        case True
        define k where "k = nat (i0 div 2)"
        have i0: "0 \<le> i0" using True ok(2) by presburger
        then have ik: "int k = i0 div 2" by (simp add: k_def)
        have k1: "i0 = 2 * int k" unfolding ik using True by presburger
        have "int k \<le> int (length (items n))" using up unfolding k1 by simp
        then have k2: "k \<le> length (items n)" by simp
        have ap: "after_pos n (2 * int k) = Rpart n k" by (rule after_pos_even [OF inner])
        show ?thesis
        proof (cases "k < length (items n)")
          case kl: True
          have ap': "after_pos n (2 * int k + 1) = rest_from n (Suc k)"
            by (rule after_pos_odd [OF inner])
          have nk: "next_ok (n, 2 * int k + 1)"
            using ok(1) kl by (simp add: next_ok_def)
          have "next_result nilPair (to_come ((n, 2 * int k) # rest))
              (Next nilPair ((n, 2 * int k) # rest))"
            unfolding Next_item [OF inner kl len] next_result_def
            using okr nk by (simp add: ap ap' Rpart_item [OF kl])
          then show ?thesis unfolding Cons f k1 .
        next
          case False
          with k2 have ke: "k = length (items n)" by simp
          have e: "after_pos n i0 = []" using ap Rpart_end [OF len] unfolding k1 ke by simp
          have t: "i0 + 1 = int (length (children n)) + int (length (items n))"
            unfolding k1 ke len by simp
          have p: "Next nilPair ((n, i0) # rest) = Next nilPair rest"
            by (rule Next_pop) (simp add: t)
          from "1.IH"(1) [OF Cons f [symmetric] refl t okr]
          show ?thesis unfolding Cons f by (simp add: p e)
        qed
      next
        case odd: False
        define k where "k = nat ((i0 + 1) div 2)"
        have "0 \<le> i0 + 1" using ok(2) by simp
        then have ik: "int k = (i0 + 1) div 2" by (simp add: k_def)
        have k1: "i0 = 2 * int k - 1" unfolding ik using odd by presburger
        have "2 * int k - 1 \<le> 2 * int (length (items n))" using up unfolding k1 .
        then have k2: "k \<le> length (items n)" by presburger
        have i1: "i0 + 1 = 2 * int k" unfolding k1 by simp
        define c where "c = children n ! k"
        have kc: "k < length (children n)" using k2 len by simp
        then have sc: "shaped c" using kids by (simp add: c_def)
        have ap: "after_pos n i0 = rest_from n k" unfolding k1 by (rule after_pos_odd' [OF inner])
        have ap': "after_pos n (i0 + 1) = Rpart n k" unfolding i1 by (rule after_pos_even [OF inner])
        have rc: "rest_from n k = inorder c @ Rpart n k"
          unfolding c_def by (rule rest_from_child [OF len k2])
        have tc: "to_come ((c, - 1) # (n, i0 + 1) # rest) = to_come ((n, i0) # rest)"
          unfolding to_come_Cons ap ap' after_pos_fresh [OF sc] rc by simp
        have p: "Next nilPair ((n, i0) # rest) = Next nilPair ((c, - 1) # (n, i0 + 1) # rest)"
          unfolding i1 unfolding k1 c_def by (rule Next_push [OF inner k2 len])
        have a: "(2 * int k) smod 2 \<noteq> 1" "(2 * int k) sdiv 2 = int k"
          by (simp_all add: smod2_nonneg sdiv2_nonneg)
        have nt: "i0 + 1 \<noteq> int (length (children n)) + int (length (items n))"
          using k2 len unfolding i1 by presburger
        have ci: "nth_int (children n) ((i0 + 1) sdiv 2) = Some c"
          using kc unfolding i1 a(2) by (simp add: nth_int_def c_def)
        have sm: "(i0 + 1) smod 2 \<noteq> 1" unfolding i1 by (rule a(1))
        have "next_ok (c, - 1)" using sc by (simp add: next_ok_def)
        moreover have "next_ok (n, i0 + 1)" using ok(1) k2 unfolding i1 by (simp add: next_ok_def)
        ultimately have oks: "list_all next_ok ((c, - 1) # (n, i0 + 1) # rest)"
          using okr by simp
        have nz: "length (children n) \<noteq> 0" using inner by simp
        have "next_result nilPair (to_come ((c, - 1) # (n, i0 + 1) # rest))
            (Next nilPair ((c, - 1) # (n, i0 + 1) # rest))"
          by (rule "1.IH"(3) [OF Cons f [symmetric] refl nt nz sm ci oks])
        then show ?thesis unfolding Cons f p tc .
      qed
    qed
  qed
qed


lemma next_until_nil_correct:
  "list_all next_ok st \<Longrightarrow> nilPair \<notin> set (to_come st) \<Longrightarrow> x \<noteq> nilPair \<Longrightarrow>
   next_until_nil nilPair x st = Some (x # to_come st)"
proof (induction zs \<equiv> "to_come st" arbitrary: x st)
  case Nil
  from Next_correct [OF Nil.prems(1), of nilPair] Nil.hyps
  have n: "Next nilPair st = Some (nilPair, [])"
    by (auto simp: next_result_def simp flip: Nil.hyps)
  have e: "next_until_nil nilPair nilPair [] = Some []"
    by (subst next_until_nil.simps) simp
  show ?case
    by (subst next_until_nil.simps) (simp add: Nil.prems(3) n e flip: Nil.hyps)
next
  case (Cons y ys)
  from Next_correct [OF Cons.prems(1), of nilPair]
  obtain st' where n: "Next nilPair st = Some (y, st')" and ok: "list_all next_ok st'"
    and tc: "to_come st' = ys"
    by (auto simp: next_result_def simp flip: Cons.hyps(2))
  have yn: "y \<noteq> nilPair" and nn: "nilPair \<notin> set (to_come st')"
    using Cons.prems(2) tc by (auto simp flip: Cons.hyps(2))
  from Cons.hyps(1) [OF tc [symmetric] ok nn yn]
  have r: "next_until_nil nilPair y st' = Some (y # ys)" by (simp add: tc)
  show ?case
    by (subst next_until_nil.simps) (simp add: Cons.prems(3) n r flip: Cons.hyps(2))
qed

lemma first_loop_leaf: "children n = [] \<Longrightarrow> first_loop n stack = (n, stack)"
  by (subst first_loop.simps) simp

lemma first_loop_inner:
  "children n \<noteq> [] \<Longrightarrow>
   first_loop n stack = first_loop (children n ! 0) ((children n ! 0, 0) # stack)"
  by (subst first_loop.simps) simp

lemma Rpart_0:
  assumes "length (children n) = length (items n) + 1"
  shows "inorder n = inorder (children n ! 0) @ Rpart n 0"
  using inorder_around [of 0 n] assms by (simp add: Lpart_def)

text \<open>The descent of \<open>First\<close> to the leftmost leaf: the leaf's items and what the frames
  below it have to come make up the traversal of the node.\<close>

lemma first_loop_correct:
  assumes lo: "1 \<le> lo"
  shows "btree_at lo hi h n \<Longrightarrow> list_all next_ok st \<Longrightarrow>
     \<exists>l st'. first_loop n ((n, 0) # st) = (l, (l, 0) # st') \<and> children l = [] \<and>
        list_all next_ok st' \<and> items l @ to_come st' = inorder n @ to_come st \<and>
        (h = 0 \<longrightarrow> l = n \<and> st' = st) \<and> (0 < h \<longrightarrow> items l \<noteq> [])"
proof (induction h arbitrary: n st)
  case 0
  then have leaf: "children n = []" by (simp add: btree_at_0)
  then have "inorder n = items n" by (cases n) simp
  then show ?case using leaf "0.prems"(2) by (simp add: first_loop_leaf)
next
  case (Suc h)
  from Suc.prems(1) have len: "length (children n) = length (items n) + 1"
    and kids: "\<forall>c \<in> set (children n). good lo hi h c" by (simp_all add: btree_at_Suc_good)
  have inner: "children n \<noteq> []" using len by auto
  define c where "c = children n ! 0"
  have "c \<in> set (children n)" using len by (simp add: c_def)
  then have g: "good lo hi h c" using kids by simp
  then have bc: "btree_at lo hi h c" and ci: "items c \<noteq> []"
    using lo by (auto simp: good_def)
  have okn: "next_ok (n, 0)"
    using btree_shaped [OF Suc.prems(1)] by (simp add: next_ok_def)
  then have oks: "list_all next_ok ((n, 0) # st)" using Suc.prems(2) by simp
  from Suc.IH [OF bc oks]
  obtain l st' where r: "first_loop c ((c, 0) # (n, 0) # st) = (l, (l, 0) # st')"
    "children l = []" "list_all next_ok st'"
    "items l @ to_come st' = inorder c @ to_come ((n, 0) # st)"
    "h = 0 \<longrightarrow> l = c \<and> st' = (n, 0) # st" "0 < h \<longrightarrow> items l \<noteq> []"
    by blast
  have ap: "after_pos n 0 = Rpart n 0"
    using after_pos_even [OF inner, of 0] by simp
  have e: "items l @ to_come st' = inorder n @ to_come st"
    unfolding r(4) to_come_Cons ap Rpart_0 [OF len] c_def by simp
  have ne: "items l \<noteq> []" using r(5,6) ci by (cases h) auto
  have f: "first_loop n ((n, 0) # st) = (l, (l, 0) # st')"
    unfolding first_loop_inner [OF inner] using r(1) by (simp add: c_def)
  from f r(2,3) e ne show ?case by simp
qed

lemma First_correct:
  assumes inv: "tree_inv lt nilPair t"
  shows "next_until_nil nilPair (fst (First nilPair t)) (snd (First nilPair t)) =
           Some (contents t)"
proof (cases "root t")
  case None
  have "next_until_nil nilPair nilPair [] = Some []"
    by (subst next_until_nil.simps) simp
  then show ?thesis using None by (simp add: First_def contents_def)
next
  case (Some r)
  with inv have b: "btree_at (minPairs t) (maxPairs t) (height r) r"
    and nn: "nilPair \<notin> set (inorder r)" and d: "2 \<le> degree t"
    by (simp_all add: tree_inv_def)
  have lo: "1 \<le> minPairs t" using d by (simp add: minPairs_def)
  from first_loop_correct [OF lo b, of "[]"]
  obtain l st' where r: "first_loop r [(r, 0)] = (l, (l, 0) # st')"
    "children l = []" "list_all next_ok st'" "items l @ to_come st' = inorder r"
    "height r = 0 \<longrightarrow> l = r \<and> st' = []" "0 < height r \<longrightarrow> items l \<noteq> []"
    by auto
  show ?thesis
  proof (cases "items l = []")
    case True
    with r(5,6) have "st' = []" by (cases "height r") auto
    with r(4) True have "inorder r = []" by simp
    moreover have "next_until_nil nilPair nilPair [(l, 0)] = Some []"
      by (subst next_until_nil.simps) simp
    ultimately show ?thesis using Some True r(1) \<open>st' = []\<close>
      by (simp add: First_def contents_def)
  next
    case False
    then obtain x xs where xs: "items l = x # xs" by (cases "items l") auto
    have F: "First nilPair t = (x, (l, 0) # st')"
      using Some r(1) xs by (simp add: First_def)
    have "shaped l" by (subst shaped_iff) (simp add: r(2))
    then have ok: "list_all next_ok ((l, 0) # st')"
      using r(2,3) by (simp add: next_ok_def)
    have tc: "to_come ((l, 0) # st') = xs @ to_come st'"
      using r(2) xs by (simp add: after_pos_def)
    have io: "inorder r = x # xs @ to_come st'" using r(4) xs by simp
    have "x \<noteq> nilPair" "nilPair \<notin> set (to_come ((l, 0) # st'))"
      using nn unfolding io tc by auto
    from next_until_nil_correct [OF ok this(2,1)]
    have "next_until_nil nilPair x ((l, 0) # st') = Some (inorder r)"
      unfolding tc io by simp
    then show ?thesis using Some by (simp add: F contents_def)
  qed
qed


text \<open>\<open>before_pos n i\<close> is what the traversal of \<open>n\<close> has before position \<open>i\<close>, and \<open>to_go\<close>
  what a stack of frames has before the positions of all its frames, last item first.\<close>

definition before_pos :: "'a node \<Rightarrow> int \<Rightarrow> 'a list" where
  "before_pos n i =
     (if children n = [] then take (nat i) (items n)
      else if i mod 2 = 0 then Lpart n (nat (i div 2))
      else upto_k n (nat (i div 2)))"

definition to_go :: "'a Cursor \<Rightarrow> 'a list" where
  "to_go stack = concat (map (\<lambda>(n, i). rev (before_pos n i)) stack)"

definition prev_ok :: "'a node \<times> int \<Rightarrow> bool" where
  "prev_ok f =
     (case f of (n, i) \<Rightarrow>
        shaped n \<and> 0 \<le> i \<and> i \<le> int (length (children n)) + int (length (items n)))"

lemma to_go_Nil [simp]: "to_go [] = []"
  by (simp add: to_go_def)

lemma to_go_Cons [simp]: "to_go ((n, i) # st) = rev (before_pos n i) @ to_go st"
  by (simp add: to_go_def)

lemma before_pos_even: "children n \<noteq> [] \<Longrightarrow> before_pos n (2 * int k) = Lpart n k"
  by (simp add: before_pos_def)

lemma before_pos_odd: "children n \<noteq> [] \<Longrightarrow> before_pos n (2 * int k + 1) = upto_k n k"
proof -
  have "(2 * int k + 1) div 2 = int k" by presburger
  then have "nat ((2 * int k + 1) div 2) = k" by simp
  moreover have "(2 * int k + 1) mod 2 \<noteq> 0" by presburger
  ultimately have "(2 * int k + 1) mod 2 \<noteq> 0" "nat ((2 * int k + 1) div 2) = k"
    by simp_all
  then show "children n \<noteq> [] \<Longrightarrow> before_pos n (2 * int k + 1) = upto_k n k"
    by (simp only: before_pos_def if_False)
qed

lemma before_pos_full:
  assumes "shaped c"
  shows "before_pos c (int (length (children c)) + int (length (items c))) = inorder c"
proof (cases "children c = []")
  case True
  then have "inorder c = items c" by (cases c) simp
  then show ?thesis using True by (simp add: before_pos_def)
next
  case False
  with assms have len: "length (children c) = length (items c) + 1"
    using shaped_iff [of c] by simp
  have "int (length (children c)) + int (length (items c)) = 2 * int (length (items c)) + 1"
    using len by simp
  then show ?thesis using before_pos_odd [OF False, of "length (items c)"] upto_k_all [of c] len
    by simp
qed

lemma upto_k_Lpart:
  assumes "length (children n) = length (items n) + 1" "k \<le> length (items n)"
  shows "upto_k n k = Lpart n k @ inorder (children n ! k)"
proof -
  have kc: "k < length (children n)" using assms by simp
  have "length (map inorder (take k (children n))) = length (take k (items n))"
    using assms by simp
  from interleave_snoc [OF this, of "inorder (children n ! k)"]
  show ?thesis by (simp add: upto_k_def Lpart_def take_Suc_conv_app_nth [OF kc])
qed

lemma Lpart_Suc:
  assumes "length (children n) = length (items n) + 1" "k < length (items n)"
  shows "Lpart n (Suc k) = upto_k n k @ [items n ! k]"
proof -
  have "length (map inorder (take (Suc k) (children n))) = Suc (length (take k (items n)))"
    using assms by simp
  from interleave_snoc1 [OF this, of "items n ! k"]
  show ?thesis by (simp add: upto_k_def Lpart_def take_Suc_conv_app_nth [OF assms(2)])
qed

lemma Prev_Nil: "Prev nilPair [] = Some (nilPair, [])"
  by (subst Prev.simps) simp

lemma Prev_pop: "Prev nilPair ((n, 0) # rest) = Prev nilPair rest"
  by (subst Prev.simps) simp

lemma Prev_leaf:
  assumes "children n = []" "0 < i0" "i0 \<le> int (length (items n))"
  shows "Prev nilPair ((n, i0) # rest) = Some (items n ! nat (i0 - 1), (n, i0 - 1) # rest)"
proof -
  have a: "(i0 - 1 = - 1) = False" using assms(2) by simp
  have b: "(length (children n) = 0) = True" using assms(1) by simp
  have c: "nth_int (items n) (i0 - 1) = Some (items n ! nat (i0 - 1))"
    using assms(2,3) by (simp add: nth_int_def)
  show ?thesis
    by (subst Prev.simps) (simp only: Let_def list.case prod.case a b c if_True if_False
        option.map)
qed

lemma Prev_item:
  assumes "children n \<noteq> []" "k < length (items n)"
  shows "Prev nilPair ((n, 2 * int k + 2) # rest) =
           Some (items n ! k, (n, 2 * int k + 1) # rest)"
proof -
  have e: "2 * int k + 2 - 1 = 2 * int k + 1" by simp
  have a: "(2 * int k + 1 = - 1) = False" by presburger
  have b: "(length (children n) = 0) = False" using assms(1) by simp
  have s: "((2 * int k + 1) smod 2 = 1) = True" "(2 * int k + 1) sdiv 2 = int k"
    by (simp_all add: smod2_nonneg sdiv2_nonneg)
  have c: "nth_int (items n) (int k) = Some (items n ! k)"
    using assms(2) by (simp add: nth_int_def)
  show ?thesis
    by (subst Prev.simps) (simp only: Let_def list.case prod.case e a b s c if_True if_False
        option.map)
qed

lemma Prev_push:
  assumes "children n \<noteq> []" "k < length (children n)"
  shows "Prev nilPair ((n, 2 * int k + 1) # rest) =
           Prev nilPair ((children n ! k,
                          int (length (children (children n ! k))) +
                          int (length (items (children n ! k)))) # (n, 2 * int k) # rest)"
proof -
  have e: "2 * int k + 1 - 1 = 2 * int k" by simp
  have a: "(2 * int k = - 1) = False" by presburger
  have b: "(length (children n) = 0) = False" using assms(1) by simp
  have s: "((2 * int k) smod 2 = 1) = False" "(2 * int k) sdiv 2 = int k"
    by (simp_all add: smod2_nonneg sdiv2_nonneg)
  have c: "nth_int (children n) (int k) = Some (children n ! k)"
    using assms(2) by (simp add: nth_int_def)
  show ?thesis
    by (subst Prev.simps) (simp only: Let_def list.case prod.case e a b s c if_True if_False
        bind.bind_lunit)
qed

definition prev_result :: "'a \<Rightarrow> 'a list \<Rightarrow> ('a \<times> 'a Cursor) option \<Rightarrow> bool" where
  "prev_result nilPair zs r \<longleftrightarrow>
     (\<exists>x st. r = Some (x, st) \<and> list_all prev_ok st \<and>
        (case zs of [] \<Rightarrow> x = nilPair \<and> st = [] | y # ys \<Rightarrow> x = y \<and> to_go st = ys))"

text \<open>\<open>Prev\<close> returns the last item before the cursor and leaves the ones before it; when
  nothing is left it returns the absent value and an empty stack.\<close>

lemma Prev_correct:
  "list_all prev_ok stack \<Longrightarrow> prev_result nilPair (to_go stack) (Prev nilPair stack)"
proof (induction nilPair stack rule: Prev.induct)
  case (1 nilPair stack)
  show ?case
  proof (cases stack)
    case Nil
    then show ?thesis by (simp add: Prev_Nil prev_result_def)
  next
    case (Cons f rest)
    obtain n i0 where f: "f = (n, i0)" by (cases f)
    from "1.prems" Cons f have okf: "prev_ok (n, i0)" and okr: "list_all prev_ok rest"
      by simp_all
    from okf have ok: "shaped n" "0 \<le> i0"
      "i0 \<le> int (length (children n)) + int (length (items n))"
      by (simp_all add: prev_ok_def)
    show ?thesis
    proof (cases "i0 = 0")
      case True
      have e: "before_pos n 0 = []" by (simp add: before_pos_def Lpart_def)
      have m: "i0 - 1 = - 1" using True by simp
      from "1.IH"(1) [OF Cons f [symmetric] refl m okr]
      show ?thesis unfolding Cons f True by (simp add: Prev_pop e)
    next
      case pos: False
      with ok(2) have ip: "0 < i0" by simp
      show ?thesis
      proof (cases "children n = []")
        case leaf: True
        have up: "i0 \<le> int (length (items n))" using ok(3) leaf by simp
        define j where "j = nat (i0 - 1)"
        have j: "j < length (items n)" "nat i0 = Suc j" using ip up by (simp_all add: j_def)
        have bp: "before_pos n i0 = take j (items n) @ [items n ! j]"
          using leaf by (simp add: before_pos_def j(2) take_Suc_conv_app_nth [OF j(1)])
        have bp': "before_pos n (i0 - 1) = take j (items n)"
          using leaf by (simp add: before_pos_def j_def)
        have nk: "prev_ok (n, i0 - 1)" using ok(1,3) ip by (simp add: prev_ok_def)
        show ?thesis unfolding Cons f Prev_leaf [OF leaf ip up] prev_result_def
          using okr nk by (simp add: bp bp' j_def)
      next
        case inner: False
        with ok(1) have len: "length (children n) = length (items n) + 1"
          and kids: "\<forall>c \<in> set (children n). shaped c"
          using shaped_iff [of n] by simp_all
        have up: "i0 \<le> 2 * int (length (items n)) + 1" using ok(3) len by simp
        show ?thesis
        proof (cases "i0 mod 2 = 0")
          case True
          define k where "k = nat ((i0 - 2) div 2)"
          have "0 \<le> i0 - 2" using True ip by presburger
          then have ik: "int k = (i0 - 2) div 2" by (simp add: k_def)
          have k1: "i0 = 2 * int k + 2" unfolding ik using True by presburger
          have "2 * int k + 2 \<le> 2 * int (length (items n)) + 1" using up unfolding k1 .
          then have k2: "k < length (items n)" by presburger
          have e: "2 * int k + 2 = 2 * int (Suc k)" by simp
          have bp: "before_pos n (2 * int k + 2) = upto_k n k @ [items n ! k]"
            unfolding e before_pos_even [OF inner] by (rule Lpart_Suc [OF len k2])
          have bp': "before_pos n (2 * int k + 1) = upto_k n k"
            by (rule before_pos_odd [OF inner])
          have nk: "prev_ok (n, 2 * int k + 1)" using ok(1) k2 len by (simp add: prev_ok_def)
          have "prev_result nilPair (to_go ((n, 2 * int k + 2) # rest))
              (Prev nilPair ((n, 2 * int k + 2) # rest))"
            unfolding Prev_item [OF inner k2] prev_result_def
            using okr nk by (simp add: bp bp')
          then show ?thesis unfolding Cons f k1 .
        next
          case odd: False
          define k where "k = nat (i0 div 2)"
          have ik: "int k = i0 div 2" using ok(2) by (simp add: k_def)
          have k1: "i0 = 2 * int k + 1" unfolding ik using odd by presburger
          have "2 * int k + 1 \<le> 2 * int (length (items n)) + 1" using up unfolding k1 .
          then have k2: "k \<le> length (items n)" by presburger
          have i1: "i0 - 1 = 2 * int k" unfolding k1 by simp
          define c where "c = children n ! k"
          define full where "full = int (length (children c)) + int (length (items c))"
          have kc: "k < length (children n)" using k2 len by simp
          then have sc: "shaped c" using kids by (simp add: c_def)
          have bp: "before_pos n i0 = Lpart n k @ inorder c"
            unfolding k1 before_pos_odd [OF inner] c_def by (rule upto_k_Lpart [OF len k2])
          have bp': "before_pos n (i0 - 1) = Lpart n k"
            unfolding i1 by (rule before_pos_even [OF inner])
          have bf: "before_pos c full = inorder c"
            unfolding full_def by (rule before_pos_full [OF sc])
          have tg: "to_go ((c, full) # (n, i0 - 1) # rest) = to_go ((n, i0) # rest)"
            unfolding to_go_Cons bp bp' bf by simp
          have p: "Prev nilPair ((n, i0) # rest) = Prev nilPair ((c, full) # (n, i0 - 1) # rest)"
            unfolding i1 unfolding k1 c_def full_def by (rule Prev_push [OF inner kc])
          have a: "(2 * int k) smod 2 \<noteq> 1" "(2 * int k) sdiv 2 = int k"
            by (simp_all add: smod2_nonneg sdiv2_nonneg)
          have nm: "i0 - 1 \<noteq> - 1" unfolding i1 by presburger
          have sm: "(i0 - 1) smod 2 \<noteq> 1" unfolding i1 by (rule a(1))
          have ci: "nth_int (children n) ((i0 - 1) sdiv 2) = Some c"
            using kc unfolding i1 a(2) by (simp add: nth_int_def c_def)
          have "prev_ok (c, full)" using sc by (simp add: prev_ok_def full_def)
          moreover have "prev_ok (n, i0 - 1)"
            using ok(1) k2 len unfolding i1 by (simp add: prev_ok_def)
          ultimately have oks: "list_all prev_ok ((c, full) # (n, i0 - 1) # rest)"
            using okr by simp
          have nz: "length (children n) \<noteq> 0" using inner by simp
          have "prev_result nilPair (to_go ((c, full) # (n, i0 - 1) # rest))
              (Prev nilPair ((c, full) # (n, i0 - 1) # rest))"
            unfolding full_def
            by (rule "1.IH"(2) [OF Cons f [symmetric] refl nm nz sm ci oks [unfolded full_def]])
          then show ?thesis unfolding Cons f p tg .
        qed
      qed
    qed
  qed
qed

lemma prev_until_nil_correct:
  "list_all prev_ok st \<Longrightarrow> nilPair \<notin> set (to_go st) \<Longrightarrow> x \<noteq> nilPair \<Longrightarrow>
   prev_until_nil nilPair x st = Some (x # to_go st)"
proof (induction zs \<equiv> "to_go st" arbitrary: x st)
  case Nil
  from Prev_correct [OF Nil.prems(1), of nilPair] Nil.hyps
  have n: "Prev nilPair st = Some (nilPair, [])"
    by (auto simp: prev_result_def simp flip: Nil.hyps)
  have e: "prev_until_nil nilPair nilPair [] = Some []"
    by (subst prev_until_nil.simps) simp
  show ?case
    by (subst prev_until_nil.simps) (simp add: Nil.prems(3) n e flip: Nil.hyps)
next
  case (Cons y ys)
  from Prev_correct [OF Cons.prems(1), of nilPair]
  obtain st' where n: "Prev nilPair st = Some (y, st')" and ok: "list_all prev_ok st'"
    and tc: "to_go st' = ys"
    by (auto simp: prev_result_def simp flip: Cons.hyps(2))
  have yn: "y \<noteq> nilPair" and nn: "nilPair \<notin> set (to_go st')"
    using Cons.prems(2) tc by (auto simp flip: Cons.hyps(2))
  from Cons.hyps(1) [OF tc [symmetric] ok nn yn]
  have r: "prev_until_nil nilPair y st' = Some (y # ys)" by (simp add: tc)
  show ?case
    by (subst prev_until_nil.simps) (simp add: Cons.prems(3) n r flip: Cons.hyps(2))
qed


lemma last_loop_leaf: "children n = [] \<Longrightarrow> last_loop n stack = (n, stack)"
  by (subst last_loop.simps) simp

lemma last_loop_inner:
  "children n \<noteq> [] \<Longrightarrow>
   last_loop n stack =
     last_loop (children n ! (length (children n) - 1))
       ((children n ! (length (children n) - 1),
         int (length (children (children n ! (length (children n) - 1)))) +
         int (length (items (children n ! (length (children n) - 1)))) - 1) # stack)"
  by (subst last_loop.simps) (simp add: Let_def)

lemma Lpart_last:
  assumes "length (children n) = length (items n) + 1"
  shows "inorder n = Lpart n (length (items n)) @ inorder (children n ! length (items n))"
  using upto_k_Lpart [OF assms order_refl] upto_k_all [of n] assms by simp

text \<open>The descent of \<open>Last\<close> to the rightmost leaf.\<close>

lemma last_loop_correct:
  assumes lo: "1 \<le> lo"
  shows "btree_at lo hi h n \<Longrightarrow> list_all prev_ok st \<Longrightarrow>
     \<exists>l st'. last_loop n ((n, int (length (children n)) + int (length (items n)) - 1) # st) =
                (l, (l, int (length (items l)) - 1) # st') \<and> children l = [] \<and>
        list_all prev_ok st' \<and> rev (items l) @ to_go st' = rev (inorder n) @ to_go st \<and>
        (h = 0 \<longrightarrow> l = n \<and> st' = st) \<and> (0 < h \<longrightarrow> items l \<noteq> [])"
proof (induction h arbitrary: n st)
  case 0
  then have leaf: "children n = []" by (simp add: btree_at_0)
  then have "inorder n = items n" by (cases n) simp
  then show ?case using leaf "0.prems"(2) by (simp add: last_loop_leaf)
next
  case (Suc h)
  from Suc.prems(1) have len: "length (children n) = length (items n) + 1"
    and kids: "\<forall>c \<in> set (children n). good lo hi h c" by (simp_all add: btree_at_Suc_good)
  have inner: "children n \<noteq> []" using len by auto
  define c where "c = children n ! length (items n)"
  have cl: "children n ! (length (children n) - 1) = c" using len by (simp add: c_def)
  have "c \<in> set (children n)" using len by (simp add: c_def)
  then have g: "good lo hi h c" using kids by simp
  then have bc: "btree_at lo hi h c" and ci: "items c \<noteq> []"
    using lo by (auto simp: good_def)
  have pn: "int (length (children n)) + int (length (items n)) - 1 = 2 * int (length (items n))"
    using len by simp
  have okn: "prev_ok (n, 2 * int (length (items n)))"
    using btree_shaped [OF Suc.prems(1)] len by (simp add: prev_ok_def)
  then have oks: "list_all prev_ok ((n, 2 * int (length (items n))) # st)"
    using Suc.prems(2) by simp
  from Suc.IH [OF bc oks]
  obtain l st' where r:
    "last_loop c ((c, int (length (children c)) + int (length (items c)) - 1) #
        (n, 2 * int (length (items n))) # st) = (l, (l, int (length (items l)) - 1) # st')"
    "children l = []" "list_all prev_ok st'"
    "rev (items l) @ to_go st' = rev (inorder c) @ to_go ((n, 2 * int (length (items n))) # st)"
    "h = 0 \<longrightarrow> l = c \<and> st' = (n, 2 * int (length (items n))) # st" "0 < h \<longrightarrow> items l \<noteq> []"
    by blast
  have bp: "before_pos n (2 * int (length (items n))) = Lpart n (length (items n))"
    by (rule before_pos_even [OF inner])
  have e: "rev (items l) @ to_go st' = rev (inorder n) @ to_go st"
    unfolding r(4) to_go_Cons bp Lpart_last [OF len] c_def by simp
  have ne: "items l \<noteq> []" using r(5,6) ci by (cases h) auto
  have f: "last_loop n ((n, int (length (children n)) + int (length (items n)) - 1) # st) =
      (l, (l, int (length (items l)) - 1) # st')"
    unfolding last_loop_inner [OF inner] cl pn by (rule r(1))
  from f r(2,3) e ne show ?case by simp
qed

lemma Last_correct:
  assumes inv: "tree_inv lt nilPair t"
  shows "prev_until_nil nilPair (fst (Last nilPair t)) (snd (Last nilPair t)) =
           Some (rev (contents t))"
proof (cases "root t")
  case None
  have "prev_until_nil nilPair nilPair [] = Some []"
    by (subst prev_until_nil.simps) simp
  then show ?thesis using None by (simp add: Last_def contents_def)
next
  case (Some r)
  with inv have b: "btree_at (minPairs t) (maxPairs t) (height r) r"
    and nn: "nilPair \<notin> set (inorder r)" and d: "2 \<le> degree t"
    by (simp_all add: tree_inv_def)
  have lo: "1 \<le> minPairs t" using d by (simp add: minPairs_def)
  from last_loop_correct [OF lo b, of "[]"]
  obtain l st' where r:
    "last_loop r [(r, int (length (children r)) + int (length (items r)) - 1)] =
       (l, (l, int (length (items l)) - 1) # st')"
    "children l = []" "list_all prev_ok st'" "rev (items l) @ to_go st' = rev (inorder r)"
    "height r = 0 \<longrightarrow> l = r \<and> st' = []" "0 < height r \<longrightarrow> items l \<noteq> []"
    by auto
  show ?thesis
  proof (cases "items l = []")
    case True
    with r(5,6) have "st' = []" by (cases "height r") auto
    with r(4) True have "inorder r = []" by simp
    moreover have "prev_until_nil nilPair nilPair stk = Some []" for stk :: "'a Cursor"
      by (subst prev_until_nil.simps) simp
    ultimately show ?thesis using Some True r(1)
      by (simp add: Last_def contents_def)
  next
    case False
    define j where "j = length (items l) - 1"
    have "0 < length (items l)" using False by simp
    then have j: "j < length (items l)" "int (length (items l)) - 1 = int j"
      unfolding j_def by linarith+
    define x where "x = items l ! j"
    have il: "items l = take j (items l) @ [x]"
      using j(1) take_Suc_conv_app_nth [OF j(1)] by (simp add: x_def j_def)
    have F: "Last nilPair t = (x, (l, int j) # st')"
      using Some r(1) False by (simp add: Last_def j(2) x_def j_def)
    have "shaped l" by (subst shaped_iff) (simp add: r(2))
    then have ok: "list_all prev_ok ((l, int j) # st')"
      using r(2,3) j(1) by (simp add: prev_ok_def)
    have tg: "to_go ((l, int j) # st') = rev (take j (items l)) @ to_go st'"
      using r(2) by (simp add: before_pos_def)
    have rx: "rev (items l) = x # rev (take j (items l))" by (subst il) simp
    have io: "rev (inorder r) = x # rev (take j (items l)) @ to_go st'"
      unfolding r(4) [symmetric] rx by simp
    have "nilPair \<notin> set (rev (inorder r))" using nn by simp
    then have "x \<noteq> nilPair" "nilPair \<notin> set (to_go ((l, int j) # st'))"
      unfolding io tg by auto
    from prev_until_nil_correct [OF ok this(2,1)]
    have "prev_until_nil nilPair x ((l, int j) # st') = Some (rev (inorder r))"
      unfolding tg io by simp
    then show ?thesis using Some by (simp add: F contents_def)
  qed
qed


section \<open>Seeking\<close>













section \<open>Inserting the absent value\<close>

text \<open>
  C8.  For every tree \<open>t\<close>, whatever its shape, \<open>ReplaceOrInsert\<close> called with the absent value
  aborts with its explicit panic, and the handle at the moment of the panic is \<open>t\<close> itself:
  root, contents and \<open>Len\<close> are the ones from before the call.  The explicit panic is raised
  for the absent value only.
\<close>

theorem ReplaceOrInsert_nil_aborts:
  "(\<exists>t'. ReplaceOrInsert lt nilPair nilPair t = Inl (NilItemAdded t') \<and>
         t' = t \<and> root t' = root t \<and> contents t' = contents t \<and> Len t' = Len t) \<and>
   ((\<exists>t'. ReplaceOrInsert lt nilPair item t = Inl (NilItemAdded t')) \<longleftrightarrow> item = nilPair)"
  by (auto simp: ReplaceOrInsert_def Let_def split: option.splits)


section \<open>Claims about the tree as a whole\<close>

lemma swo_nat: "strict_weak_order ((<) :: nat \<Rightarrow> nat \<Rightarrow> bool)"
  by (auto simp: strict_weak_order_def)

lemma swo_fst: "strict_weak_order (\<lambda>a b :: nat \<times> nat. fst a < fst b)"
  by (auto simp: strict_weak_order_def)

text \<open>
  C1.  Start from the empty tree of degree \<open>d \<ge> 2\<close> (the source builds degree 9 only) and apply
  any finite sequence of \<open>ReplaceOrInsert\<close>, \<open>Delete\<close>, \<open>DeleteMin\<close> and \<open>DeleteMax\<close> calls
  that does not insert the absent value (such a call aborts the program).  Under a comparator
  that is a strict weak order, every call returns, and in the resulting tree every node has
  either no children or one child more than it has items, the items of every node are strictly
  increasing, the in-order traversal of the whole tree is strictly increasing, and every node
  other than the root holds between \<open>d - 1\<close> and \<open>2 d - 1\<close> items.
\<close>

theorem structural_invariant_holds:
  assumes "strict_weak_order lt" and "2 \<le> d" and "OpReplaceOrInsert nilPair \<notin> set ops"
  shows "\<exists>t. run lt nilPair ops (empty_tree d) = Inr t \<and> structural_invariant lt d t"
proof -
  from run_total [OF assms(1) tree_inv_empty [OF assms(2)] assms(3)]
  obtain t where t: "run lt nilPair ops (empty_tree d) = Inr t" by blast
  from reachable_inv [OF assms(1,2) t] tree_inv_structural [of lt nilPair t]
  have "structural_invariant lt d t" by simp
  with t show ?thesis by blast
qed

theorem structural_invariant_holds_witness:
  "strict_weak_order ((<) :: nat \<Rightarrow> nat \<Rightarrow> bool) \<and> (2 :: nat) \<le> 2 \<and>
   OpReplaceOrInsert 0 \<notin> set [OpReplaceOrInsert 1, OpReplaceOrInsert 2, OpReplaceOrInsert 3,
     OpReplaceOrInsert 4, OpReplaceOrInsert 5, OpReplaceOrInsert 6, OpReplaceOrInsert (7 :: nat),
     OpDelete 4, OpDeleteMin, OpDeleteMax] \<and>
   run (<) 0 [OpReplaceOrInsert 1, OpReplaceOrInsert 2, OpReplaceOrInsert 3,
     OpReplaceOrInsert 4, OpReplaceOrInsert 5, OpReplaceOrInsert 6, OpReplaceOrInsert (7 :: nat),
     OpDelete 4, OpDeleteMin, OpDeleteMax] (empty_tree 2) =
     Inr \<lparr>degree = 2, length_t = 4, root = Some (Node [5] [Node [2, 3] [], Node [6] []])\<rparr> \<and>
   structural_invariant (<) 2
     \<lparr>degree = 2, length_t = 4, root = Some (Node [5] [Node [2, 3] [], Node [6 :: nat] []])\<rparr>"
proof -
  let ?ops = "[OpReplaceOrInsert 1, OpReplaceOrInsert 2, OpReplaceOrInsert 3,
     OpReplaceOrInsert 4, OpReplaceOrInsert 5, OpReplaceOrInsert 6, OpReplaceOrInsert (7 :: nat),
     OpDelete 4, OpDeleteMin, OpDeleteMax]"
  have n: "OpReplaceOrInsert 0 \<notin> set ?ops" by simp
  have e: "run (<) 0 ?ops (empty_tree 2) =
     Inr \<lparr>degree = 2, length_t = 4, root = Some (Node [5] [Node [2, 3] [], Node [6] []])\<rparr>"
    by code_simp
  from structural_invariant_holds [OF swo_nat order_refl n] e
  have "structural_invariant (<) 2
     \<lparr>degree = 2, length_t = 4, root = Some (Node [5] [Node [2, 3] [], Node [6 :: nat] []])\<rparr>"
    by simp
  with swo_nat n e show ?thesis by simp
qed

text \<open>
  C2.  Let \<open>t\<close> be a tree built by operations from the empty tree and \<open>item\<close> differ from the
  absent value.  \<open>ReplaceOrInsert\<close> returns.  If an item equal to \<open>item\<close> under the comparator
  is stored, that stored item is returned, the traversal afterwards is the old one with that
  item replaced in its place by \<open>item\<close>, and \<open>Len\<close> is unchanged.  Otherwise the absent value is
  returned, \<open>Len\<close> grows by one and \<open>item\<close> stands at its place in the order.  In both cases
  no two stored items are equal under the comparator afterwards.
\<close>

theorem ReplaceOrInsert_upsert:
  assumes "strict_weak_order lt" and "2 \<le> d"
    and "run lt nilPair ops (empty_tree d) = Inr t" and "item \<noteq> nilPair"
  shows "\<exists>out t'. ReplaceOrInsert lt nilPair item t = Inr (out, t') \<and>
           (if \<exists>y \<in> set (contents t). equiv lt item y
            then out \<in> set (contents t) \<and> equiv lt item out \<and>
                 contents t' = map (\<lambda>z. if equiv lt item z then item else z) (contents t) \<and>
                 Len t' = Len t
            else out = nilPair \<and> Len t' = Len t + 1 \<and>
                 contents t' = filter (\<lambda>y. lt y item) (contents t) @ item #
                               filter (\<lambda>y. lt item y) (contents t)) \<and>
           sorted_wrt lt (contents t') \<and>
           (\<forall>a \<in> set (contents t'). \<forall>b \<in> set (contents t'). equiv lt a b \<longrightarrow> a = b)"
  using ReplaceOrInsert_upsert_inv [OF assms(1) reachable_inv(1) [OF assms(1,2,3)] assms(4)]
  by blast

theorem ReplaceOrInsert_upsert_witness:
  "strict_weak_order (\<lambda>a b :: nat \<times> nat. fst a < fst b) \<and> (2 :: nat) \<le> 2 \<and>
   run (\<lambda>a b. fst a < fst b) (0, 0)
     [OpReplaceOrInsert (1 :: nat, 10 :: nat), OpReplaceOrInsert (2, 20), OpReplaceOrInsert (3, 30)]
     (empty_tree 2) =
     Inr \<lparr>degree = 2, length_t = 3, root = Some (Node [(1 :: nat, 10 :: nat), (2, 20), (3, 30)] [])\<rparr> \<and>
   (2 :: nat, 99 :: nat) \<noteq> (0, 0) \<and>
   ReplaceOrInsert (\<lambda>a b. fst a < fst b) (0, 0) (2 :: nat, 99 :: nat)
     \<lparr>degree = 2, length_t = 3, root = Some (Node [(1 :: nat, 10 :: nat), (2, 20), (3, 30)] [])\<rparr> =
     Inr ((2, 20), \<lparr>degree = 2, length_t = 3,
                     root = Some (Node [(2 :: nat, 99 :: nat)] [Node [(1 :: nat, 10 :: nat)] [], Node [(3, 30)] []])\<rparr>) \<and>
   (\<exists>out t'. ReplaceOrInsert (\<lambda>a b. fst a < fst b) (0, 0) (2 :: nat, 99 :: nat)
       \<lparr>degree = 2, length_t = 3, root = Some (Node [(1 :: nat, 10 :: nat), (2, 20), (3, 30)] [])\<rparr> =
       Inr (out, t') \<and> Len t' = 3 \<and> contents t' = [(1 :: nat, 10 :: nat), (2 :: nat, 99 :: nat), (3, 30)])"
proof -
  let ?lt = "\<lambda>a b :: nat \<times> nat. fst a < fst b"
  let ?t = "\<lparr>degree = 2, length_t = 3, root = Some (Node [(1, 10), (2, 20), (3 :: nat, 30 :: nat)] [])\<rparr>"
  have e: "run ?lt (0, 0)
     [OpReplaceOrInsert (1, 10), OpReplaceOrInsert (2, 20), OpReplaceOrInsert (3, 30)]
     (empty_tree 2) = Inr ?t"
    by code_simp
  have r: "ReplaceOrInsert ?lt (0, 0) (2, 99) ?t =
     Inr ((2, 20), \<lparr>degree = 2, length_t = 3,
                     root = Some (Node [(2, 99)] [Node [(1, 10)] [], Node [(3, 30)] []])\<rparr>)"
    by code_simp
  have c: "contents ?t = [(1, 10), (2, 20), (3, 30)]" by (simp add: contents_def)
  have p: "\<exists>y \<in> set (contents ?t). equiv ?lt (2, 99) y" by (simp add: contents_def equiv_def)
  from ReplaceOrInsert_upsert [OF swo_fst order_refl e, of "(2, 99)"] p
  obtain out t' where "ReplaceOrInsert ?lt (0, 0) (2, 99) ?t = Inr (out, t')"
    "contents t' = map (\<lambda>z. if equiv ?lt (2, 99) z then (2, 99) else z) (contents ?t)"
    "Len t' = Len ?t"
    by auto
  then have "\<exists>out t'. ReplaceOrInsert ?lt (0, 0) (2, 99) ?t = Inr (out, t') \<and> Len t' = 3 \<and>
      contents t' = [(1, 10), (2, 99), (3, 30)]"
    by (simp add: contents_def equiv_def Len_def)
  with swo_fst e r show ?thesis by simp
qed

text \<open>
  C5.  Take pairwise distinct keys \<open>xs\<close> (no two equal under the comparator), none of them the
  absent value, and let \<open>ys\<close> list the same keys once each in any order.  Inserting all of
  \<open>xs\<close> into the empty tree gives a tree of \<open>Len = length xs\<close> that stores exactly \<open>xs\<close>.
  Then \<open>Delete\<close> is called once for each key, with probes \<open>ps\<close>: the probe at each position
  is equal under the comparator to the key of \<open>ys\<close> at that position, and need not be that
  key itself.  Every call returns the stored key, not the probe, so the returned items are
  \<open>ys\<close>: each key exactly once.  After the first \<open>k\<close> calls the tree stores the keys not yet
  deleted and \<open>Len\<close> has gone down by \<open>k\<close>; after all calls \<open>Len = 0\<close>, no item is stored, and
  a further \<open>Delete\<close> of anything returns the absent value.
\<close>

theorem insert_delete_round_trip:
  assumes "strict_weak_order lt" and "2 \<le> d" and "nilPair \<notin> set xs"
    and "distinct_keys lt xs" and "distinct ys" and "set ys = set xs"
    and "list_all2 (equiv lt) ps ys"
  shows "\<exists>t1 t2. run lt nilPair (map OpReplaceOrInsert xs) (empty_tree d) = Inr t1 \<and>
           Len t1 = int (length xs) \<and> set (contents t1) = set xs \<and>
           delete_each lt nilPair ps t1 = Inr (ys, t2) \<and> Len t2 = 0 \<and> contents t2 = [] \<and>
           (\<forall>k \<le> length ys. \<exists>tk.
              delete_each lt nilPair (take k ps) t1 = Inr (take k ys, tk) \<and>
              Len tk = int (length xs) - int k \<and>
              set (contents tk) = set xs - set (take k ys)) \<and>
           (\<forall>p. \<exists>t3. Delete lt nilPair p t2 = Inr (nilPair, t3) \<and> Len t3 = 0)"
proof -
  have e0: "contents (empty_tree d :: 'a PairTree) = []" by (simp add: contents_def empty_tree_def)
  from insert_all [OF assms(1) tree_inv_empty [OF assms(2)] assms(3,4)] e0
  obtain t1 where t1: "run lt nilPair (map OpReplaceOrInsert xs) (empty_tree d) = Inr t1"
    "tree_inv lt nilPair t1" "set (contents t1) = set xs" "length (contents t1) = length xs"
    by auto
  have sub: "set ys \<subseteq> set (contents t1)" using assms(6) t1(3) by simp
  from delete_all_equiv [OF assms(1,7) t1(2) assms(5) sub]
  obtain t2 where t2: "delete_each lt nilPair ps t1 = Inr (ys, t2)" "tree_inv lt nilPair t2"
    "set (contents t2) = set (contents t1) - set ys" by blast
  have c2: "contents t2 = []" using t2(3) assms(6) t1(3) by simp
  have l1: "Len t1 = int (length xs)" using tree_inv_Len [OF t1(2)] t1(4) by simp
  have l2: "Len t2 = 0" using tree_inv_Len [OF t2(2)] c2 by simp
  have pre: "\<exists>tk. delete_each lt nilPair (take k ps) t1 = Inr (take k ys, tk) \<and>
              Len tk = int (length xs) - int k \<and>
              set (contents tk) = set xs - set (take k ys)" if k: "k \<le> length ys" for k
  proof -
    have a: "list_all2 (equiv lt) (take k ps) (take k ys)"
      using assms(7) by (rule list_all2_takeI)
    have b: "distinct (take k ys)" using assms(5) by (rule distinct_take)
    have c: "set (take k ys) \<subseteq> set (contents t1)" using sub set_take_subset [of k ys] by blast
    from delete_all_equiv [OF assms(1) a t1(2) b c]
    obtain tk where tk: "delete_each lt nilPair (take k ps) t1 = Inr (take k ys, tk)"
      "tree_inv lt nilPair tk" "set (contents tk) = set (contents t1) - set (take k ys)"
      "int (length (contents tk)) = int (length (contents t1)) - int (length (take k ys))"
      by blast
    have "Len tk = int (length xs) - int k"
      using tree_inv_Len [OF tk(2)] tk(4) t1(4) k by simp
    with tk(1,3) t1(3) show ?thesis by simp
  qed
  have post: "\<exists>t3. Delete lt nilPair p t2 = Inr (nilPair, t3) \<and> Len t3 = 0" for p
    by (rule Delete_on_empty [OF assms(1) t2(2) c2])
  from t1(1) l1 t1(3) t2(1) l2 c2 pre post show ?thesis by blast
qed

theorem insert_delete_round_trip_witness:
  "strict_weak_order (\<lambda>a b :: nat \<times> nat. fst a < fst b) \<and> (2 :: nat) \<le> 2 \<and>
   (0 :: nat, 0 :: nat) \<notin> set [(5, 50), (1, 10), (4, 40), (2, 20), (3, 30), (6, 60)] \<and>
   distinct_keys (\<lambda>a b. fst a < fst b)
     [(5 :: nat, 50 :: nat), (1, 10), (4, 40), (2, 20), (3, 30), (6, 60)] \<and>
   distinct [(2 :: nat, 20 :: nat), (6, 60), (1, 10), (5, 50), (3, 30), (4, 40)] \<and>
   set [(2 :: nat, 20 :: nat), (6, 60), (1, 10), (5, 50), (3, 30), (4, 40)] =
     set [(5, 50), (1, 10), (4, 40), (2, 20), (3, 30), (6, 60)] \<and>
   list_all2 (equiv (\<lambda>a b. fst a < fst b))
     [(2 :: nat, 0 :: nat), (6, 1), (1, 2), (5, 3), (3, 4), (4, 5)]
     [(2, 20), (6, 60), (1, 10), (5, 50), (3, 30), (4, 40)] \<and>
   (\<exists>t1 t2. run (\<lambda>a b. fst a < fst b) (0, 0)
        (map OpReplaceOrInsert [(5 :: nat, 50 :: nat), (1, 10), (4, 40), (2, 20), (3, 30), (6, 60)])
        (empty_tree 2) = Inr t1 \<and>
      Len t1 = 6 \<and>
      delete_each (\<lambda>a b. fst a < fst b) (0, 0)
        [(2, 0), (6, 1), (1, 2), (5, 3), (3, 4), (4, 5)] t1 =
        Inr ([(2, 20), (6, 60), (1, 10), (5, 50), (3, 30), (4, 40)], t2) \<and>
      Len t2 = 0 \<and> contents t2 = [])"
proof -
  let ?lt = "\<lambda>a b :: nat \<times> nat. fst a < fst b"
  let ?xs = "[(5 :: nat, 50 :: nat), (1, 10), (4, 40), (2, 20), (3, 30), (6, 60)]"
  let ?ys = "[(2 :: nat, 20 :: nat), (6, 60), (1, 10), (5, 50), (3, 30), (4, 40)]"
  let ?ps = "[(2 :: nat, 0 :: nat), (6, 1), (1, 2), (5, 3), (3, 4), (4, 5)]"
  have a: "(0 :: nat, 0 :: nat) \<notin> set ?xs" by simp
  have b: "distinct_keys ?lt ?xs" by (simp add: distinct_keys_def)
  have c: "distinct ?ys" by simp
  have d: "set ?ys = set ?xs" by auto
  have e: "list_all2 (equiv ?lt) ?ps ?ys" by (simp add: equiv_def)
  from insert_delete_round_trip [OF swo_fst order_refl a b c d e]
  obtain t1 t2 where "run ?lt (0, 0) (map OpReplaceOrInsert ?xs) (empty_tree 2) = Inr t1"
    "Len t1 = int (length ?xs)" "delete_each ?lt (0, 0) ?ps t1 = Inr (?ys, t2)"
    "Len t2 = 0" "contents t2 = []" by blast
  then have "\<exists>t1 t2. run ?lt (0, 0) (map OpReplaceOrInsert ?xs) (empty_tree 2) = Inr t1 \<and>
      Len t1 = 6 \<and> delete_each ?lt (0, 0) ?ps t1 = Inr (?ys, t2) \<and> Len t2 = 0 \<and> contents t2 = []"
    by auto
  with swo_fst a b c d e show ?thesis by simp
qed

text \<open>
  C9.  On a tree built by operations from the empty tree that holds no items (\<open>Len = 0\<close>),
  \<open>Get\<close>, \<open>Delete\<close>, \<open>Min\<close>, \<open>Max\<close>, \<open>DeleteMin\<close> and \<open>DeleteMax\<close> all return the absent
  value, whatever the argument of \<open>Get\<close> and \<open>Delete\<close>; none of them aborts, and the deletions
  leave the tree as it is.
\<close>

theorem empty_tree_operations:
  assumes "strict_weak_order lt" and "2 \<le> d"
    and "run lt nilPair ops (empty_tree d) = Inr t" and "Len t = 0"
  shows "Get lt nilPair key t = Inr nilPair \<and> Delete lt nilPair key t = Inr (nilPair, t) \<and>
         Min nilPair t = nilPair \<and> Max nilPair t = nilPair \<and>
         DeleteMin lt nilPair t = Inr (nilPair, t) \<and> DeleteMax lt nilPair t = Inr (nilPair, t)"
  using empty_ops_inv [OF reachable_inv(1) [OF assms(1,2,3)] assms(4)] .

theorem empty_tree_operations_witness:
  "strict_weak_order ((<) :: nat \<Rightarrow> nat \<Rightarrow> bool) \<and> (2 :: nat) \<le> 2 \<and>
   run (<) 0 [OpReplaceOrInsert (5 :: nat), OpDeleteMax] (empty_tree 2) =
     Inr \<lparr>degree = 2, length_t = 0, root = Some (Node [] [])\<rparr> \<and>
   Len \<lparr>degree = 2, length_t = 0, root = Some (Node [] [] :: nat node)\<rparr> = 0 \<and>
   Get (<) 0 7 \<lparr>degree = 2, length_t = 0, root = Some (Node [] [] :: nat node)\<rparr> = Inr 0 \<and>
   DeleteMin (<) 0 \<lparr>degree = 2, length_t = 0, root = Some (Node [] [] :: nat node)\<rparr> =
     Inr (0, \<lparr>degree = 2, length_t = 0, root = Some (Node [] [])\<rparr>)"
proof -
  let ?t = "\<lparr>degree = 2, length_t = 0, root = Some (Node [] [] :: nat node)\<rparr>"
  have e: "run (<) 0 [OpReplaceOrInsert (5 :: nat), OpDeleteMax] (empty_tree 2) = Inr ?t"
    by code_simp
  have l: "Len ?t = 0" by (simp add: Len_def)
  from empty_tree_operations [OF swo_nat order_refl e l, of 7]
  show ?thesis using swo_nat e l by simp
qed

text \<open>
  C10.  On a tree built by operations from the empty tree, \<open>Delete\<close> of a key that no stored
  item equals (under the comparator) returns the absent value and leaves \<open>Len\<close> and the
  in-order sequence of stored items as they were.  The nodes themselves may have been
  rearranged by the borrow and merge steps on the way down (the witness shows a merge).
\<close>

theorem Delete_absent_unchanged:
  assumes "strict_weak_order lt" and "2 \<le> d"
    and "run lt nilPair ops (empty_tree d) = Inr t"
    and "\<forall>y \<in> set (contents t). \<not> equiv lt key y"
  shows "\<exists>t'. Delete lt nilPair key t = Inr (nilPair, t') \<and> Len t' = Len t \<and>
              contents t' = contents t"
  using Delete_absent_inv [OF assms(1) reachable_inv(1) [OF assms(1,2,3)] assms(4)] by blast

theorem Delete_absent_unchanged_witness:
  "strict_weak_order ((<) :: nat \<Rightarrow> nat \<Rightarrow> bool) \<and> (2 :: nat) \<le> 2 \<and>
   run (<) 0 (map OpReplaceOrInsert [10, 20, 30, 40, 50, 60, 70 :: nat]) (empty_tree 2) =
     Inr \<lparr>degree = 2, length_t = 7,
          root = Some (Node [20, 40] [Node [10] [], Node [30] [], Node [50, 60, 70] []])\<rparr> \<and>
   \<not> (\<exists>y \<in> set (contents \<lparr>degree = 2, length_t = 7,
          root = Some (Node [20, 40] [Node [10] [], Node [30] [], Node [50, 60, 70 :: nat] []])\<rparr>).
      equiv (<) 5 y) \<and>
   Delete (<) 0 5 \<lparr>degree = 2, length_t = 7,
          root = Some (Node [20, 40] [Node [10] [], Node [30] [], Node [50, 60, 70 :: nat] []])\<rparr> =
     Inr (0, \<lparr>degree = 2, length_t = 7,
          root = Some (Node [40] [Node [10, 20, 30] [], Node [50, 60, 70] []])\<rparr>) \<and>
   contents \<lparr>degree = 2, length_t = 7,
          root = Some (Node [40] [Node [10, 20, 30] [], Node [50, 60, 70 :: nat] []])\<rparr> =
   contents \<lparr>degree = 2, length_t = 7,
          root = Some (Node [20, 40] [Node [10] [], Node [30] [], Node [50, 60, 70 :: nat] []])\<rparr>"
proof -
  let ?t = "\<lparr>degree = 2, length_t = 7,
          root = Some (Node [20, 40] [Node [10] [], Node [30] [], Node [50, 60, 70 :: nat] []])\<rparr>"
  let ?t' = "\<lparr>degree = 2, length_t = 7,
          root = Some (Node [40] [Node [10, 20, 30] [], Node [50, 60, 70 :: nat] []])\<rparr>"
  have e: "run (<) 0 (map OpReplaceOrInsert [10, 20, 30, 40, 50, 60, 70 :: nat]) (empty_tree 2) =
     Inr ?t"
    by code_simp
  have a: "\<forall>y \<in> set (contents ?t). \<not> equiv (<) 5 y" by (simp add: contents_def equiv_def)
  have r: "Delete (<) 0 5 ?t = Inr (0, ?t')" by code_simp
  from Delete_absent_unchanged [OF swo_nat order_refl e a] r
  have "contents ?t' = contents ?t" by simp
  with swo_nat e a r show ?thesis by simp
qed


text \<open>
  C3.  Let \<open>t\<close> be a tree built by operations from the empty tree, under a comparator that is
  a strict weak order, and let \<open>contents t\<close> be its in-order sequence of items, which is
  strictly increasing.  \<open>Ascend\<close> returns and hands \<open>contents t\<close> to its callback, in that
  order; \<open>Descend\<close> hands it the reverse of \<open>contents t\<close>; and for bounds \<open>a\<close> and \<open>b\<close> other
  than the absent value, \<open>AscendRange a b\<close> hands it the items \<open>x\<close> of \<open>contents t\<close> with
  \<open>\<not> x < a\<close> and \<open>x < b\<close>, in increasing order.  A callback that answers \<open>False\<close> ends the
  scan after that item (\<open>feed\<close>); the callback \<open>record_all\<close>, which never does, ends with the
  whole sequence recorded.
\<close>

theorem range_scans:
  assumes "strict_weak_order lt" and "2 \<le> d"
    and "run lt nilPair ops (empty_tree d) = Inr t" and "a \<noteq> nilPair" and "b \<noteq> nilPair"
  shows "sorted_wrt lt (contents t) \<and>
         Ascend lt nilPair iter t s = Some (snd (feed iter (contents t) s)) \<and>
         Descend lt nilPair iter t s = Some (snd (feed iter (rev (contents t)) s)) \<and>
         AscendRange lt nilPair a b iter t s =
           Some (snd (feed iter (filter (\<lambda>x. \<not> lt x a \<and> lt x b) (contents t)) s)) \<and>
         Ascend lt nilPair record_all t [] = Some (contents t) \<and>
         Descend lt nilPair record_all t [] = Some (rev (contents t)) \<and>
         AscendRange lt nilPair a b record_all t [] =
           Some (filter (\<lambda>x. \<not> lt x a \<and> lt x b) (contents t))"
proof -
  note inv = reachable_inv(1) [OF assms(1,2,3)]
  show ?thesis
    using tree_inv_sorted [OF inv]
      Ascend_inv [OF assms(1) inv, of iter s] Descend_inv [OF inv, of iter s]
      AscendRange_inv [OF assms(1) inv assms(4,5), of iter s]
      Ascend_inv [OF assms(1) inv, of record_all "[]"] Descend_inv [OF inv, of record_all "[]"]
      AscendRange_inv [OF assms(1) inv assms(4,5), of record_all "[]"]
    by (simp add: feed_record_all)
qed

theorem range_scans_witness:
  "strict_weak_order ((<) :: nat \<Rightarrow> nat \<Rightarrow> bool) \<and> (2 :: nat) \<le> 2 \<and>
   run (<) 0 (map OpReplaceOrInsert [5, 1, 4, 2, 3, 6, 7, 8, 9, 10 :: nat]) (empty_tree 2) =
     Inr \<lparr>degree = 2, length_t = 10,
          root = Some (Node [4, 6, 8] [Node [1, 2, 3] [], Node [5] [], Node [7] [],
                                  Node [9, 10 :: nat] []])\<rparr> \<and>
   (3 :: nat) \<noteq> 0 \<and> (8 :: nat) \<noteq> 0 \<and>
   Ascend (<) 0 record_all
     \<lparr>degree = 2, length_t = 10,
      root = Some (Node [4, 6, 8] [Node [1, 2, 3] [], Node [5] [], Node [7] [],
                                  Node [9, 10 :: nat] []])\<rparr> [] =
     Some [1, 2, 3, 4, 5, 6, 7, 8, 9, 10] \<and>
   Descend (<) 0 record_all
     \<lparr>degree = 2, length_t = 10,
      root = Some (Node [4, 6, 8] [Node [1, 2, 3] [], Node [5] [], Node [7] [],
                                  Node [9, 10 :: nat] []])\<rparr> [] =
     Some [10, 9, 8, 7, 6, 5, 4, 3, 2, 1] \<and>
   AscendRange (<) 0 3 8 record_all
     \<lparr>degree = 2, length_t = 10,
      root = Some (Node [4, 6, 8] [Node [1, 2, 3] [], Node [5] [], Node [7] [],
                                  Node [9, 10 :: nat] []])\<rparr> [] =
     Some [3, 4, 5, 6, 7]"
proof -
  let ?t = "\<lparr>degree = 2, length_t = 10,
      root = Some (Node [4, 6, 8] [Node [1, 2, 3] [], Node [5] [], Node [7] [],
                                  Node [9, 10 :: nat] []])\<rparr>"
  have e: "run (<) 0 (map OpReplaceOrInsert [5, 1, 4, 2, 3, 6, 7, 8, 9, 10 :: nat]) (empty_tree 2) = Inr ?t"
    by code_simp
  have a: "(3 :: nat) \<noteq> 0" and b: "(8 :: nat) \<noteq> 0" by simp_all
  from range_scans [OF swo_nat order_refl e a b, of record_all "[]"]
  have r: "Ascend (<) 0 record_all ?t [] = Some (contents ?t)"
    "Descend (<) 0 record_all ?t [] = Some (rev (contents ?t))"
    "AscendRange (<) 0 3 8 record_all ?t [] =
       Some (filter (\<lambda>x. \<not> x < 3 \<and> x < 8) (contents ?t))"
    by blast+
  have "Ascend (<) 0 record_all ?t [] = Some [1, 2, 3, 4, 5, 6, 7, 8, 9, 10] \<and>
      Descend (<) 0 record_all ?t [] = Some [10, 9, 8, 7, 6, 5, 4, 3, 2, 1] \<and>
      AscendRange (<) 0 3 8 record_all ?t [] = Some [3, 4, 5, 6, 7]"
    unfolding r by (simp add: contents_def)
  with swo_nat e show ?thesis by simp
qed


text \<open>
  C7.  Let \<open>t\<close> be a tree built by operations from the empty tree.  Position a cursor with
  \<open>First\<close> and call \<open>Next\<close> until the absent value is returned: the loop ends, and the items
  returned before the absent value are, in order, the items that \<open>Ascend\<close> hands to a callback
  that records them all.  Position it with \<open>Last\<close> and call \<open>Prev\<close> until the absent value
  is returned: the items are the ones \<open>Descend\<close> hands to that callback.  Both sequences are
  the in-order contents of the tree, forwards and backwards.
\<close>

theorem cursor_agrees_with_scans:
  assumes "strict_weak_order lt" and "2 \<le> d"
    and "run lt nilPair ops (empty_tree d) = Inr t"
  shows "next_until_nil nilPair (fst (First nilPair t)) (snd (First nilPair t)) =
           Ascend lt nilPair record_all t [] \<and>
         prev_until_nil nilPair (fst (Last nilPair t)) (snd (Last nilPair t)) =
           Descend lt nilPair record_all t [] \<and>
         Ascend lt nilPair record_all t [] = Some (contents t) \<and>
         Descend lt nilPair record_all t [] = Some (rev (contents t))"
proof -
  note inv = reachable_inv(1) [OF assms(1,2,3)]
  show ?thesis
    using First_correct [OF inv] Last_correct [OF inv]
      Ascend_inv [OF assms(1) inv, of record_all "[]"] Descend_inv [OF inv, of record_all "[]"]
    by (simp add: feed_record_all)
qed

theorem cursor_agrees_with_scans_witness:
  "strict_weak_order ((<) :: nat \<Rightarrow> nat \<Rightarrow> bool) \<and> (2 :: nat) \<le> 2 \<and>
   run (<) 0 (map OpReplaceOrInsert [5, 1, 4, 2, 3, 6, 7, 8, 9, 10 :: nat]) (empty_tree 2) =
     Inr \<lparr>degree = 2, length_t = 10,
          root = Some (Node [4, 6, 8] [Node [1, 2, 3] [], Node [5] [], Node [7] [],
                                  Node [9, 10 :: nat] []])\<rparr> \<and>
   next_until_nil 0
     (fst (First 0 \<lparr>degree = 2, length_t = 10,
          root = Some (Node [4, 6, 8] [Node [1, 2, 3] [], Node [5] [], Node [7] [],
                                  Node [9, 10 :: nat] []])\<rparr>))
     (snd (First 0 \<lparr>degree = 2, length_t = 10,
          root = Some (Node [4, 6, 8] [Node [1, 2, 3] [], Node [5] [], Node [7] [],
                                  Node [9, 10 :: nat] []])\<rparr>)) =
     Some [1, 2, 3, 4, 5, 6, 7, 8, 9, 10] \<and>
   prev_until_nil 0
     (fst (Last 0 \<lparr>degree = 2, length_t = 10,
          root = Some (Node [4, 6, 8] [Node [1, 2, 3] [], Node [5] [], Node [7] [],
                                  Node [9, 10 :: nat] []])\<rparr>))
     (snd (Last 0 \<lparr>degree = 2, length_t = 10,
          root = Some (Node [4, 6, 8] [Node [1, 2, 3] [], Node [5] [], Node [7] [],
                                  Node [9, 10 :: nat] []])\<rparr>)) =
     Some [10, 9, 8, 7, 6, 5, 4, 3, 2, 1] \<and>
   Ascend (<) 0 record_all
     \<lparr>degree = 2, length_t = 10,
      root = Some (Node [4, 6, 8] [Node [1, 2, 3] [], Node [5] [], Node [7] [],
                                  Node [9, 10 :: nat] []])\<rparr> [] =
     Some [1, 2, 3, 4, 5, 6, 7, 8, 9, 10] \<and>
   Descend (<) 0 record_all
     \<lparr>degree = 2, length_t = 10,
      root = Some (Node [4, 6, 8] [Node [1, 2, 3] [], Node [5] [], Node [7] [],
                                  Node [9, 10 :: nat] []])\<rparr> [] =
     Some [10, 9, 8, 7, 6, 5, 4, 3, 2, 1]"
proof -
  let ?t = "\<lparr>degree = 2, length_t = 10,
      root = Some (Node [4, 6, 8] [Node [1, 2, 3] [], Node [5] [], Node [7] [],
                                  Node [9, 10 :: nat] []])\<rparr>"
  have e: "run (<) 0 (map OpReplaceOrInsert [5, 1, 4, 2, 3, 6, 7, 8, 9, 10 :: nat])
      (empty_tree 2) = Inr ?t"
    by code_simp
  from cursor_agrees_with_scans [OF swo_nat order_refl e]
  have r: "next_until_nil 0 (fst (First 0 ?t)) (snd (First 0 ?t)) = Some (contents ?t)"
    "prev_until_nil 0 (fst (Last 0 ?t)) (snd (Last 0 ?t)) = Some (rev (contents ?t))"
    "Ascend (<) 0 record_all ?t [] = Some (contents ?t)"
    "Descend (<) 0 record_all ?t [] = Some (rev (contents ?t))"
    by simp_all
  have "next_until_nil 0 (fst (First 0 ?t)) (snd (First 0 ?t)) =
        Some [1, 2, 3, 4, 5, 6, 7, 8, 9, 10] \<and>
      prev_until_nil 0 (fst (Last 0 ?t)) (snd (Last 0 ?t)) =
        Some [10, 9, 8, 7, 6, 5, 4, 3, 2, 1] \<and>
      Ascend (<) 0 record_all ?t [] = Some [1, 2, 3, 4, 5, 6, 7, 8, 9, 10] \<and>
      Descend (<) 0 record_all ?t [] = Some [10, 9, 8, 7, 6, 5, 4, 3, 2, 1]"
    unfolding r by (simp add: contents_def)
  with swo_nat e show ?thesis by simp
qed




end
